(* ===== verification/Prelude.thy ===== *)
theory Prelude
  imports Main "HOL-Library.Word"
begin

text \<open>
  Shared vocabulary of the development: the C integer types the sources use, at
  their widths on a 64-bit Linux target, pointers, and the generic facts about
  lists and words on which the component theories rest.

  \<^item> \<open>push\<close> is the specification of a bounded log: append, dropping the oldest
    element when the log is full. \<open>newest\<close> is the list of the last \<open>n\<close> elements.
  \<^item> \<open>locate\<close> is the specification of finding a position in a concatenation of
    pieces: the number of the piece and the offset inside it.
  \<^item> \<open>overwrite\<close> overwrites a range of a byte block, as a copy into a buffer does.
\<close>

section \<open>Machine types\<close>

type_synonym byte = "8 word"
type_synonym u8 = "8 word"
type_synonym u32 = "32 word"
type_synonym size_t = "64 word"
type_synonym ssize_t = "64 word"
type_synonym loff_t = "64 word"
type_synonym ptr = "64 word"

text \<open>A block-structured memory: the start address of each live block and its bytes.\<close>

type_synonym heap = "ptr \<rightharpoonup> byte list"

abbreviation NULL :: ptr where
  "NULL \<equiv> 0"

abbreviation newline :: byte where
  "newline \<equiv> 10"

named_theorems word_nat \<open>facts that move word arithmetic to natural numbers\<close>

section \<open>Words as natural numbers\<close>

lemma unat_add_less [word_nat]:
  fixes a b :: "'a::len word"
  assumes "unat a + unat b < 2 ^ LENGTH('a)"
  shows "unat (a + b) = unat a + unat b"
  using assms by (simp add: unat_word_ariths)

lemma unat_sub_le [word_nat]:
  fixes a b :: "'a::len word"
  assumes "unat b \<le> unat a"
  shows "unat (a - b) = unat a - unat b"
  using assms by (simp add: unat_sub word_le_nat_alt)

lemma unat_of_nat_less [word_nat]:
  assumes "n < 2 ^ LENGTH('a::len)"
  shows "unat (of_nat n :: 'a word) = n"
  using assms by (simp add: unat_of_nat take_bit_nat_eq_self)

lemma unat_of_nat8 [word_nat]: "n < 256 \<Longrightarrow> unat (of_nat n :: 8 word) = n"
  by (rule unat_of_nat_less) simp

lemma unat_of_nat64 [word_nat]: "n < 18446744073709551616 \<Longrightarrow> unat (of_nat n :: 64 word) = n"
  by (rule unat_of_nat_less) simp

lemma unat_less_pow: "unat (x :: 'a::len word) < 2 ^ LENGTH('a)"
  by (rule unsigned_less)

lemma unat_ucast_32_64 [simp]: "unat (ucast (x :: 32 word) :: 64 word) = unat x"
  using unat_less_pow [of x] by (simp add: unsigned_ucast_eq take_bit_nat_eq_self)

lemma unat_ucast_8_32 [simp]: "unat (ucast (x :: 8 word) :: 32 word) = unat x"
  using unat_less_pow [of x] by (simp add: unsigned_ucast_eq take_bit_nat_eq_self)

lemma sint_of_nat_small: "n < 2 ^ 63 \<Longrightarrow> sint (of_nat n :: 64 word) = int n"
  by (simp add: signed_of_nat signed_take_bit_int_eq_self)

lemma mod_add_cancel_nat:
  fixes a i j n :: nat
  assumes "(a + i) mod n = (a + j) mod n" and "i < n" and "j < n"
  shows "i = j"
proof -
  have *: "i = j" if "i \<le> j" "j < n" "(a + j) mod n = (a + i) mod n" for i j :: nat
  proof -
    from that have "n dvd (a + j) - (a + i)"
      by (subst (asm) mod_eq_dvd_iff_nat) simp_all
    then have "n dvd j - i" by simp
    with that show ?thesis using dvd_imp_le [of n "j - i"] by fastforce
  qed
  show ?thesis using * [of i j] * [of j i] assms by (cases "i \<le> j") simp_all
qed

section \<open>Bounded logs\<close>

definition push :: "nat \<Rightarrow> 'a list \<Rightarrow> 'a \<Rightarrow> 'a list" where
  "push n xs x = (if length xs < n then xs @ [x] else tl xs @ [x])"

definition newest :: "nat \<Rightarrow> 'a list \<Rightarrow> 'a list" where
  "newest n xs = drop (length xs - n) xs"

lemma newest_short [simp]: "length xs \<le> n \<Longrightarrow> newest n xs = xs"
  by (simp add: newest_def)

lemma length_push: "0 < n \<Longrightarrow> length xs \<le> n \<Longrightarrow> length (push n xs x) \<le> n"
  by (auto simp: push_def)

lemma length_push_le: "length (push n xs x) \<le> Suc (length xs)"
  by (auto simp: push_def)

lemma push_newest:
  assumes "0 < n"
  shows "push n (newest n xs) x = newest n (xs @ [x])"
proof (cases "length xs < n")
  case True
  then show ?thesis by (simp add: push_def newest_def)
next
  case False
  with assms have "length (newest n xs) = n" "Suc (length xs - n) = Suc (length xs) - n"
    by (auto simp: newest_def)
  with False assms show ?thesis
    by (simp add: push_def newest_def tl_drop flip: drop_Suc)
qed

lemma foldl_push:
  assumes "0 < n" and "length xs \<le> n"
  shows "foldl (push n) xs ys = newest n (xs @ ys)"
proof (induction ys rule: rev_induct)
  case Nil
  then show ?case using assms by simp
next
  case (snoc y ys)
  then show ?case using push_newest [OF assms(1), of "xs @ ys" y] by simp
qed

lemma map_push: "map f (push n xs x) = push n (map f xs) (f x)"
  by (simp add: push_def map_tl)

lemma set_push_subset: "set (push n xs x) \<subseteq> insert x (set xs)"
  by (cases xs) (auto simp: push_def)

section \<open>Chains of steps\<close>

fun chain :: "('s \<Rightarrow> 'b \<Rightarrow> 's \<Rightarrow> bool) \<Rightarrow> 's \<Rightarrow> 'b list \<Rightarrow> 's \<Rightarrow> bool" where
  "chain st s [] t \<longleftrightarrow> s = t"
| "chain st s (b # bs) t \<longleftrightarrow> (\<exists>m. st s b m \<and> chain st m bs t)"

lemma chain_append: "chain st s (xs @ ys) t \<longleftrightarrow> (\<exists>m. chain st s xs m \<and> chain st m ys t)"
  by (induction xs arbitrary: s) auto

section \<open>Positions in a concatenation\<close>

fun locate :: "nat list \<Rightarrow> nat \<Rightarrow> (nat \<times> nat) option" where
  "locate [] off = None"
| "locate (s # ss) off =
     (if off < s then Some (0, off)
      else map_option (\<lambda>(k, r). (Suc k, r)) (locate ss (off - s)))"

lemma locate_eq_None: "locate ss off = None \<longleftrightarrow> sum_list ss \<le> off"
proof (induction ss arbitrary: off)
  case Nil
  then show ?case by simp
next
  case (Cons s ss)
  then show ?case by (cases "off < s") (simp_all add: le_diff_conv2 add.commute)
qed

lemma locate_Some_iff:
  "locate ss off = Some (k, r) \<longleftrightarrow>
     k < length ss \<and> r < ss ! k \<and> off = sum_list (take k ss) + r"
proof (induction ss arbitrary: off k)
  case Nil
  then show ?case by simp
next
  case (Cons s ss)
  show ?case
  proof (cases k)
    case 0
    then show ?thesis by auto
  next
    case (Suc j)
    then show ?thesis using Cons.IH [of "off - s" j] by auto
  qed
qed

lemma concat_split_nth:
  assumes "k < length xss" and "r \<le> length (xss ! k)"
  shows "drop (sum_list (map length (take k xss)) + r) (concat xss)
           = drop r (xss ! k) @ concat (drop (Suc k) xss)"
proof -
  have "concat xss = concat (take k xss) @ xss ! k @ concat (drop (Suc k) xss)"
    by (subst id_take_nth_drop [OF assms(1)]) simp
  moreover have "length (concat (take k xss)) = sum_list (map length (take k xss))"
    by (simp add: length_concat)
  ultimately show ?thesis using assms(2) by simp
qed

lemma locate_concat:
  assumes "locate (map length xss) off = Some (k, r)"
  shows "drop off (concat xss) = drop r (xss ! k) @ concat (drop (Suc k) xss)"
    and "k < length xss" and "r < length (xss ! k)"
proof -
  from assms have k: "k < length xss" and r: "r < length (xss ! k)"
    and off: "off = sum_list (map length (take k xss)) + r"
    by (auto simp add: locate_Some_iff take_map)
  from k show "k < length xss" .
  from r show "r < length (xss ! k)" .
  from concat_split_nth [OF k less_imp_le [OF r]] off
  show "drop off (concat xss) = drop r (xss ! k) @ concat (drop (Suc k) xss)" by simp
qed

lemma sum_list_take_le: "sum_list (take k ss) \<le> sum_list (ss :: nat list)"
  by (subst (2) append_take_drop_id [of k ss, symmetric]) (simp only: sum_list_append le_add1)

lemma sum_list_take_nth_le:
  assumes "k < length ss"
  shows "sum_list (take k ss) + ss ! k \<le> sum_list (ss :: nat list)"
  using sum_list_take_le [of "Suc k" ss] assms by (simp add: take_Suc_conv_app_nth)

section \<open>Copying into a block\<close>

definition overwrite :: "nat \<Rightarrow> 'a list \<Rightarrow> 'a list \<Rightarrow> 'a list" where
  "overwrite i ys xs = take i xs @ ys @ drop (i + length ys) xs"

lemma length_overwrite [simp]:
  "i + length ys \<le> length xs \<Longrightarrow> length (overwrite i ys xs) = length xs"
  by (simp add: overwrite_def)

lemma take_overwrite [simp]:
  "i + length ys \<le> length xs \<Longrightarrow> take (i + length ys) (overwrite i ys xs) = take i xs @ ys"
  by (simp add: overwrite_def)

end
