(* ===== verification/Circular_Buffer.thy ===== *)
theory Circular_Buffer
  imports Prelude "HOL-Library.Monad_Syntax" "HOL-Library.Multiset"
begin

text \<open>
  The circular buffer of write commands, \<open>src/aesd-char-driver/aesd-circular-buffer.h\<close>
  and \<open>aesd-circular-buffer.c\<close>.

  The structure is a record with the fields of the C struct: an array of ten
  entries (a list), two 8-bit offsets and the \<open>full\<close> flag. An operation that would
  index the array outside its bounds, which is undefined behaviour in C, is \<open>None\<close>
  in the model; so a theorem that an operation is \<open>Some\<close> is a statement of memory
  safety. Sizes and file positions are 64-bit words and wrap as \<open>size_t\<close> does; an
  entry pointer returned into the array is the index of that entry.

  The abstraction \<open>cb_entries\<close> lists the live entries, oldest first. Adding an
  entry is \<open>push\<close> on that list, looking up a position is \<open>locate\<close> on its sizes,
  and the two counting functions are its length and the sum of its sizes.
\<close>

section \<open>Data\<close>

definition AESDCHAR_MAX_WRITE_OPERATIONS_SUPPORTED :: nat where
  "AESDCHAR_MAX_WRITE_OPERATIONS_SUPPORTED = 10"

abbreviation MAXOPS :: nat where
  "MAXOPS \<equiv> AESDCHAR_MAX_WRITE_OPERATIONS_SUPPORTED"

record aesd_buffer_entry =
  buffptr :: ptr
  esize :: size_t

record aesd_circular_buffer =
  entry :: "aesd_buffer_entry list"
  in_offs :: u8
  out_offs :: u8
  full :: bool

section \<open>Operations\<close>

text \<open>Array access: \<open>None\<close> outside the array.\<close>

definition get_entry :: "aesd_circular_buffer \<Rightarrow> nat \<Rightarrow> aesd_buffer_entry option" where
  "get_entry b i = (if i < length (entry b) then Some (entry b ! i) else None)"

definition set_entry ::
  "aesd_circular_buffer \<Rightarrow> nat \<Rightarrow> aesd_buffer_entry \<Rightarrow> aesd_circular_buffer option" where
  "set_entry b i e =
     (if i < length (entry b) then Some (b\<lparr>entry := (entry b)[i := e]\<rparr>) else None)"

text \<open>
  The offset arithmetic \<open>(offs + 1) % MAX\<close> happens in \<open>int\<close> after promotion and is
  stored back into a \<open>uint8_t\<close>.
\<close>

definition next_offs :: "u8 \<Rightarrow> u8" where
  "next_offs x = of_nat ((unat x + 1) mod MAXOPS)"

text \<open>
  The search loop. The outer \<open>None\<close> is an access out of bounds; \<open>Some None\<close> is the
  \<open>NULL\<close> result; \<open>Some (Some (k, r))\<close> is the address of entry \<open>k\<close> with \<open>r\<close> stored
  through \<open>entry_offset_byte_rtn\<close>.
\<close>

function find_loop ::
  "aesd_circular_buffer \<Rightarrow> size_t \<Rightarrow> nat \<Rightarrow> nat \<Rightarrow> nat \<Rightarrow> size_t \<Rightarrow> (nat \<times> size_t) option option"
where
  "find_loop b char_offset total_entries i CB_iter char_count =
     (if i < total_entries then
        do {
          e \<leftarrow> get_entry b CB_iter;
          if char_offset < char_count + esize e
          then Some (Some (CB_iter, char_offset - char_count))
          else find_loop b char_offset total_entries (Suc i)
                 ((CB_iter + 1) mod MAXOPS) (char_count + esize e)
        }
      else Some None)"
  by pat_completeness auto
termination
  by (relation "measure (\<lambda>(b, c, t, i, k, n). t - i)") auto

declare find_loop.simps [simp del]

definition aesd_circular_buffer_find_entry_offset_for_fpos ::
  "aesd_circular_buffer \<Rightarrow> size_t \<Rightarrow> (nat \<times> size_t) option option" where
  "aesd_circular_buffer_find_entry_offset_for_fpos b char_offset =
     (let total_entries = (if full b then MAXOPS else unat (in_offs b))
      in find_loop b char_offset total_entries 0 (unat (out_offs b)) 0)"

definition aesd_circular_buffer_add_entry ::
  "aesd_circular_buffer \<Rightarrow> aesd_buffer_entry \<Rightarrow> (aesd_circular_buffer \<times> ptr) option" where
  "aesd_circular_buffer_add_entry b add_entry =
     do {
       (b1, overwritten_entry) \<leftarrow>
         (if \<not> full b then
            do {
              b' \<leftarrow> set_entry b (unat (in_offs b)) add_entry;
              Some (b'\<lparr>in_offs := next_offs (in_offs b')\<rparr>, NULL)
            }
          else
            do {
              old \<leftarrow> get_entry b (unat (out_offs b));
              b' \<leftarrow> set_entry b (unat (out_offs b)) (old\<lparr>buffptr := NULL\<rparr>);
              b'' \<leftarrow> set_entry b' (unat (in_offs b')) add_entry;
              Some (b''\<lparr>in_offs := next_offs (in_offs b''), out_offs := next_offs (out_offs b'')\<rparr>,
                    buffptr old)
            });
       Some ((if in_offs b1 = out_offs b1 then b1\<lparr>full := True\<rparr> else b1), overwritten_entry)
     }"

text \<open>\<open>memset\<close> to zero of the whole struct.\<close>

definition zero_entry :: aesd_buffer_entry where
  "zero_entry = \<lparr>buffptr = NULL, esize = 0\<rparr>"

definition aesd_circular_buffer_init :: aesd_circular_buffer where
  "aesd_circular_buffer_init =
     \<lparr>entry = replicate MAXOPS zero_entry, in_offs = 0, out_offs = 0, full = False\<rparr>"

text \<open>The two counting loops run over all ten array slots.\<close>

fun size_loop :: "aesd_circular_buffer \<Rightarrow> nat list \<Rightarrow> size_t \<Rightarrow> size_t option" where
  "size_loop b [] sz = Some sz"
| "size_loop b (i # is) sz =
     do {
       e \<leftarrow> get_entry b i;
       size_loop b is (if buffptr e \<noteq> NULL then sz + 1 else sz)
     }"

definition aesd_circular_buffer_size :: "aesd_circular_buffer \<Rightarrow> size_t option" where
  "aesd_circular_buffer_size b = size_loop b [0..<MAXOPS] 0"

fun total_size_loop :: "aesd_circular_buffer \<Rightarrow> nat list \<Rightarrow> size_t \<Rightarrow> size_t option" where
  "total_size_loop b [] tot = Some tot"
| "total_size_loop b (i # is) tot =
     do {
       e \<leftarrow> get_entry b i;
       total_size_loop b is (if buffptr e \<noteq> NULL then tot + esize e else tot)
     }"

definition aesd_circular_buffer_total_size :: "aesd_circular_buffer \<Rightarrow> size_t option" where
  "aesd_circular_buffer_total_size b = total_size_loop b [0..<MAXOPS] 0"

text \<open>
  The iteration macro \<open>AESD_CIRCULAR_BUFFER_FOREACH\<close>: a body, which may change the
  entry it is given and a surrounding state, run on the slots in array order.
\<close>

fun foreach_loop ::
  "(aesd_buffer_entry \<Rightarrow> 's \<Rightarrow> (aesd_buffer_entry \<times> 's) option) \<Rightarrow>
   nat list \<Rightarrow> aesd_circular_buffer \<Rightarrow> 's \<Rightarrow> (aesd_circular_buffer \<times> 's) option" where
  "foreach_loop body [] b s = Some (b, s)"
| "foreach_loop body (i # is) b s =
     do {
       e \<leftarrow> get_entry b i;
       (e', s') \<leftarrow> body e s;
       b' \<leftarrow> set_entry b i e';
       foreach_loop body is b' s'
     }"

definition AESD_CIRCULAR_BUFFER_FOREACH ::
  "(aesd_buffer_entry \<Rightarrow> 's \<Rightarrow> (aesd_buffer_entry \<times> 's) option) \<Rightarrow>
   aesd_circular_buffer \<Rightarrow> 's \<Rightarrow> (aesd_circular_buffer \<times> 's) option" where
  "AESD_CIRCULAR_BUFFER_FOREACH body b s = foreach_loop body [0..<MAXOPS] b s"

section \<open>Well-formedness and abstraction\<close>

text \<open>
  The ring never gives entries back: \<open>out_offs\<close> moves only once the ring is full,
  and \<open>full\<close> is never reset. The search relies on this, since it takes \<open>in_offs\<close> as
  the number of entries of a ring that is not full.
\<close>

definition cb_wf :: "aesd_circular_buffer \<Rightarrow> bool" where
  "cb_wf b \<longleftrightarrow> length (entry b) = MAXOPS \<and> unat (in_offs b) < MAXOPS \<and> unat (out_offs b) < MAXOPS
     \<and> (if full b then in_offs b = out_offs b else out_offs b = 0)"

definition cb_count :: "aesd_circular_buffer \<Rightarrow> nat" where
  "cb_count b = (if full b then MAXOPS else unat (in_offs b))"

definition cb_idx :: "aesd_circular_buffer \<Rightarrow> nat \<Rightarrow> nat" where
  "cb_idx b i = (unat (out_offs b) + i) mod MAXOPS"

definition cb_entries :: "aesd_circular_buffer \<Rightarrow> aesd_buffer_entry list" where
  "cb_entries b = map (\<lambda>i. entry b ! cb_idx b i) [0..<cb_count b]"

abbreviation cb_sizes :: "aesd_circular_buffer \<Rightarrow> nat list" where
  "cb_sizes b \<equiv> map (\<lambda>e. unat (esize e)) (cb_entries b)"

text \<open>
  The pointer discipline the driver adds: live entries have a buffer, unused slots
  are still zero.
\<close>

definition cb_clean :: "aesd_circular_buffer \<Rightarrow> bool" where
  "cb_clean b \<longleftrightarrow> (\<forall>e \<in> set (cb_entries b). buffptr e \<noteq> NULL)
     \<and> (\<forall>i. cb_count b \<le> i \<longrightarrow> i < MAXOPS \<longrightarrow> entry b ! i = zero_entry)"


section \<open>Basic facts\<close>

lemmas maxops = AESDCHAR_MAX_WRITE_OPERATIONS_SUPPORTED_def

lemma MAXOPS_pos [simp]: "0 < MAXOPS"
  by (simp add: maxops)

lemma unat_next_offs [simp]: "unat (next_offs x) = (unat x + 1) mod MAXOPS"
  by (simp add: next_offs_def maxops unat_of_nat8)

lemma cb_idx_less [simp]: "cb_idx b i < MAXOPS"
  by (simp add: cb_idx_def)

lemma cb_idx_Suc: "cb_idx b (Suc i) = (cb_idx b i + 1) mod MAXOPS"
  by (simp add: cb_idx_def mod_Suc_eq)

lemma cb_wf_length [simp]: "cb_wf b \<Longrightarrow> length (entry b) = MAXOPS"
  by (simp add: cb_wf_def)

lemma cb_idx_0 [simp]: "cb_wf b \<Longrightarrow> cb_idx b 0 = unat (out_offs b)"
  by (simp add: cb_idx_def cb_wf_def)

lemma cb_idx_not_full:
  assumes "cb_wf b" and "\<not> full b" and "i < MAXOPS"
  shows "cb_idx b i = i"
  using assms by (simp add: cb_idx_def cb_wf_def)

lemma cb_count_le: "cb_wf b \<Longrightarrow> cb_count b \<le> MAXOPS"
  by (simp add: cb_wf_def cb_count_def)

lemma length_cb_entries [simp]: "length (cb_entries b) = cb_count b"
  by (simp add: cb_entries_def)

lemma cb_entries_nth [simp]: "i < cb_count b \<Longrightarrow> cb_entries b ! i = entry b ! cb_idx b i"
  by (simp add: cb_entries_def)

lemma get_entry_wf [simp]: "cb_wf b \<Longrightarrow> i < MAXOPS \<Longrightarrow> get_entry b i = Some (entry b ! i)"
  by (simp add: get_entry_def)

lemma set_entry_wf [simp]:
  "cb_wf b \<Longrightarrow> i < MAXOPS \<Longrightarrow> set_entry b i e = Some (b\<lparr>entry := (entry b)[i := e]\<rparr>)"
  by (simp add: set_entry_def)

lemma cb_idx_inj:
  assumes "i < MAXOPS" and "j < MAXOPS" and "cb_idx b i = cb_idx b j"
  shows "i = j"
  using assms by (auto simp: cb_idx_def intro: mod_add_cancel_nat)

lemma inj_on_cb_idx: "n \<le> MAXOPS \<Longrightarrow> inj_on (cb_idx b) {0..<n}"
  by (rule inj_onI, rule cb_idx_inj) simp_all

lemma cb_init_wf: "cb_wf aesd_circular_buffer_init"
  by (simp add: cb_wf_def aesd_circular_buffer_init_def)

lemma cb_init_entries [simp]: "cb_entries aesd_circular_buffer_init = []"
  by (simp add: cb_entries_def cb_count_def aesd_circular_buffer_init_def)

section \<open>Adding an entry\<close>

text \<open>The new state, in closed form, for either state of the ring.\<close>

definition cb_added :: "aesd_circular_buffer \<Rightarrow> aesd_buffer_entry \<Rightarrow> aesd_circular_buffer" where
  "cb_added b e = b\<lparr>entry := (entry b)[unat (in_offs b) := e],
     in_offs := next_offs (in_offs b),
     out_offs := (if full b then next_offs (out_offs b) else out_offs b),
     full := (full b \<or> unat (in_offs b) + 1 = MAXOPS)\<rparr>"

definition cb_dropped :: "aesd_circular_buffer \<Rightarrow> ptr" where
  "cb_dropped b = (if full b then buffptr (hd (cb_entries b)) else NULL)"

lemma hd_cb_entries:
  assumes "cb_wf b" and "0 < cb_count b"
  shows "hd (cb_entries b) = entry b ! unat (out_offs b)"
proof -
  have "cb_entries b \<noteq> []" using assms(2) by (simp flip: length_greater_0_conv)
  then show ?thesis using assms by (simp add: hd_conv_nth)
qed

lemma next_offs_eq_0: 
  assumes "unat x < MAXOPS"
  shows "next_offs x = 0 \<longleftrightarrow> unat x + 1 = MAXOPS"
proof -
  have "next_offs x = 0 \<longleftrightarrow> unat (next_offs x) = 0" by (rule unat_eq_zero [symmetric])
  also have "\<dots> \<longleftrightarrow> unat x + 1 = MAXOPS" using assms by (cases "unat x + 1 = MAXOPS") simp_all
  finally show ?thesis .
qed

lemma add_entry_eq:
  assumes "cb_wf b"
  shows "aesd_circular_buffer_add_entry b e = Some (cb_added b e, cb_dropped b)"
proof (cases "full b")
  case True
  with assms have "0 < cb_count b" by (simp add: cb_count_def)
  with assms True hd_cb_entries [of b] show ?thesis
    by (simp add: aesd_circular_buffer_add_entry_def cb_added_def cb_dropped_def get_entry_def
        set_entry_def cb_wf_def)
next
  case False
  with assms next_offs_eq_0 [of "in_offs b"] show ?thesis
    by (simp add: aesd_circular_buffer_add_entry_def cb_added_def cb_dropped_def set_entry_def
        cb_wf_def)
qed

lemma cb_added_wf:
  assumes "cb_wf b"
  shows "cb_wf (cb_added b e)"
proof (cases "full b")
  case True
  with assms show ?thesis by (simp add: cb_wf_def cb_added_def)
next
  case False
  with assms next_offs_eq_0 [of "in_offs b"] show ?thesis
    by (simp add: cb_wf_def cb_added_def)
qed

lemma cb_added_entries_full:
  assumes wf: "cb_wf b" and full: "full b"
  shows "cb_entries (cb_added b e) = tl (cb_entries b) @ [e]"
proof (rule nth_equalityI)
  have cnt: "cb_count b = MAXOPS" "cb_count (cb_added b e) = MAXOPS"
    using full by (simp_all add: cb_count_def cb_added_def)
  show "length (cb_entries (cb_added b e)) = length (tl (cb_entries b) @ [e])"
    using cnt by simp
  fix i assume "i < length (cb_entries (cb_added b e))"
  then have i: "i < MAXOPS" using cnt by simp
  have idx: "cb_idx (cb_added b e) i = cb_idx b (Suc i)"
    using full by (simp add: cb_idx_def cb_added_def mod_simps)
  have in_out: "unat (in_offs b) = cb_idx b 0" using wf full by (simp add: cb_wf_def cb_idx_def)
  show "cb_entries (cb_added b e) ! i = (tl (cb_entries b) @ [e]) ! i"
  proof (cases "Suc i < MAXOPS")
    case True
    then have "cb_idx b (Suc i) \<noteq> cb_idx b 0" using cb_idx_inj [of "Suc i" 0 b] by auto
    with True i cnt idx in_out show ?thesis
      by (simp add: nth_append nth_tl cb_added_def)
  next
    case False
    with i have "i = MAXOPS - 1" by simp
    moreover from this have "cb_idx b (Suc i) = cb_idx b 0" by (simp add: cb_idx_def)
    ultimately have "cb_idx (cb_added b e) i = unat (in_offs b)" using idx in_out by simp
    then have "cb_entries (cb_added b e) ! i = e"
      using i cnt wf by (simp add: cb_added_def cb_wf_def)
    then show ?thesis using cnt \<open>i = MAXOPS - 1\<close> by (simp add: nth_append)
  qed
qed

lemma cb_added_entries_not_full:
  assumes wf: "cb_wf b" and nf: "\<not> full b"
  shows "cb_entries (cb_added b e) = cb_entries b @ [e]"
proof (rule nth_equalityI)
  have cnt: "cb_count (cb_added b e) = Suc (cb_count b)"
    using wf nf by (auto simp: cb_count_def cb_added_def cb_wf_def)
  then show "length (cb_entries (cb_added b e)) = length (cb_entries b @ [e])" by simp
  fix i assume "i < length (cb_entries (cb_added b e))"
  with cnt have i: "i \<le> cb_count b" by simp
  have c: "cb_count b = unat (in_offs b)" "cb_count b < MAXOPS"
    using wf nf by (simp_all add: cb_count_def cb_wf_def)
  have o: "out_offs b = 0" using wf nf by (simp add: cb_wf_def)
  have "cb_idx (cb_added b e) i = i" "cb_idx b i = i"
    using i c o nf by (simp_all add: cb_idx_def cb_added_def)
  with i c cnt wf show "cb_entries (cb_added b e) ! i = (cb_entries b @ [e]) ! i"
    by (cases "i = cb_count b") (simp_all add: nth_append cb_added_def)
qed

lemma cb_added_entries:
  assumes "cb_wf b"
  shows "cb_entries (cb_added b e) = push MAXOPS (cb_entries b) e"
proof (cases "full b")
  case True
  then show ?thesis using assms by (simp add: push_def cb_added_entries_full cb_count_def)
next
  case False
  then have "cb_count b < MAXOPS" using assms by (simp add: cb_count_def cb_wf_def)
  with False show ?thesis using assms by (simp add: push_def cb_added_entries_not_full)
qed

section \<open>Finding a position\<close>

lemma find_loop_correct:
  assumes wf: "cb_wf b" and bound: "sum_list (cb_sizes b) < 2 ^ 64"
    and i: "i \<le> cb_count b" and before: "sum_list (take i (cb_sizes b)) \<le> unat off"
  shows "find_loop b off (cb_count b) i (cb_idx b i) (of_nat (sum_list (take i (cb_sizes b))))
    = Some (map_option (\<lambda>(k, r). (cb_idx b (i + k), of_nat r))
             (locate (drop i (cb_sizes b)) (unat off - sum_list (take i (cb_sizes b)))))"
  using i before
proof (induction "cb_count b - i" arbitrary: i)
  case 0
  then show ?case by (simp add: find_loop.simps)
next
  case (Suc d)
  define s where "s = sum_list (take i (cb_sizes b))"
  define z where "z = esize (entry b ! cb_idx b i)"
  from Suc.hyps(2) Suc.prems(1) have i: "i < cb_count b" by simp
  then have zi: "cb_sizes b ! i = unat z" by (simp add: z_def)
  have next_s: "sum_list (take (Suc i) (cb_sizes b)) = s + unat z"
    using i zi by (simp add: take_Suc_conv_app_nth s_def)
  have le: "s + unat z < 2 ^ 64"
    using sum_list_take_le [of "Suc i" "cb_sizes b"] bound next_s by simp
  have us: "unat (of_nat s :: size_t) = s" using le by (intro unat_of_nat_less) simp
  have add: "unat (of_nat s + z :: size_t) = s + unat z"
    using le us by (subst unat_add_less) simp_all
  have sub: "of_nat (unat off - s) = off - of_nat s"
    using Suc.prems(2) by (simp add: s_def of_nat_diff)
  have drop_i: "drop i (cb_sizes b) = unat z # drop (Suc i) (cb_sizes b)"
    using i zi by (subst Cons_nth_drop_Suc [symmetric]) simp_all
  show ?case
  proof (cases "off < of_nat s + z")
    case True
    then have "unat off - s < unat z" using add Suc.prems(2) s_def by (simp add: word_less_nat_alt)
    with True i wf sub drop_i show ?thesis
      by (subst find_loop.simps) (simp flip: s_def z_def)
  next
    case False
    then have ge: "s + unat z \<le> unat off" using add by (simp add: word_less_nat_alt)
    have "find_loop b off (cb_count b) (Suc i) (cb_idx b (Suc i)) (of_nat (s + unat z))
        = Some (map_option (\<lambda>(k, r). (cb_idx b (Suc i + k), of_nat r))
             (locate (drop (Suc i) (cb_sizes b)) (unat off - (s + unat z))))"
      using Suc.hyps(1) [of "Suc i"] Suc.hyps(2) i ge next_s by simp
    with False i wf ge drop_i show ?thesis
      by (subst find_loop.simps)
        (simp add: cb_idx_Suc option.map_comp comp_def case_prod_unfold flip: s_def z_def)
  qed
qed

lemma find_correct:
  assumes "cb_wf b" and "sum_list (cb_sizes b) < 2 ^ 64"
  shows "aesd_circular_buffer_find_entry_offset_for_fpos b off
    = Some (map_option (\<lambda>(k, r). (cb_idx b k, of_nat r)) (locate (cb_sizes b) (unat off)))"
  using find_loop_correct [OF assms, of 0 off] assms(1)
  by (simp add: aesd_circular_buffer_find_entry_offset_for_fpos_def flip: cb_count_def)

section \<open>Counting\<close>

lemma size_loop_eq:
  assumes "cb_wf b" and "set is \<subseteq> {..<MAXOPS}"
  shows "size_loop b is sz
    = Some (sz + of_nat (length (filter (\<lambda>i. buffptr (entry b ! i) \<noteq> NULL) is)))"
  using assms(2) by (induction "is" arbitrary: sz) (simp_all add: assms(1) add.assoc)

lemma total_size_loop_eq:
  assumes "cb_wf b" and "set is \<subseteq> {..<MAXOPS}"
  shows "total_size_loop b is t
    = Some (t + sum_list (map (\<lambda>i. esize (entry b ! i))
                          (filter (\<lambda>i. buffptr (entry b ! i) \<noteq> NULL) is)))"
  using assms(2) by (induction "is" arbitrary: t) (simp_all add: assms(1) add.assoc)

lemma cb_clean_nth:
  assumes "cb_clean b" and "i < cb_count b"
  shows "buffptr (entry b ! cb_idx b i) \<noteq> NULL"
  using assms by (auto simp: cb_clean_def cb_entries_def)

text \<open>In a clean ring the slots with a buffer are, in some order, the live entries.\<close>

lemma cb_slots_mset:
  assumes wf: "cb_wf b" and clean: "cb_clean b"
  shows "mset (map (\<lambda>i. entry b ! i) (filter (\<lambda>i. buffptr (entry b ! i) \<noteq> NULL) [0..<MAXOPS]))
    = mset (cb_entries b)"
proof -
  let ?live = "filter (\<lambda>i. buffptr (entry b ! i) \<noteq> NULL) [0..<MAXOPS]"
  let ?idx = "map (cb_idx b) [0..<cb_count b]"
  have cnt: "cb_count b \<le> MAXOPS" using wf by (rule cb_count_le)
  have "set ?live = set ?idx"
  proof (cases "full b")
    case True
    then have c: "cb_count b = MAXOPS" by (simp add: cb_count_def)
    have img: "cb_idx b ` {0..<MAXOPS} = {0..<MAXOPS}"
      using inj_on_cb_idx [of MAXOPS b] by (intro endo_inj_surj) auto
    have "buffptr (entry b ! i) \<noteq> NULL" if "i < MAXOPS" for i
    proof -
      from that img have "i \<in> cb_idx b ` {0..<MAXOPS}" by simp
      then obtain j where "j < MAXOPS" "i = cb_idx b j" by auto
      with cb_clean_nth [OF clean] c show ?thesis by simp
    qed
    then have "?live = [0..<MAXOPS]" by (simp add: filter_id_conv)
    with img c show ?thesis by simp
  next
    case False
    then have idx: "cb_idx b i = i" if "i < MAXOPS" for i
      using wf that by (simp add: cb_idx_not_full)
    then have "set ?idx = {0..<cb_count b}" using cnt by simp
    moreover have "buffptr (entry b ! i) \<noteq> NULL \<longleftrightarrow> i < cb_count b" if "i < MAXOPS" for i
    proof (cases "i < cb_count b")
      case True
      with cb_clean_nth [OF clean True] idx [OF that] show ?thesis by simp
    next
      case False
      with clean that show ?thesis by (simp add: cb_clean_def zero_entry_def)
    qed
    moreover from this have "?live = filter (\<lambda>i. i < cb_count b) [0..<MAXOPS]"
      by (intro filter_cong) simp_all
    ultimately show ?thesis using cnt by auto
  qed
  moreover have "distinct ?idx" "distinct ?live"
    using cnt inj_on_cb_idx by (simp_all add: distinct_map)
  ultimately have "mset ?live = mset ?idx" by (blast dest: set_eq_iff_mset_eq_distinct [THEN iffD1, rotated 2])
  then have "mset (map (\<lambda>i. entry b ! i) ?live) = mset (map (\<lambda>i. entry b ! i) ?idx)"
    by (simp only: mset_map)
  then show ?thesis by (simp add: cb_entries_def comp_def)
qed

lemma cb_size_eq:
  assumes "cb_wf b" and "cb_clean b"
  shows "aesd_circular_buffer_size b = Some (of_nat (cb_count b))"
proof -
  have "length (filter (\<lambda>i. buffptr (entry b ! i) \<noteq> NULL) [0..<MAXOPS]) = cb_count b"
    using arg_cong [OF cb_slots_mset [OF assms], of size]
    by (simp only: size_mset length_map length_cb_entries)
  then show ?thesis using assms(1)
    by (simp add: aesd_circular_buffer_size_def size_loop_eq atLeast0LessThan)
qed

lemma sum_list_unat: "of_nat (sum_list (map (\<lambda>e. unat (f e)) xs)) = (sum_list (map f xs) :: 64 word)"
  by (induction xs) simp_all

lemma cb_total_size_eq:
  assumes "cb_wf b" and "cb_clean b"
  shows "aesd_circular_buffer_total_size b = Some (of_nat (sum_list (cb_sizes b)))"
proof -
  let ?live = "filter (\<lambda>i. buffptr (entry b ! i) \<noteq> NULL) [0..<MAXOPS]"
  have "sum_mset (image_mset esize (mset (map (\<lambda>i. entry b ! i) ?live)))
      = sum_mset (image_mset esize (mset (cb_entries b)))"
    by (simp only: cb_slots_mset [OF assms])
  then have "sum_list (map esize (map (\<lambda>i. entry b ! i) ?live)) = sum_list (map esize (cb_entries b))"
    by (simp only: mset_map [symmetric] sum_mset_sum_list)
  then have "sum_list (map (\<lambda>i. esize (entry b ! i)) ?live) = of_nat (sum_list (cb_sizes b))"
    by (simp add: comp_def sum_list_unat)
  then show ?thesis using assms(1)
    by (simp add: aesd_circular_buffer_total_size_def total_size_loop_eq atLeast0LessThan)
qed

section \<open>Clean rings\<close>

lemma cb_init_clean: "cb_clean aesd_circular_buffer_init"
  unfolding cb_clean_def cb_init_entries by (simp add: aesd_circular_buffer_init_def)

lemma cb_added_clean:
  assumes wf: "cb_wf b" and clean: "cb_clean b" and e: "buffptr e \<noteq> NULL"
  shows "cb_clean (cb_added b e)"
  unfolding cb_clean_def
proof (intro conjI)
  show "\<forall>x \<in> set (cb_entries (cb_added b e)). buffptr x \<noteq> NULL"
    using set_push_subset [of MAXOPS "cb_entries b" e] clean e
    by (auto simp: cb_added_entries [OF wf] cb_clean_def)
  show "\<forall>i. cb_count (cb_added b e) \<le> i \<longrightarrow> i < MAXOPS \<longrightarrow> entry (cb_added b e) ! i = zero_entry"
  proof (cases "full b")
    case True
    then show ?thesis by (simp add: cb_count_def cb_added_def)
  next
    case False
    then have "cb_count (cb_added b e) = Suc (unat (in_offs b))" "cb_count b = unat (in_offs b)"
      using wf by (auto simp: cb_count_def cb_added_def cb_wf_def)
    with clean show ?thesis by (simp add: cb_clean_def cb_added_def)
  qed
qed

section \<open>The interface to the driver\<close>

text \<open>
  What a client of the ring relies on: a log of bounded capacity whose content, as
  a list, changes by \<open>push\<close>. From these laws alone a run of additions leaves the
  newest \<open>cap\<close> elements of everything that was ever added, in order.
\<close>

locale bounded_log =
  fixes cap :: nat
    and start :: 'b
    and add :: "'b \<Rightarrow> 'a \<Rightarrow> 'b"
    and items :: "'b \<Rightarrow> 'a list"
    and invar :: "'b \<Rightarrow> bool"
  assumes cap_pos: "0 < cap"
    and invar_start: "invar start"
    and items_start: "items start = []"
    and invar_add: "invar b \<Longrightarrow> invar (add b x)"
    and items_add: "invar b \<Longrightarrow> items (add b x) = push cap (items b) x"
    and items_bound: "invar b \<Longrightarrow> length (items b) \<le> cap"
begin

lemma invar_run: "invar b \<Longrightarrow> invar (foldl add b xs)"
  by (induction xs arbitrary: b) (simp_all add: invar_add)

lemma items_run:
  assumes "invar b"
  shows "items (foldl add b xs) = newest cap (items b @ xs)"
proof -
  have "items (foldl add b xs) = foldl (push cap) (items b) xs"
    using assms by (induction xs arbitrary: b) (simp_all add: invar_add items_add)
  then show ?thesis using foldl_push [OF cap_pos items_bound [OF assms]] by simp
qed

lemma items_from_start: "items (foldl add start xs) = newest cap xs"
  using items_run [OF invar_start, of xs] by (simp add: items_start)

end

text \<open>The ring as such a log; the state after an addition is the first component.\<close>

definition add_entry_state :: "aesd_circular_buffer \<Rightarrow> aesd_buffer_entry \<Rightarrow> aesd_circular_buffer" where
  "add_entry_state b e = fst (the (aesd_circular_buffer_add_entry b e))"

lemma add_entry_state_wf: "cb_wf b \<Longrightarrow> add_entry_state b e = cb_added b e"
  by (simp add: add_entry_state_def add_entry_eq)

interpretation ring: bounded_log MAXOPS aesd_circular_buffer_init add_entry_state cb_entries cb_wf
  by unfold_locales
    (simp_all add: cb_init_wf add_entry_state_wf cb_added_wf cb_added_entries cb_count_le)

end
