(* ===== verification/Ring_Claims.thy ===== *)
theory Ring_Claims
  imports Circular_Buffer
begin

text \<open>
  The properties of the circular buffer for any client, with a small ring of one
  entry and a full ring as concrete inputs of the witnesses.
\<close>

text \<open>Adding entries one after the other, as a client does; \<open>None\<close> if an access is out of bounds.\<close>

fun add_all :: "aesd_circular_buffer \<Rightarrow> aesd_buffer_entry list \<Rightarrow> aesd_circular_buffer option" where
  "add_all b [] = Some b"
| "add_all b (e # es) =
     do {
       (b', old) \<leftarrow> aesd_circular_buffer_add_entry b e;
       add_all b' es
     }"

lemma add_all_foldl: "cb_wf b \<Longrightarrow> add_all b es = Some (foldl add_entry_state b es)"
  by (induction es arbitrary: b) (simp_all add: add_entry_eq add_entry_state_wf cb_added_wf)

definition entry_a :: aesd_buffer_entry where
  "entry_a = \<lparr>buffptr = 1, esize = 4\<rparr>"

definition entry_b :: aesd_buffer_entry where
  "entry_b = \<lparr>buffptr = 2, esize = 3\<rparr>"

definition full_ring :: aesd_circular_buffer where
  "full_ring = \<lparr>entry = entry_b # replicate 9 entry_a, in_offs = 1, out_offs = 1, full = True\<rparr>"

definition small_ring :: aesd_circular_buffer where
  "small_ring = \<lparr>entry = entry_a # entry_b # replicate 8 zero_entry, in_offs = 2, out_offs = 0, full = False\<rparr>"

lemma full_ring_wf: "cb_wf full_ring"
  by (simp add: cb_wf_def full_ring_def maxops)

lemma full_ring_entries: "cb_entries full_ring = replicate 9 entry_a @ [entry_b]"
  by code_simp

lemma small_ring_wf: "cb_wf small_ring"
  by (simp add: cb_wf_def small_ring_def maxops)

lemma small_ring_entries: "cb_entries small_ring = [entry_a, entry_b]"
  by (simp add: small_ring_def maxops cb_entries_def cb_count_def cb_idx_def upt_rec)

lemma small_ring_clean: "cb_clean small_ring"
  unfolding cb_clean_def small_ring_entries
  by (auto simp: small_ring_def entry_a_def entry_b_def cb_count_def maxops nth_Cons' nth_replicate)

text \<open>
  Adding an entry is a push onto a bounded list: in a well-formed ring
  \<open>add_entry\<close> accesses only the array, keeps the ring well-formed, appends the entry as the
  newest one, and when ten entries are held drops the oldest one, whose buffer pointer it
  returns for the caller to free; otherwise it returns \<open>NULL\<close>.
\<close>

theorem add_entry_push:
  assumes "cb_wf b"
  shows "\<exists>b'. aesd_circular_buffer_add_entry b e =
      Some (b', if length (cb_entries b) = MAXOPS then buffptr (hd (cb_entries b)) else NULL) \<and>
    cb_wf b' \<and> cb_entries b' = push MAXOPS (cb_entries b) e"
proof -
  have "cb_dropped b = (if length (cb_entries b) = MAXOPS then buffptr (hd (cb_entries b)) else NULL)"
    using assms by (auto simp: cb_dropped_def cb_count_def cb_wf_def)
  then show ?thesis using add_entry_eq [OF assms] cb_added_wf [OF assms] cb_added_entries [OF assms] by auto
qed

theorem add_entry_push_witness:
  "\<exists>b'. aesd_circular_buffer_add_entry full_ring entry_b = Some (b', 1) \<and>
     cb_wf b' \<and> cb_entries b' = replicate 8 entry_a @ [entry_b, entry_b]"
  using add_entry_push [OF full_ring_wf, of entry_b] unfolding full_ring_entries
  by (simp add: push_def maxops entry_a_def)

text \<open>
  (C18) The newest ten: whatever entries are added to a freshly initialised ring, every
  addition succeeds and the ring then holds exactly the newest ten of them, oldest first.
\<close>

theorem ring_keeps_newest:
  "\<exists>b. add_all aesd_circular_buffer_init es = Some b \<and> cb_wf b \<and> cb_entries b = newest MAXOPS es"
  using ring.items_from_start [of es] ring.invar_run [OF ring.invar_start, of es]
    add_all_foldl [OF cb_init_wf, of es] by auto

text \<open>
  (C22) Search: the lookup of a byte position finds the entry that holds it. It returns
  \<open>NULL\<close> exactly when the position is not below the total number of bytes; otherwise the
  slot of the \<open>k\<close>-th oldest entry and the offset in it, such that the sizes of the entries
  before it plus the offset are the position.
\<close>

theorem find_entry_correct:
  assumes "cb_wf b" and "sum_list (cb_sizes b) < 2 ^ 64"
  shows "if sum_list (cb_sizes b) \<le> unat pos
    then aesd_circular_buffer_find_entry_offset_for_fpos b pos = Some None
    else \<exists>k r. aesd_circular_buffer_find_entry_offset_for_fpos b pos = Some (Some (cb_idx b k, r)) \<and>
      k < length (cb_entries b) \<and> unat r < unat (esize (cb_entries b ! k)) \<and>
      entry b ! cb_idx b k = cb_entries b ! k \<and>
      sum_list (take k (cb_sizes b)) + unat r = unat pos"
proof (cases "locate (cb_sizes b) (unat pos)")
  case None
  then show ?thesis using find_correct [OF assms, of pos] by (simp add: locate_eq_None)
next
  case (Some kr)
  then obtain k r where kr: "locate (cb_sizes b) (unat pos) = Some (k, r)" by (cases kr) simp
  then have k: "k < cb_count b" "r < unat (esize (cb_entries b ! k))"
      "unat pos = sum_list (take k (cb_sizes b)) + r"
    by (auto simp: locate_Some_iff)
  then have "unat (of_nat r :: size_t) = r"
    using unat_less_pow [of "esize (cb_entries b ! k)"] by (simp add: unat_of_nat64)
  moreover have "\<not> sum_list (cb_sizes b) \<le> unat pos" using kr locate_eq_None [of "cb_sizes b" "unat pos"] by simp
  ultimately show ?thesis
    using find_correct [OF assms, of pos] kr k by (auto intro!: exI [of _ k] exI [of _ "of_nat r :: size_t"])
qed

theorem find_entry_correct_witness:
  "aesd_circular_buffer_find_entry_offset_for_fpos small_ring 7 = Some None \<and>
   (\<exists>k r. aesd_circular_buffer_find_entry_offset_for_fpos small_ring 5 = Some (Some (cb_idx small_ring k, r)) \<and>
      sum_list (take k [4, 3]) + unat r = 5)"
  using find_entry_correct [OF small_ring_wf, of 7] find_entry_correct [OF small_ring_wf, of 5]
  unfolding small_ring_entries by (simp add: entry_a_def entry_b_def) blast

text \<open>
  Counting: in a well-formed ring whose live entries have buffers and whose unused
  slots are zero, \<open>size\<close> is the number of entries held and \<open>total_size\<close> the sum of their
  sizes, modulo the width of \<open>size_t\<close>.
\<close>

theorem ring_sizes_correct:
  assumes "cb_wf b" and "cb_clean b"
  shows "aesd_circular_buffer_size b = Some (of_nat (length (cb_entries b))) \<and>
    aesd_circular_buffer_total_size b = Some (of_nat (sum_list (cb_sizes b)))"
  using cb_size_eq [OF assms] cb_total_size_eq [OF assms] by simp

theorem ring_sizes_correct_witness:
  "aesd_circular_buffer_size small_ring = Some 2 \<and> aesd_circular_buffer_total_size small_ring = Some 7"
  using ring_sizes_correct [OF small_ring_wf small_ring_clean] unfolding small_ring_entries
  by (simp add: entry_a_def entry_b_def)

end
