(* ===== verification/Kernel_Api.thy ===== *)
theory Kernel_Api
  imports Circular_Buffer
begin

text \<open>
  The kernel as the driver of \<open>src/aesd-char-driver/main.c\<close> sees it. The kernel's
  functions are not part of the repository: they are the fields of a record that
  every handler takes as an argument, and what the driver relies on is stated as
  named predicates on that record (\<open>kmalloc_ok\<close>, \<open>krealloc_ok\<close>, \<open>kfree_ok\<close>,
  \<open>copy_from_user_ok\<close>, \<open>llseek_ok\<close>, \<open>chrdev_ok\<close>).
  \<open>ref_kernel\<close> is one kernel that satisfies all of them, so they are consistent.

  The data the driver and the kernel exchange is also here: the ioctl argument of
  \<open>src/aesd-char-driver/aesd_ioctl.h\<close>, the fields of \<open>struct file\<close> and of
  \<open>struct cdev\<close> the driver uses, and access to a block of kernel memory, where
  touching memory outside a live block is \<open>None\<close>.
\<close>

section \<open>Data exchanged with the kernel\<close>

record aesd_seekto =
  write_cmd :: u32
  write_cmd_offset :: u32

definition AESD_IOC_MAGIC :: u32 where
  "AESD_IOC_MAGIC = 0x16"

datatype errno = EFAULT | ENOMEM | EINVAL | ENOTTY

datatype whence = SEEK_SET | SEEK_CUR | SEEK_END

text \<open>The module has one device, so a device pointer is that device or \<open>NULL\<close>.\<close>

datatype devref = Aesd_device

record struct_file =
  private_data :: "devref option"
  f_pos :: loff_t

record inode =
  i_cdev :: devref

text \<open>
  The handlers a file operations table can name, and the table's slots. A slot that
  the initialiser does not mention is \<open>None\<close>.
\<close>

datatype handler = Aesd_open | Aesd_release | Aesd_read | Aesd_write | Aesd_llseek
  | Aesd_unlocked_ioctl

record file_operations =
  fop_owner :: bool
  fop_read :: "handler option"
  fop_write :: "handler option"
  fop_open :: "handler option"
  fop_llseek :: "handler option"
  fop_unlocked_ioctl :: "handler option"
  fop_release :: "handler option"

record cdev =
  cdev_owned :: bool
  cdev_ops :: "file_operations option"
  cdev_live :: bool

type_synonym dev_t = u32

section \<open>The kernel's functions\<close>

text \<open>
  \<open>'u\<close> is the memory of the calling process. \<open>copy_to_user\<close> takes the bytes to be
  stored and gives the new user memory and the number of bytes it could not store;
  \<open>copy_from_user\<close> gives the bytes it stored at the destination and the number it
  could not read. \<open>alloc_chrdev_region\<close> and \<open>unregister_chrdev_region\<close> act on the
  set of registered device numbers.
\<close>

record 'u kernel =
  kmalloc :: "heap \<Rightarrow> size_t \<Rightarrow> heap \<times> ptr"
  krealloc :: "heap \<Rightarrow> ptr \<Rightarrow> size_t \<Rightarrow> heap \<times> ptr"
  kfree :: "heap \<Rightarrow> ptr \<Rightarrow> heap"
  copy_to_user :: "'u \<Rightarrow> ptr \<Rightarrow> byte list \<Rightarrow> 'u \<times> size_t"
  copy_from_user :: "'u \<Rightarrow> ptr \<Rightarrow> size_t \<Rightarrow> byte list \<times> size_t"
  copy_seekto_from_user :: "'u \<Rightarrow> ptr \<Rightarrow> aesd_seekto \<times> size_t"
  fixed_size_llseek :: "struct_file \<Rightarrow> loff_t \<Rightarrow> whence \<Rightarrow> loff_t \<Rightarrow> struct_file \<times> (errno + loff_t)"
  IOWR :: "u32 \<Rightarrow> u32 \<Rightarrow> u32 \<Rightarrow> u32"
  MKDEV :: "u32 \<Rightarrow> u32 \<Rightarrow> dev_t"
  MAJOR :: "dev_t \<Rightarrow> u32"
  alloc_chrdev_region :: "dev_t set \<Rightarrow> u32 \<Rightarrow> dev_t set \<times> dev_t \<times> int"
  unregister_chrdev_region :: "dev_t set \<Rightarrow> dev_t \<Rightarrow> dev_t set"
  cdev_init :: "cdev \<Rightarrow> file_operations \<Rightarrow> cdev"
  cdev_add :: "cdev \<Rightarrow> dev_t \<Rightarrow> cdev \<times> int"
  cdev_del :: "cdev \<Rightarrow> cdev"

text \<open>The command number \<open>_IOWR(AESD_IOC_MAGIC, 1, struct aesd_seekto)\<close>; the struct has eight bytes.\<close>

definition AESDCHAR_IOCSEEKTO :: "'u kernel \<Rightarrow> u32" where
  "AESDCHAR_IOCSEEKTO K = IOWR K AESD_IOC_MAGIC 1 8"

section \<open>What the driver relies on\<close>

text \<open>
  \<open>kmalloc\<close> of a size other than 0 fails without effect or gives a fresh block of
  the requested size with arbitrary contents. The largest size it can serve,
  \<open>KMALLOC_MAX_SIZE\<close>, is below 4 GiB on every configuration.
\<close>

definition kmalloc_ok :: "'u kernel \<Rightarrow> bool" where
  "kmalloc_ok K \<longleftrightarrow> (\<forall>h n h' p. n \<noteq> 0 \<longrightarrow> kmalloc K h n = (h', p) \<longrightarrow>
     (if p = NULL then h' = h
      else p \<notin> dom h \<and> unat n \<le> 2 ^ 32 \<and> (\<exists>bs. length bs = unat n \<and> h' = h(p \<mapsto> bs))))"

text \<open>
  Growing a live block with \<open>krealloc\<close> fails without effect, or gives a block, which
  may have moved, whose first bytes are the old contents.
\<close>

definition krealloc_ok :: "'u kernel \<Rightarrow> bool" where
  "krealloc_ok K \<longleftrightarrow> (\<forall>h p old n h' q. h p = Some old \<longrightarrow> length old < unat n \<longrightarrow>
     krealloc K h p n = (h', q) \<longrightarrow>
     (if q = NULL then h' = h
      else (q = p \<or> q \<notin> dom h) \<and> unat n \<le> 2 ^ 32 \<and>
        (\<exists>bs. length bs = unat n \<and> take (length old) bs = old \<and> h' = (h(p := None))(q \<mapsto> bs))))"

definition kfree_ok :: "'u kernel \<Rightarrow> bool" where
  "kfree_ok K \<longleftrightarrow> (\<forall>h p. p \<in> dom h \<longrightarrow> kfree K h p = h(p := None))"

text \<open>\<open>copy_from_user\<close> writes at most \<open>count\<close> bytes, and all of them when it returns 0.\<close>

definition copy_from_user_ok :: "'u kernel \<Rightarrow> bool" where
  "copy_from_user_ok K \<longleftrightarrow> (\<forall>u buf count bs left. copy_from_user K u buf count = (bs, left) \<longrightarrow>
     length bs \<le> unat count \<and> (left = 0 \<longrightarrow> length bs = unat count))"

definition memory_ok :: "'u kernel \<Rightarrow> bool" where
  "memory_ok K \<longleftrightarrow> kmalloc_ok K \<and> krealloc_ok K \<and> kfree_ok K \<and> copy_from_user_ok K"

text \<open>
  \<open>fixed_size_llseek\<close> with end of file at \<open>size\<close>: the target is relative to the start,
  the current position or the end; a target outside \<open>0..size\<close> is \<open>-EINVAL\<close> and leaves
  the file alone. A seek by 0 from the current position only reports the position, without a check:
  it may lie behind the end.
\<close>

definition seek_target :: "struct_file \<Rightarrow> loff_t \<Rightarrow> whence \<Rightarrow> loff_t \<Rightarrow> int" where
  "seek_target f off w eof =
     (case w of SEEK_SET \<Rightarrow> sint off
      | SEEK_CUR \<Rightarrow> sint (f_pos f) + sint off
      | SEEK_END \<Rightarrow> sint eof + sint off)"

definition llseek_ok :: "'u kernel \<Rightarrow> bool" where
  "llseek_ok K \<longleftrightarrow> (\<forall>f off w eof. 0 \<le> sint eof \<longrightarrow> 0 \<le> sint (f_pos f) \<longrightarrow>
     fixed_size_llseek K f off w eof =
       (let t = seek_target f off w eof
        in if w = SEEK_CUR \<and> off = 0 then (f, Inr (f_pos f))
           else if 0 \<le> t \<and> t \<le> sint eof then (f\<lparr>f_pos := word_of_int t\<rparr>, Inr (word_of_int t))
           else (f, Inl EINVAL)))"

text \<open>
  Registration: \<open>alloc_chrdev_region\<close> fails without effect with a negative result or
  registers a new number with the minor asked for; \<open>cdev_init\<close> clears the structure and sets the
  operations; a failing \<open>cdev_add\<close> is not 0.
\<close>

definition chrdev_ok :: "'u kernel \<Rightarrow> bool" where
  "chrdev_ok K \<longleftrightarrow>
     (\<forall>R mi R' d r. alloc_chrdev_region K R mi = (R', d, r) \<longrightarrow>
        (if r < 0 then R' = R else d \<notin> R \<and> R' = insert d R \<and> MKDEV K (MAJOR K d) mi = d)) \<and>
     (\<forall>R d. unregister_chrdev_region K R d = R - {d}) \<and>
     (\<forall>c ops. cdev_init K c ops = \<lparr>cdev_owned = False, cdev_ops = Some ops, cdev_live = False\<rparr>) \<and>
     (\<forall>c d. snd (cdev_add K c d) = 0 \<longrightarrow> fst (cdev_add K c d) = c\<lparr>cdev_live := True\<rparr>) \<and>
     (\<forall>c d. snd (cdev_add K c d) \<noteq> 0 \<longrightarrow> fst (cdev_add K c d) = c) \<and>
     (\<forall>c. cdev_del K c = c\<lparr>cdev_live := False\<rparr>)"

section \<open>Kernel memory\<close>

definition mem_load :: "heap \<Rightarrow> ptr \<Rightarrow> size_t \<Rightarrow> size_t \<Rightarrow> byte list option" where
  "mem_load h p off n =
     (case h p of None \<Rightarrow> None
      | Some bs \<Rightarrow> if unat off + unat n \<le> length bs
                   then Some (take (unat n) (drop (unat off) bs)) else None)"

definition mem_store :: "heap \<Rightarrow> ptr \<Rightarrow> size_t \<Rightarrow> byte list \<Rightarrow> heap option" where
  "mem_store h p off xs =
     (case h p of None \<Rightarrow> None
      | Some bs \<Rightarrow> if unat off + length xs \<le> length bs
                   then Some (h(p \<mapsto> overwrite (unat off) xs bs)) else None)"

text \<open>Calling \<open>kfree\<close> or \<open>krealloc\<close> on a pointer that is not a live block is undefined.\<close>

definition free_block :: "'u kernel \<Rightarrow> heap \<Rightarrow> ptr \<Rightarrow> heap option" where
  "free_block K h p = (if p \<in> dom h then Some (kfree K h p) else None)"

definition realloc_block :: "'u kernel \<Rightarrow> heap \<Rightarrow> ptr \<Rightarrow> size_t \<Rightarrow> (heap \<times> ptr) option" where
  "realloc_block K h p n = (if p \<in> dom h then Some (krealloc K h p n) else None)"

lemma mem_load_Some:
  "h p = Some bs \<Longrightarrow> unat off + unat n \<le> length bs \<Longrightarrow>
     mem_load h p off n = Some (take (unat n) (drop (unat off) bs))"
  by (simp add: mem_load_def)

lemma mem_store_Some:
  "h p = Some bs \<Longrightarrow> unat off + length xs \<le> length bs \<Longrightarrow>
     mem_store h p off xs = Some (h(p \<mapsto> overwrite (unat off) xs bs))"
  by (simp add: mem_store_def)

lemma mem_store_D:
  assumes "mem_store h p off xs = Some h'"
  obtains bs where "h p = Some bs" "unat off + length xs \<le> length bs"
    "h' = h(p \<mapsto> overwrite (unat off) xs bs)"
  using assms by (auto simp: mem_store_def split: option.splits if_splits)

section \<open>A kernel that satisfies the laws\<close>

text \<open>
  Addresses 1 to 63 are handed out in order; a block that grows stays in place. The
  user memory is the bytes last copied out; a copy in delivers zeroes, or newlines
  when the user pointer is 10.
\<close>

definition ref_kmalloc :: "heap \<Rightarrow> size_t \<Rightarrow> heap \<times> ptr" where
  "ref_kmalloc h n =
     (if n > 2 ^ 20 then (h, NULL)
      else case find (\<lambda>p. h p = None) (map of_nat [1..<64]) of
        None \<Rightarrow> (h, NULL)
      | Some p \<Rightarrow> (h(p \<mapsto> replicate (unat n) 0), p))"

definition ref_krealloc :: "heap \<Rightarrow> ptr \<Rightarrow> size_t \<Rightarrow> heap \<times> ptr" where
  "ref_krealloc h p n =
     (if n > 2 ^ 20 \<or> p = NULL then (h, NULL)
      else (case h p of None \<Rightarrow> (h, NULL)
        | Some old \<Rightarrow> ((h(p := None))(p \<mapsto> old @ replicate (unat n - length old) 0), p)))"

definition ref_llseek :: "struct_file \<Rightarrow> loff_t \<Rightarrow> whence \<Rightarrow> loff_t \<Rightarrow> struct_file \<times> (errno + loff_t)" where
  "ref_llseek f off w eof =
     (let t = seek_target f off w eof
      in if w = SEEK_CUR \<and> off = 0 then (f, Inr (f_pos f))
         else if 0 \<le> t \<and> t \<le> sint eof then (f\<lparr>f_pos := word_of_int t\<rparr>, Inr (word_of_int t))
         else (f, Inl EINVAL))"

definition ref_alloc_chrdev :: "dev_t set \<Rightarrow> u32 \<Rightarrow> dev_t set \<times> dev_t \<times> int" where
  "ref_alloc_chrdev R mi =
     (case find (\<lambda>ma. ma \<notin> R) [240, 241, 242] of
        None \<Rightarrow> (R, 0, -16)
      | Some ma \<Rightarrow> (insert ma R, ma, 0))"

definition ref_kernel :: "byte list kernel" where
  "ref_kernel = \<lparr>kmalloc = ref_kmalloc, krealloc = ref_krealloc, kfree = (\<lambda>h p. h(p := None)),
     copy_to_user = (\<lambda>u buf bs. (bs, 0)),
     copy_from_user = (\<lambda>u buf n. (replicate (unat n) (if buf = 10 then 10 else 0), 0)),
     copy_seekto_from_user = (\<lambda>u arg. (\<lparr>write_cmd = ucast arg, write_cmd_offset = 0\<rparr>, 0)),
     fixed_size_llseek = ref_llseek,
     IOWR = (\<lambda>t nr sz. 0xC0000000 + sz * 65536 + t * 256 + nr),
     MKDEV = (\<lambda>ma mi. ma), MAJOR = (\<lambda>d. d),
     alloc_chrdev_region = ref_alloc_chrdev, unregister_chrdev_region = (\<lambda>R d. R - {d}),
     cdev_init = (\<lambda>c ops. \<lparr>cdev_owned = False, cdev_ops = Some ops, cdev_live = False\<rparr>),
     cdev_add = (\<lambda>c d. (c\<lparr>cdev_live := True\<rparr>, 0)),
     cdev_del = (\<lambda>c. c\<lparr>cdev_live := False\<rparr>)\<rparr>"

lemma ref_kernel_sel [simp]:
  "kmalloc ref_kernel = ref_kmalloc" "krealloc ref_kernel = ref_krealloc"
  "kfree ref_kernel = (\<lambda>h p. h(p := None))" "copy_to_user ref_kernel = (\<lambda>u buf bs. (bs, 0))"
  "copy_from_user ref_kernel = (\<lambda>u buf n. (replicate (unat n) (if buf = 10 then 10 else 0), 0))"
  "fixed_size_llseek ref_kernel = ref_llseek"
  "copy_seekto_from_user ref_kernel = (\<lambda>u arg. (\<lparr>write_cmd = ucast arg, write_cmd_offset = 0\<rparr>, 0))"
  "IOWR ref_kernel = (\<lambda>t nr sz. 0xC0000000 + sz * 65536 + t * 256 + nr)"
  by (simp_all add: ref_kernel_def)

lemma unat_le_4G: "\<not> 2 ^ 20 < n \<Longrightarrow> unat (n :: size_t) \<le> 2 ^ 32"
  by (simp add: word_less_nat_alt not_less)

lemma ref_kmalloc_cases:
  assumes "ref_kmalloc h n = (h', p)"
  shows "if p = NULL then h' = h
    else p \<notin> dom h \<and> unat n \<le> 2 ^ 32 \<and> h' = h(p \<mapsto> replicate (unat n) 0)"
proof (cases "n > 2 ^ 20 \<or> find (\<lambda>p. h p = None) (map of_nat [1..<64]) = None")
  case True
  with assms show ?thesis by (auto simp: ref_kmalloc_def split: if_splits)
next
  case False
  then obtain q where small: "\<not> 2 ^ 20 < n"
    and q: "find (\<lambda>p. h p = None) (map of_nat [1..<64]) = Some q" by auto
  have eq: "h' = h(q \<mapsto> replicate (unat n) 0)" "p = q"
    using assms small q by (auto simp only: ref_kmalloc_def if_False option.case prod.inject)
  have "q \<notin> dom h" using q by (auto simp only: find_Some_iff domIff)
  moreover have "q \<noteq> NULL"
  proof -
    from q have "q \<in> set (map of_nat [1..<64])" by (metis find_Some_iff nth_mem)
    then obtain k :: nat where "k \<in> {1..<64}" "q = of_nat k" by (auto simp only: set_map set_upt)
    then show ?thesis by (auto simp: word_of_nat_eq_0_iff dest!: dvd_imp_le)
  qed
  ultimately show ?thesis using eq unat_le_4G [OF small] by simp
qed

lemma ref_kmalloc_ok: "kmalloc_ok ref_kernel"
  unfolding kmalloc_ok_def ref_kernel_sel
  using ref_kmalloc_cases by (metis length_replicate)

lemma ref_krealloc_ok: "krealloc_ok ref_kernel"
proof -
  have "\<exists>bs. length bs = unat n \<and> take (length old) bs = old \<and>
          h(p \<mapsto> old @ replicate (unat n - length old) 0) = h(p \<mapsto> bs)"
    if "length old < unat n" for old n and h :: heap and p
    using that by (intro exI [of _ "old @ replicate (unat n - length old) 0"]) simp
  then show ?thesis using unat_le_4G
    by (auto simp: krealloc_ok_def ref_krealloc_def split: if_splits)
qed

lemma ref_memory_ok: "memory_ok ref_kernel"
  using ref_kmalloc_ok ref_krealloc_ok
  by (simp add: memory_ok_def kfree_ok_def copy_from_user_ok_def)

lemma ref_llseek_ok: "llseek_ok ref_kernel"
  by (simp add: llseek_ok_def ref_llseek_def)

lemma ref_chrdev_ok: "chrdev_ok ref_kernel"
  by (auto simp: chrdev_ok_def ref_kernel_def ref_alloc_chrdev_def find_Some_iff
      split: option.splits if_splits)

end
