(* ===== verification/Aesd_Driver.thy ===== *)
theory Aesd_Driver
  imports Kernel_Api
begin

text \<open>
  The character driver, \<open>src/aesd-char-driver/main.c\<close> with \<open>aesdchar.h\<close>: the device
  state and every handler, from the module's \<open>init\<close> to its \<open>cleanup\<close>.

  A handler is a function of the kernel \<open>K\<close>, the driver state and its C arguments.
  Its result has two layers. The outer \<open>option\<close> is \<open>None\<close> where the C code has
  undefined behaviour (a \<open>NULL\<close> device, memory outside a live block, freeing twice).
  Inside, \<open>Blocks\<close> says that the handler sleeps in \<open>mutex_lock\<close> because the mutex
  is held, and \<open>Done\<close> carries the new state and the value returned; a negative
  error number \<open>-E\<close> is \<open>Inl E\<close>. The mutex is the boolean field \<open>aesd_CB_mutex\<close>, set
  by \<open>lock_dev\<close> and cleared by \<open>unlock_dev\<close> exactly where the code does.
\<close>

section \<open>State\<close>

record temp_buffer =
  tdata :: ptr
  tsize :: size_t
  tcapacity :: size_t

record aesd_dev =
  cdev :: cdev
  aesd_CB_mutex :: bool
  aesd_write_buffer :: aesd_circular_buffer
  temp_buf :: temp_buffer

record drv =
  kheap :: heap
  aesd_device :: aesd_dev
  aesd_major :: u32
  aesd_minor :: u32
  chrdevs :: "dev_t set"

datatype 'a run = Blocks | Done 'a

definition lock_dev :: "drv \<Rightarrow> drv" where
  "lock_dev s = s\<lparr>aesd_device := (aesd_device s)\<lparr>aesd_CB_mutex := True\<rparr>\<rparr>"

definition unlock_dev :: "drv \<Rightarrow> drv" where
  "unlock_dev s = s\<lparr>aesd_device := (aesd_device s)\<lparr>aesd_CB_mutex := False\<rparr>\<rparr>"

definition locked :: "drv \<Rightarrow> bool" where
  "locked s = aesd_CB_mutex (aesd_device s)"

abbreviation ring_of :: "drv \<Rightarrow> aesd_circular_buffer" where
  "ring_of s \<equiv> aesd_write_buffer (aesd_device s)"

abbreviation temp_of :: "drv \<Rightarrow> temp_buffer" where
  "temp_of s \<equiv> temp_buf (aesd_device s)"

definition set_ring :: "aesd_circular_buffer \<Rightarrow> drv \<Rightarrow> drv" where
  "set_ring b s = s\<lparr>aesd_device := (aesd_device s)\<lparr>aesd_write_buffer := b\<rparr>\<rparr>"

definition set_temp :: "temp_buffer \<Rightarrow> drv \<Rightarrow> drv" where
  "set_temp t s = s\<lparr>aesd_device := (aesd_device s)\<lparr>temp_buf := t\<rparr>\<rparr>"

definition set_heap :: "heap \<Rightarrow> drv \<Rightarrow> drv" where
  "set_heap h s = s\<lparr>kheap := h\<rparr>"

section \<open>Open and release\<close>

definition aesd_open :: "inode \<Rightarrow> struct_file \<Rightarrow> struct_file \<times> int" where
  "aesd_open ino filp = (filp\<lparr>private_data := Some (i_cdev ino)\<rparr>, 0)"

definition aesd_release :: "inode \<Rightarrow> struct_file \<Rightarrow> struct_file \<times> int" where
  "aesd_release ino filp = (filp\<lparr>private_data := None\<rparr>, 0)"

section \<open>Read\<close>

definition aesd_read ::
  "'u kernel \<Rightarrow> 'u \<Rightarrow> drv \<Rightarrow> struct_file \<Rightarrow> ptr \<Rightarrow> size_t \<Rightarrow> loff_t \<Rightarrow>
   ('u \<times> drv \<times> loff_t \<times> (errno + size_t)) run option" where
  "aesd_read K u s filp buf cnt pos =
     do {
       dev \<leftarrow> private_data filp;
       if locked s then Some Blocks
       else
         (let s = lock_dev s in
          do {
            start_read_buffer \<leftarrow> aesd_circular_buffer_find_entry_offset_for_fpos (ring_of s) pos;
            case start_read_buffer of
              None \<Rightarrow> Some (Done (u, unlock_dev s, pos, Inr 0))
            | Some (k, read_offset) \<Rightarrow>
                do {
                  e \<leftarrow> get_entry (ring_of s) k;
                  let bytes_available = esize e - read_offset;
                  let bytes_to_copy = min cnt bytes_available;
                  bytes \<leftarrow> mem_load (kheap s) (buffptr e) read_offset bytes_to_copy;
                  case copy_to_user K u buf bytes of
                    (u', left) \<Rightarrow>
                      if left \<noteq> 0 then Some (Done (u', unlock_dev s, pos, Inl EFAULT))
                      else Some (Done (u', unlock_dev s, pos + bytes_to_copy, Inr bytes_to_copy))
                }
          })
     }"

section \<open>Write\<close>

text \<open>Making room in the pending-command buffer; \<open>False\<close> is the \<open>-ENOMEM\<close> exit.\<close>

definition aesd_write_reserve :: "'u kernel \<Rightarrow> drv \<Rightarrow> size_t \<Rightarrow> (drv \<times> bool) option" where
  "aesd_write_reserve K s cnt =
     (let t = temp_of s in
      if tdata t = NULL then
        (case kmalloc K (kheap s) (cnt + 50) of
           (h, p) \<Rightarrow>
             if p = NULL then Some (set_temp (t\<lparr>tdata := p\<rparr>) (set_heap h s), False)
             else Some (set_temp \<lparr>tdata = p, tsize = 0, tcapacity = cnt + 50\<rparr> (set_heap h s), True))
      else if tcapacity t < tsize t + cnt then
        (let new_capacity = tsize t + cnt + 50 in
         do {
           (h, new_data) \<leftarrow> realloc_block K (kheap s) (tdata t) new_capacity;
           if new_data = NULL then Some (set_heap h s, False)
           else Some (set_temp (t\<lparr>tdata := new_data, tcapacity := new_capacity\<rparr>) (set_heap h s), True)
         })
      else Some (s, True))"

text \<open>\<open>memchr(data, '\n', size)\<close> as a truth value: reading past the block is undefined.\<close>

definition has_newline :: "heap \<Rightarrow> ptr \<Rightarrow> size_t \<Rightarrow> bool option" where
  "has_newline h p n = map_option (\<lambda>bytes. newline \<in> set bytes) (mem_load h p 0 n)"

text \<open>Moving a complete command into the ring; \<open>False\<close> is the \<open>-ENOMEM\<close> exit.\<close>

definition aesd_write_commit :: "'u kernel \<Rightarrow> drv \<Rightarrow> (drv \<times> bool) option" where
  "aesd_write_commit K s =
     (let t = temp_of s in
      do {
        found \<leftarrow> has_newline (kheap s) (tdata t) (tsize t);
        if found then
          (case kmalloc K (kheap s) (tsize t) of
             (h, command_data) \<Rightarrow>
               if command_data = NULL then Some (set_heap h s, False)
               else
                 do {
                   bytes \<leftarrow> mem_load h (tdata t) 0 (tsize t);
                   h \<leftarrow> mem_store h command_data 0 bytes;
                   (b, old_entry) \<leftarrow> aesd_circular_buffer_add_entry (ring_of s)
                                       \<lparr>buffptr = command_data, esize = tsize t\<rparr>;
                   h \<leftarrow> (if old_entry \<noteq> NULL then free_block K h old_entry else Some h);
                   Some (set_temp (t\<lparr>tsize := 0\<rparr>) (set_ring b (set_heap h s)), True)
                 })
        else Some (s, True)
      })"

definition aesd_write ::
  "'u kernel \<Rightarrow> 'u \<Rightarrow> drv \<Rightarrow> struct_file \<Rightarrow> ptr \<Rightarrow> size_t \<Rightarrow> loff_t \<Rightarrow>
   (drv \<times> loff_t \<times> (errno + size_t)) run option" where
  "aesd_write K u s filp buf cnt pos =
     do {
       dev \<leftarrow> private_data filp;
       if locked s then Some Blocks
       else
         do {
           (s, ok) \<leftarrow> aesd_write_reserve K (lock_dev s) cnt;
           if \<not> ok then Some (Done (unlock_dev s, pos, Inl ENOMEM))
           else
             (case copy_from_user K u buf cnt of
                (bs, left) \<Rightarrow>
                  do {
                    h \<leftarrow> mem_store (kheap s) (tdata (temp_of s)) (tsize (temp_of s)) bs;
                    let s = set_heap h s;
                    if left \<noteq> 0 then
                      Some (Done (unlock_dev (set_temp ((temp_of s)\<lparr>tsize := 0\<rparr>) s), pos, Inl EFAULT))
                    else
                      do {
                        (s, ok) \<leftarrow> aesd_write_commit K
                          (set_temp ((temp_of s)\<lparr>tsize := tsize (temp_of s) + cnt\<rparr>) s);
                        if \<not> ok then Some (Done (unlock_dev s, pos, Inl ENOMEM))
                        else Some (Done (unlock_dev s, pos + cnt, Inr cnt))
                      }
                  })
         }
     }"

section \<open>Seek and ioctl\<close>

definition aesd_llseek ::
  "'u kernel \<Rightarrow> drv \<Rightarrow> struct_file \<Rightarrow> loff_t \<Rightarrow> whence \<Rightarrow>
   (drv \<times> struct_file \<times> (errno + loff_t)) run option" where
  "aesd_llseek K s filp off w =
     do {
       dev \<leftarrow> private_data filp;
       if locked s then Some Blocks
       else
         do {
           total_size \<leftarrow> aesd_circular_buffer_total_size (ring_of (lock_dev s));
           let s = unlock_dev (lock_dev s);
           case fixed_size_llseek K filp off w total_size of
             (filp', r) \<Rightarrow> Some (Done (s, filp', r))
         }
     }"

text \<open>The loop that adds up the sizes of the commands before the one sought.\<close>

fun seek_loop :: "aesd_circular_buffer \<Rightarrow> nat list \<Rightarrow> loff_t \<Rightarrow> loff_t option" where
  "seek_loop b [] new_f_pos = Some new_f_pos"
| "seek_loop b (i # is) new_f_pos =
     do {
       e \<leftarrow> get_entry b ((unat (out_offs b) + i) mod MAXOPS);
       seek_loop b is (new_f_pos + esize e)
     }"

text \<open>
  The two \<open>-EINVAL\<close> exits return with the mutex still held, as the code does. The
  array index is computed in \<open>unsigned int\<close>, so the sum wraps at 32 bits.
\<close>

definition aesd_unlocked_ioctl ::
  "'u kernel \<Rightarrow> 'u \<Rightarrow> drv \<Rightarrow> struct_file \<Rightarrow> u32 \<Rightarrow> ptr \<Rightarrow>
   (drv \<times> struct_file \<times> (errno + size_t)) run option" where
  "aesd_unlocked_ioctl K u s filp cmd arg =
     (if cmd = AESDCHAR_IOCSEEKTO K then
        (case copy_seekto_from_user K u arg of
           (seekto, left) \<Rightarrow>
             if left \<noteq> 0 then Some (Done (s, filp, Inl EFAULT))
             else
               do {
                 dev \<leftarrow> private_data filp;
                 if locked s then Some Blocks
                 else
                   (let s = lock_dev s; b = ring_of s in
                    do {
                      n \<leftarrow> aesd_circular_buffer_size b;
                      if n \<le> ucast (write_cmd seekto) then Some (Done (s, filp, Inl EINVAL))
                      else
                        do {
                          let actual_index = unat (ucast (out_offs b) + write_cmd seekto) mod MAXOPS;
                          e \<leftarrow> get_entry b actual_index;
                          if esize e \<le> ucast (write_cmd_offset seekto)
                          then Some (Done (s, filp, Inl EINVAL))
                          else
                            do {
                              new_f_pos \<leftarrow> seek_loop b [0..<unat (write_cmd seekto)] 0;
                              let s = unlock_dev s;
                              let new_f_pos = new_f_pos + ucast (write_cmd_offset seekto);
                              Some (Done (s, filp\<lparr>f_pos := new_f_pos\<rparr>, Inr 0))
                            }
                        }
                    })
               })
      else Some (Done (s, filp, Inl ENOTTY)))"

section \<open>Module load and unload\<close>

definition aesd_fops :: file_operations where
  "aesd_fops = \<lparr>fop_owner = True, fop_read = Some Aesd_read, fop_write = Some Aesd_write, fop_open = Some Aesd_open,
     fop_llseek = Some Aesd_llseek, fop_unlocked_ioctl = Some Aesd_unlocked_ioctl,
     fop_release = Some Aesd_release\<rparr>"

definition aesd_setup_cdev :: "'u kernel \<Rightarrow> drv \<Rightarrow> drv \<times> int" where
  "aesd_setup_cdev K s =
     (let devno = MKDEV K (aesd_major s) (aesd_minor s);
          c = (cdev_init K (cdev (aesd_device s)) aesd_fops)\<lparr>cdev_owned := True, cdev_ops := Some aesd_fops\<rparr>
      in case cdev_add K c devno of
           (c', err) \<Rightarrow> (s\<lparr>aesd_device := (aesd_device s)\<lparr>cdev := c'\<rparr>\<rparr>, err))"

text \<open>The device after \<open>memset\<close>, \<open>mutex_init\<close> and the initialisation of the buffers.\<close>

definition fresh_device :: aesd_dev where
  "fresh_device = \<lparr>cdev = \<lparr>cdev_owned = False, cdev_ops = None, cdev_live = False\<rparr>,
     aesd_CB_mutex = False, aesd_write_buffer = aesd_circular_buffer_init,
     temp_buf = \<lparr>tdata = NULL, tsize = 0, tcapacity = 0\<rparr>\<rparr>"

definition aesd_init_module :: "'u kernel \<Rightarrow> drv \<Rightarrow> drv \<times> int" where
  "aesd_init_module K s =
     (case alloc_chrdev_region K (chrdevs s) (aesd_minor s) of
        (R, dev, result) \<Rightarrow>
          (let s = s\<lparr>chrdevs := R, aesd_major := MAJOR K dev\<rparr> in
           if result < 0 then (s, result)
           else
             (case aesd_setup_cdev K (s\<lparr>aesd_device := fresh_device\<rparr>) of
                (s, result) \<Rightarrow>
                  if result \<noteq> 0
                  then (s\<lparr>chrdevs := unregister_chrdev_region K (chrdevs s) dev\<rparr>, result)
                  else (s, result))))"

definition cleanup_body ::
  "'u kernel \<Rightarrow> aesd_buffer_entry \<Rightarrow> heap \<Rightarrow> (aesd_buffer_entry \<times> heap) option" where
  "cleanup_body K e h =
     (if buffptr e \<noteq> NULL then
        do {
          h' \<leftarrow> free_block K h (buffptr e);
          Some (e\<lparr>buffptr := NULL, esize := 0\<rparr>, h')
        }
      else Some (e, h))"

definition aesd_cleanup_module :: "'u kernel \<Rightarrow> drv \<Rightarrow> drv option" where
  "aesd_cleanup_module K s =
     (let devno = MKDEV K (aesd_major s) (aesd_minor s);
          s = s\<lparr>aesd_device := (aesd_device s)\<lparr>cdev := cdev_del K (cdev (aesd_device s))\<rparr>\<rparr>
      in do {
           s \<leftarrow> (if tdata (temp_of s) \<noteq> NULL then
                   do {
                     h \<leftarrow> free_block K (kheap s) (tdata (temp_of s));
                     Some (set_temp \<lparr>tdata = NULL, tsize = 0, tcapacity = 0\<rparr> (set_heap h s))
                   }
                 else Some s);
           (b, h) \<leftarrow> AESD_CIRCULAR_BUFFER_FOREACH (cleanup_body K) (ring_of s) (kheap s);
           let s = set_ring b (set_heap h s);
           Some (s\<lparr>chrdevs := unregister_chrdev_region K (chrdevs s) devno\<rparr>)
         })"

end
