(* ===== verification/Driver_Memory.thy ===== *)
theory Driver_Memory
  imports Aesd_Driver
begin

text \<open>
  The memory invariant of the driver and how its three changes of memory keep it:
  moving or rewriting the pending-command block, and committing a command to the
  ring, which frees the block it pushes out.

  \<open>mem_inv F h b t\<close> says that the heap \<open>h\<close> consists of the blocks the driver owns
  (one per live ring entry, plus the pending block) and of the foreign part \<open>F\<close>. A
  handler that keeps \<open>mem_inv F\<close> for the same \<open>F\<close> neither leaks a block nor touches
  memory it does not own. \<open>cmds\<close> and \<open>pend\<close> read the abstract contents off the heap.
\<close>

definition entry_ok :: "heap \<Rightarrow> aesd_buffer_entry \<Rightarrow> bool" where
  "entry_ok h e \<longleftrightarrow> (\<exists>bs. h (buffptr e) = Some bs \<and> length bs = unat (esize e) \<and> unat (esize e) \<le> 2 ^ 32)"

definition temp_ok :: "heap \<Rightarrow> temp_buffer \<Rightarrow> bool" where
  "temp_ok h t \<longleftrightarrow> tdata t \<noteq> NULL \<longrightarrow>
     (\<exists>bs. h (tdata t) = Some bs \<and> length bs = unat (tcapacity t)) \<and>
     unat (tsize t) \<le> unat (tcapacity t) \<and> unat (tcapacity t) \<le> 2 ^ 32"

abbreviation ring_ptrs :: "aesd_circular_buffer \<Rightarrow> ptr list" where
  "ring_ptrs b \<equiv> map buffptr (cb_entries b)"

definition temp_ptrs :: "temp_buffer \<Rightarrow> ptr set" where
  "temp_ptrs t = (if tdata t = NULL then {} else {tdata t})"

definition mem_inv :: "heap \<Rightarrow> heap \<Rightarrow> aesd_circular_buffer \<Rightarrow> temp_buffer \<Rightarrow> bool" where
  "mem_inv F h b t \<longleftrightarrow> cb_wf b \<and> cb_clean b \<and> distinct (ring_ptrs b) \<and>
     (\<forall>e \<in> set (cb_entries b). entry_ok h e) \<and> temp_ok h t \<and>
     set (ring_ptrs b) \<inter> temp_ptrs t = {} \<and>
     h |` (- (set (ring_ptrs b) \<union> temp_ptrs t)) = F"

definition drv_inv :: "heap \<Rightarrow> drv \<Rightarrow> bool" where
  "drv_inv F s \<longleftrightarrow> mem_inv F (kheap s) (ring_of s) (temp_of s)"

text \<open>The commands held, oldest first, and the bytes of the command not yet complete.\<close>

definition cmds :: "heap \<Rightarrow> aesd_circular_buffer \<Rightarrow> byte list list" where
  "cmds h b = map (\<lambda>e. the (h (buffptr e))) (cb_entries b)"

definition pend :: "heap \<Rightarrow> temp_buffer \<Rightarrow> byte list" where
  "pend h t = (if tdata t = NULL then [] else take (unat (tsize t)) (the (h (tdata t))))"

abbreviation drv_cmds :: "drv \<Rightarrow> byte list list" where
  "drv_cmds s \<equiv> cmds (kheap s) (ring_of s)"

abbreviation drv_pend :: "drv \<Rightarrow> byte list" where
  "drv_pend s \<equiv> pend (kheap s) (temp_of s)"

section \<open>Accessors of the driver state\<close>

lemma drv_sel [simp]:
  "kheap (lock_dev s) = kheap s" "kheap (unlock_dev s) = kheap s"
  "ring_of (lock_dev s) = ring_of s" "ring_of (unlock_dev s) = ring_of s"
  "temp_of (lock_dev s) = temp_of s" "temp_of (unlock_dev s) = temp_of s"
  "kheap (set_heap h s) = h" "ring_of (set_heap h s) = ring_of s" "temp_of (set_heap h s) = temp_of s"
  "kheap (set_ring b s) = kheap s" "ring_of (set_ring b s) = b" "temp_of (set_ring b s) = temp_of s"
  "kheap (set_temp t s) = kheap s" "ring_of (set_temp t s) = ring_of s" "temp_of (set_temp t s) = t"
  by (simp_all add: lock_dev_def unlock_dev_def set_heap_def set_ring_def set_temp_def)

lemma locked_sel [simp]:
  "locked (lock_dev s)" "\<not> locked (unlock_dev s)" "locked (set_heap h s) = locked s"
  "locked (set_ring b s) = locked s" "locked (set_temp t s) = locked s"
  by (simp_all add: locked_def lock_dev_def unlock_dev_def set_heap_def set_ring_def set_temp_def)

lemma unlock_lock_dev [simp]: "\<not> locked s \<Longrightarrow> unlock_dev (lock_dev s) = s"
  by (simp add: lock_dev_def unlock_dev_def locked_def)

lemma set_same [simp]: "set_temp (temp_of s) s = s" "set_heap (kheap s) s = s"
  by (simp_all add: set_temp_def set_heap_def)

lemma set_temp_null [simp]:
  assumes "tdata (temp_of s) = NULL"
  shows "set_temp ((temp_of s)\<lparr>tdata := NULL\<rparr>) s = s"
proof -
  have "(temp_of s)\<lparr>tdata := NULL\<rparr> = temp_of s" using assms by (cases "temp_of s") simp
  then show ?thesis by (simp only: set_same)
qed

lemma drv_inv_cong [simp]:
  "drv_inv F (lock_dev s) = drv_inv F s" "drv_inv F (unlock_dev s) = drv_inv F s"
  by (simp_all add: drv_inv_def)

section \<open>Reading the invariant\<close>

lemma mem_inv_wf: "mem_inv F h b t \<Longrightarrow> cb_wf b" and mem_inv_clean: "mem_inv F h b t \<Longrightarrow> cb_clean b"
  by (simp_all add: mem_inv_def)

lemma mem_inv_entry:
  assumes "mem_inv F h b t" and "i < cb_count b"
  obtains bs where "h (buffptr (cb_entries b ! i)) = Some bs" "cmds h b ! i = bs"
    "length bs = unat (esize (cb_entries b ! i))"
proof -
  have "cb_entries b ! i \<in> set (cb_entries b)" using assms(2) by (intro nth_mem) simp
  with assms(1) obtain bs where "h (buffptr (cb_entries b ! i)) = Some bs"
      "length bs = unat (esize (cb_entries b ! i))"
    unfolding mem_inv_def entry_ok_def by blast
  with assms(2) that show ?thesis by (simp add: cmds_def del: cb_entries_nth)
qed

lemma length_cmds [simp]: "length (cmds h b) = cb_count b"
  by (simp add: cmds_def)

lemma sizes_cmds: "mem_inv F h b t \<Longrightarrow> cb_sizes b = map length (cmds h b)"
  by (auto simp: mem_inv_def cmds_def entry_ok_def)

lemma sizes_bound:
  assumes "mem_inv F h b t"
  shows "sum_list (cb_sizes b) < 2 ^ 62"
proof -
  have "sum_list (cb_sizes b) \<le> sum_list (map (\<lambda>e. 2 ^ 32) (cb_entries b))"
    using assms by (intro sum_list_mono) (auto simp: mem_inv_def entry_ok_def)
  also have "\<dots> \<le> 2 ^ 32 * MAXOPS"
    using cb_count_le [of b] assms by (simp add: sum_list_triv mem_inv_def)
  also have "\<dots> < 2 ^ 62" by (simp add: maxops)
  finally show ?thesis .
qed

lemma mem_inv_temp_block:
  assumes "mem_inv F h b t" and "tdata t \<noteq> NULL"
  obtains bs where "h (tdata t) = Some bs" "length bs = unat (tcapacity t)"
    "unat (tsize t) \<le> unat (tcapacity t)" "unat (tcapacity t) \<le> 2 ^ 32"
    "pend h t = take (unat (tsize t)) bs"
  using assms that by (auto simp: mem_inv_def temp_ok_def pend_def)

section \<open>Replacing the pending block\<close>

lemma entry_ok_cong: "h (buffptr e) = h' (buffptr e) \<Longrightarrow> entry_ok h e = entry_ok h' e"
  by (simp add: entry_ok_def)

lemma mem_inv_ptr_live:
  assumes "mem_inv F h b t" and "p \<in> set (ring_ptrs b)"
  shows "p \<in> dom h" and "p \<notin> temp_ptrs t"
proof -
  from assms show "p \<notin> temp_ptrs t" unfolding mem_inv_def by blast
  from assms(2) obtain e where "e \<in> set (cb_entries b)" "p = buffptr e" by auto
  with assms(1) show "p \<in> dom h" unfolding mem_inv_def entry_ok_def by blast
qed

lemma mem_inv_replace_temp:
  assumes inv: "mem_inv F h b t"
    and q: "q \<noteq> NULL" "q \<in> temp_ptrs t \<or> q \<notin> dom h"
    and len: "length bs = unat cap" "unat sz \<le> unat cap" "unat cap \<le> 2 ^ 32"
    and h': "h' = (h |` (- temp_ptrs t))(q \<mapsto> bs)"
  shows "mem_inv F h' b \<lparr>tdata = q, tsize = sz, tcapacity = cap\<rparr>" and "cmds h' b = cmds h b"
proof -
  have q_ring: "q \<notin> set (ring_ptrs b)"
    using mem_inv_ptr_live [OF inv] q(2) by blast
  have same: "h' (buffptr e) = h (buffptr e)" if "e \<in> set (cb_entries b)" for e
  proof -
    from that have "buffptr e \<in> set (ring_ptrs b)" by simp
    then show ?thesis using mem_inv_ptr_live(2) [OF inv] q_ring h' by (metis ComplI fun_upd_other restrict_in)
  qed
  have F: "F x = (if x \<in> set (ring_ptrs b) \<union> temp_ptrs t then None else h x)" for x
    using inv by (auto simp: mem_inv_def restrict_map_def)
  have "h' |` (- (set (ring_ptrs b) \<union> {q})) = F"
  proof
    fix x
    show "(h' |` (- (set (ring_ptrs b) \<union> {q}))) x = F x"
      using q(2) unfolding F h' by (auto simp: restrict_map_def domIff)
  qed
  with inv q q_ring len same h' show "mem_inv F h' b \<lparr>tdata = q, tsize = sz, tcapacity = cap\<rparr>"
    by (simp add: mem_inv_def temp_ok_def temp_ptrs_def entry_ok_def)
  show "cmds h' b = cmds h b" using same by (simp add: cmds_def)
qed

text \<open>Changing only the fill level of the block.\<close>

lemma mem_inv_set_size:
  assumes "mem_inv F h b t" and "tdata t \<noteq> NULL \<Longrightarrow> unat sz \<le> unat (tcapacity t)"
  shows "mem_inv F h b (t\<lparr>tsize := sz\<rparr>)"
  using assms by (auto simp: mem_inv_def temp_ok_def temp_ptrs_def)

text \<open>Writing into the block in place.\<close>

lemma mem_inv_write_temp:
  assumes inv: "mem_inv F h b t" and t: "tdata t \<noteq> NULL"
    and room: "unat (tsize t) + length xs \<le> unat (tcapacity t)"
  obtains h' where "mem_store h (tdata t) (tsize t) xs = Some h'" "mem_inv F h' b t"
    "cmds h' b = cmds h b"
    "\<And>sz. unat sz = unat (tsize t) + length xs \<Longrightarrow> pend h' (t\<lparr>tsize := sz\<rparr>) = pend h t @ xs"
proof -
  obtain bs where bs: "h (tdata t) = Some bs" "length bs = unat (tcapacity t)"
      "unat (tsize t) \<le> unat (tcapacity t)" "unat (tcapacity t) \<le> 2 ^ 32"
      "pend h t = take (unat (tsize t)) bs"
    using mem_inv_temp_block [OF inv t] by blast
  let ?bs' = "overwrite (unat (tsize t)) xs bs"
  let ?h' = "h(tdata t \<mapsto> ?bs')"
  have st: "mem_store h (tdata t) (tsize t) xs = Some ?h'"
    using bs room by (simp add: mem_store_Some)
  have eq: "?h' = (h |` (- temp_ptrs t))(tdata t \<mapsto> ?bs')"
    using t by (auto simp: temp_ptrs_def restrict_map_def fun_eq_iff)
  have "mem_inv F ?h' b \<lparr>tdata = tdata t, tsize = tsize t, tcapacity = tcapacity t\<rparr>"
    and c: "cmds ?h' b = cmds h b"
    using mem_inv_replace_temp [OF inv t _ _ bs(3,4) eq] bs(2) room t
    by (simp_all add: temp_ptrs_def)
  then have i: "mem_inv F ?h' b t" by (cases t) simp
  have p: "pend ?h' (t\<lparr>tsize := sz\<rparr>) = pend h t @ xs" if "unat sz = unat (tsize t) + length xs" for sz
    using that t bs room by (simp add: pend_def)
  from that [OF st i c p] show ?thesis .
qed

section \<open>Committing a command\<close>

lemma cb_dropped_cases:
  assumes "cb_wf b" and "cb_clean b"
  shows "if full b then cb_dropped b = hd (ring_ptrs b) \<and> cb_dropped b \<noteq> NULL \<and> cb_entries b \<noteq> []
           else cb_dropped b = NULL"
proof (cases "full b")
  case True
  then have ne: "cb_entries b \<noteq> []" by (simp add: cb_count_def flip: length_greater_0_conv)
  then have "hd (cb_entries b) \<in> set (cb_entries b)" by simp
  with assms(2) True ne show ?thesis by (simp add: cb_dropped_def hd_map cb_clean_def)
next
  case False
  then show ?thesis by (simp add: cb_dropped_def)
qed

lemma cb_dropped_mem:
  assumes "cb_wf b" and "cb_clean b" and "cb_dropped b \<noteq> NULL"
  shows "cb_dropped b \<in> set (ring_ptrs b)"
proof -
  from cb_dropped_cases [OF assms(1,2)] assms(3)
  have "cb_dropped b = hd (ring_ptrs b)" "ring_ptrs b \<noteq> []" by (auto split: if_splits)
  then show ?thesis by (metis hd_in_set)
qed

text \<open>The heap after the new block is stored and the block pushed out is freed.\<close>

definition commit_heap :: "heap \<Rightarrow> aesd_circular_buffer \<Rightarrow> ptr \<Rightarrow> byte list \<Rightarrow> heap" where
  "commit_heap h b c bytes =
     (if cb_dropped b = NULL then h(c \<mapsto> bytes) else (h(c \<mapsto> bytes))(cb_dropped b := None))"

lemma commit_heap_live:
  assumes inv: "mem_inv F h b t" and c: "c \<notin> dom h"
    and x: "x \<in> set (cb_entries (cb_added b \<lparr>buffptr = c, esize = sz\<rparr>))"
  shows "commit_heap h b c bytes (buffptr x) = (if buffptr x = c then Some bytes else h (buffptr x))"
proof (cases "full b")
  case True
  have wf: "cb_wf b" and cl: "cb_clean b" and d: "distinct (ring_ptrs b)"
    using inv by (simp_all add: mem_inv_def)
  obtain e es where es: "cb_entries b = e # es"
    using cb_dropped_cases [OF wf cl] True by (cases "cb_entries b") simp_all
  have dr: "cb_dropped b = buffptr e" "cb_dropped b \<noteq> NULL"
    using cb_dropped_cases [OF wf cl] True es by auto
  have "buffptr e \<in> dom h" using mem_inv_ptr_live(1) [OF inv, of "buffptr e"] es by simp
  then have "buffptr e \<noteq> c" using c by auto
  moreover have "x \<in> set es \<or> buffptr x = c"
    using x True wf es by (auto simp: cb_added_entries_full)
  ultimately have "buffptr x \<noteq> buffptr e" using d es by (auto simp: image_iff)
  then show ?thesis using dr by (simp add: commit_heap_def)
next
  case False
  then show ?thesis by (simp add: commit_heap_def cb_dropped_def)
qed

lemma commit_ptrs:
  assumes "cb_wf b" and "cb_clean b"
  shows "ring_ptrs (cb_added b \<lparr>buffptr = c, esize = sz\<rparr>)
           = (if cb_dropped b = NULL then ring_ptrs b @ [c] else tl (ring_ptrs b) @ [c])"
  using assms cb_dropped_cases [OF assms]
  by (cases "full b") (auto simp: cb_added_entries_full cb_added_entries_not_full map_tl)

lemma commit_frame:
  assumes inv: "mem_inv F h b t" and c: "c \<notin> dom h"
  shows "commit_heap h b c bytes |`
           (- (set (ring_ptrs (cb_added b \<lparr>buffptr = c, esize = sz\<rparr>)) \<union> temp_ptrs t)) = F"
proof
  fix x
  have wf: "cb_wf b" and cl: "cb_clean b" using inv by (simp_all add: mem_inv_def)
  have F: "F x = (if x \<in> set (ring_ptrs b) \<union> temp_ptrs t then None else h x)"
    using inv by (auto simp: mem_inv_def restrict_map_def)
  have cF: "F c = None" using inv c by (auto simp: mem_inv_def restrict_map_def domIff)
  have split: "set (ring_ptrs b) = insert (cb_dropped b) (set (tl (ring_ptrs b)))"
    if "cb_dropped b \<noteq> NULL"
    using cb_dropped_cases [OF wf cl] that
    by (cases "cb_entries b") (simp_all split: if_splits)
  have ptrs: "set (ring_ptrs (cb_added b \<lparr>buffptr = c, esize = sz\<rparr>))
      = insert c (if cb_dropped b = NULL then set (ring_ptrs b) else set (tl (ring_ptrs b)))"
    unfolding commit_ptrs [OF wf cl] by simp
  show "(commit_heap h b c bytes |`
           (- (set (ring_ptrs (cb_added b \<lparr>buffptr = c, esize = sz\<rparr>)) \<union> temp_ptrs t))) x = F x"
    unfolding ptrs
    using F cF split by (cases "cb_dropped b = NULL") (auto simp: restrict_map_def commit_heap_def)
qed

lemma mem_inv_commit:
  assumes inv: "mem_inv F h b t" and c: "c \<noteq> NULL" "c \<notin> dom h"
    and len: "length bytes = unat sz" "unat sz \<le> 2 ^ 32"
  shows "mem_inv F (commit_heap h b c bytes) (cb_added b \<lparr>buffptr = c, esize = sz\<rparr>) (t\<lparr>tsize := 0\<rparr>)"
    and "cmds (commit_heap h b c bytes) (cb_added b \<lparr>buffptr = c, esize = sz\<rparr>)
           = push MAXOPS (cmds h b) bytes"
proof -
  let ?e = "\<lparr>buffptr = c, esize = sz\<rparr>"
  let ?h' = "commit_heap h b c bytes" and ?b' = "cb_added b ?e"
  have wf: "cb_wf b" and cl: "cb_clean b" and d: "distinct (ring_ptrs b)"
    using inv by (simp_all add: mem_inv_def)
  have c_ring: "c \<notin> set (ring_ptrs b)" using mem_inv_ptr_live(1) [OF inv] c(2) by blast
  have c_temp: "c \<notin> temp_ptrs t"
    using inv c(2) by (auto simp: mem_inv_def temp_ptrs_def temp_ok_def split: if_splits)
  have sub: "set (ring_ptrs ?b') \<subseteq> insert c (set (ring_ptrs b))"
    using set_push_subset [of MAXOPS "ring_ptrs b" c]
    by (simp only: cb_added_entries [OF wf] map_push) simp
  have live: "?h' (buffptr x) = (if buffptr x = c then Some bytes else h (buffptr x))"
    if "x \<in> set (cb_entries ?b')" for x
    using commit_heap_live [OF inv c(2) that] .
  have old: "x = ?e \<or> (x \<in> set (cb_entries b) \<and> buffptr x \<noteq> c)" if "x \<in> set (cb_entries ?b')" for x
  proof -
    have "x \<in> insert ?e (set (cb_entries b))"
      using that set_push_subset [of MAXOPS "cb_entries b" ?e] by (auto simp: cb_added_entries [OF wf])
    moreover have "buffptr x \<noteq> c" if "x \<in> set (cb_entries b)" using c_ring that by auto
    ultimately show ?thesis by auto
  qed
  have ok: "entry_ok ?h' x" if "x \<in> set (cb_entries ?b')" for x
    using live [OF that] old [OF that] inv len by (auto simp: entry_ok_def mem_inv_def)
  have dist: "distinct (ring_ptrs ?b')"
  proof -
    have "distinct (ring_ptrs b @ [c])" using d c_ring by simp
    moreover have "distinct (tl (ring_ptrs b) @ [c])"
      using d c_ring by (cases "ring_ptrs b") simp_all
    ultimately show ?thesis unfolding commit_ptrs [OF wf cl] by presburger
  qed
  have tdat: "?h' (tdata t) = h (tdata t)" if "tdata t \<noteq> NULL"
  proof -
    have "cb_dropped b \<noteq> tdata t"
    proof (cases "cb_dropped b = NULL")
      case False
      then have "cb_dropped b \<in> set (ring_ptrs b)"
        by (rule cb_dropped_mem [OF wf cl])
      then show ?thesis using mem_inv_ptr_live(2) [OF inv] that by (auto simp: temp_ptrs_def)
    qed (use that in auto)
    then show ?thesis using c_temp that by (auto simp: commit_heap_def temp_ptrs_def)
  qed
  have "temp_ptrs (t\<lparr>tsize := 0\<rparr>) = temp_ptrs t" by (simp add: temp_ptrs_def)
  moreover have "temp_ok ?h' (t\<lparr>tsize := 0\<rparr>)" using inv tdat by (auto simp: mem_inv_def temp_ok_def)
  moreover have "set (ring_ptrs ?b') \<inter> temp_ptrs t = {}"
    using sub inv c_temp unfolding mem_inv_def by blast
  ultimately show "mem_inv F ?h' ?b' (t\<lparr>tsize := 0\<rparr>)"
    unfolding mem_inv_def
    using cb_added_wf [OF wf] cb_added_clean [OF wf cl] c(1) dist ok commit_frame [OF inv c(2)] by simp
  have "cmds ?h' ?b' = map (\<lambda>x. if buffptr x = c then bytes else the (h (buffptr x))) (cb_entries ?b')"
    using live by (simp add: cmds_def)
  also have "\<dots> = push MAXOPS (map (\<lambda>x. if buffptr x = c then bytes else the (h (buffptr x))) (cb_entries b)) bytes"
    by (simp add: cb_added_entries [OF wf] map_push)
  also have "map (\<lambda>x. if buffptr x = c then bytes else the (h (buffptr x))) (cb_entries b) = cmds h b"
    using c_ring by (auto simp: cmds_def)
  finally show "cmds ?h' ?b' = push MAXOPS (cmds h b) bytes" .
qed

end
