(* ===== verification/Driver_Write.thy ===== *)
theory Driver_Write
  imports Driver_Memory
begin

text \<open>
  The write handler: each of its stages (making room, copying in, committing) keeps
  the memory invariant and has a description on the abstract contents; composed,
  they give the outcome of \<open>aesd_write\<close> on every path.
\<close>

section \<open>The kernel laws, unpacked\<close>

lemma kmalloc_cases:
  assumes "memory_ok K" and "n \<noteq> 0" and "kmalloc K h n = (h', p)"
  obtains (fail) "p = NULL" "h' = h"
  | (fresh) bs where "p \<noteq> NULL" "p \<notin> dom h" "unat n \<le> 2 ^ 32" "length bs = unat n" "h' = h(p \<mapsto> bs)"
proof -
  have "if p = NULL then h' = h
        else p \<notin> dom h \<and> unat n \<le> 2 ^ 32 \<and> (\<exists>bs. length bs = unat n \<and> h' = h(p \<mapsto> bs))"
    using assms unfolding memory_ok_def kmalloc_ok_def by blast
  then show ?thesis using that by (auto split: if_splits)
qed

lemma krealloc_cases:
  assumes "memory_ok K" and "h p = Some old" and "length old < unat n" and "krealloc K h p n = (h', q)"
  obtains (fail) "q = NULL" "h' = h"
  | (moved) bs where "q \<noteq> NULL" "q = p \<or> q \<notin> dom h" "unat n \<le> 2 ^ 32" "length bs = unat n"
      "take (length old) bs = old" "h' = (h(p := None))(q \<mapsto> bs)"
proof -
  have "if q = NULL then h' = h
        else (q = p \<or> q \<notin> dom h) \<and> unat n \<le> 2 ^ 32 \<and>
          (\<exists>bs. length bs = unat n \<and> take (length old) bs = old \<and> h' = (h(p := None))(q \<mapsto> bs))"
    using assms unfolding memory_ok_def krealloc_ok_def by blast
  then show ?thesis using that by (auto split: if_splits)
qed

lemma free_block_ok: "memory_ok K \<Longrightarrow> p \<in> dom h \<Longrightarrow> free_block K h p = Some (h(p := None))"
  by (simp add: memory_ok_def kfree_ok_def free_block_def)

section \<open>Making room\<close>

definition roomy :: "temp_buffer \<Rightarrow> size_t \<Rightarrow> bool" where
  "roomy t cnt \<longleftrightarrow> tdata t \<noteq> NULL \<and> unat (tsize t) + unat cnt \<le> unat (tcapacity t)"

lemma reserve_fresh:
  assumes K: "memory_ok K" and inv: "drv_inv F s" and cnt: "unat cnt < 2 ^ 63"
    and null: "tdata (temp_of s) = NULL"
  obtains h t ok where "aesd_write_reserve K s cnt = Some (set_temp t (set_heap h s), ok)"
    "mem_inv F h (ring_of s) t" "cmds h (ring_of s) = drv_cmds s" "pend h t = drv_pend s"
    "ok \<Longrightarrow> roomy t cnt"
proof -
  let ?b = "ring_of s" and ?t = "temp_of s"
  have u: "unat (cnt + 50) = unat cnt + 50" using cnt by (subst unat_add_less) simp_all
  then have nz: "cnt + 50 \<noteq> 0" by (metis add_gr_0 less_irrefl unat_0 zero_less_numeral)
  have mi: "mem_inv F (kheap s) ?b ?t" using inv by (simp add: drv_inv_def)
  obtain h p where km: "kmalloc K (kheap s) (cnt + 50) = (h, p)" by fastforce
  from K nz km show ?thesis
  proof (cases rule: kmalloc_cases)
    case fail
    then show ?thesis using that [of ?t "kheap s" False] km null mi
      by (simp add: aesd_write_reserve_def)
  next
    case (fresh bs)
    let ?t' = "\<lparr>tdata = p, tsize = 0, tcapacity = cnt + 50\<rparr>"
    have h: "h = (kheap s |` (- temp_ptrs ?t))(p \<mapsto> bs)" using fresh null by (auto simp: temp_ptrs_def restrict_map_def fun_eq_iff)
    have "mem_inv F h ?b ?t'" "cmds h ?b = drv_cmds s"
      using mem_inv_replace_temp [OF mi fresh(1) _ fresh(4) _ fresh(3) h, of 0] fresh(2) by simp_all
    moreover have "pend h ?t' = drv_pend s" using null by (simp add: pend_def)
    moreover have "roomy ?t' cnt" using fresh u by (simp add: roomy_def)
    ultimately show ?thesis using that [of ?t' h True] fresh km null
      by (simp add: aesd_write_reserve_def)
  qed
qed

lemma reserve_grow:
  assumes K: "memory_ok K" and inv: "drv_inv F s" and cnt: "unat cnt < 2 ^ 63"
    and null: "tdata (temp_of s) \<noteq> NULL"
    and small: "tcapacity (temp_of s) < tsize (temp_of s) + cnt"
  obtains h t ok where "aesd_write_reserve K s cnt = Some (set_temp t (set_heap h s), ok)"
    "mem_inv F h (ring_of s) t" "cmds h (ring_of s) = drv_cmds s" "pend h t = drv_pend s"
    "ok \<Longrightarrow> roomy t cnt"
proof -
  let ?b = "ring_of s" and ?t = "temp_of s"
  let ?n = "tsize ?t + cnt + 50"
  have mi: "mem_inv F (kheap s) ?b ?t" using inv by (simp add: drv_inv_def)
  obtain old where old: "kheap s (tdata ?t) = Some old" "length old = unat (tcapacity ?t)"
      "unat (tsize ?t) \<le> unat (tcapacity ?t)" "unat (tcapacity ?t) \<le> 2 ^ 32"
      "drv_pend s = take (unat (tsize ?t)) old"
    using mem_inv_temp_block [OF mi null] by blast
  have u1: "unat (tsize ?t + cnt) = unat (tsize ?t) + unat cnt"
    using cnt old by (subst unat_add_less) simp_all
  have u: "unat ?n = unat (tsize ?t) + unat cnt + 50"
    using cnt old u1 by (subst unat_add_less) simp_all
  have grow: "length old < unat ?n" using small old(2) u u1 by (simp add: word_less_nat_alt)
  obtain h q where kr: "krealloc K (kheap s) (tdata ?t) ?n = (h, q)" by fastforce
  then have rb: "realloc_block K (kheap s) (tdata ?t) ?n = Some (h, q)"
    using old(1) by (auto simp: realloc_block_def)
  from K old(1) grow kr show ?thesis
  proof (cases rule: krealloc_cases)
    case fail
    then show ?thesis using that [of ?t "kheap s" False] rb null small mi
      by (simp add: aesd_write_reserve_def)
  next
    case (moved bs)
    let ?t' = "?t\<lparr>tdata := q, tcapacity := ?n\<rparr>"
    have h: "h = (kheap s |` (- temp_ptrs ?t))(q \<mapsto> bs)"
      using moved null by (auto simp: temp_ptrs_def restrict_map_def fun_eq_iff)
    have "unat (tsize ?t) \<le> unat ?n" using u by simp
    moreover have "q \<in> temp_ptrs ?t \<or> q \<notin> dom (kheap s)"
      using moved(2) null by (auto simp: temp_ptrs_def)
    ultimately have "mem_inv F h ?b \<lparr>tdata = q, tsize = tsize ?t, tcapacity = ?n\<rparr>"
        and c: "cmds h ?b = drv_cmds s"
      using mem_inv_replace_temp [OF mi moved(1) _ moved(4) _ moved(3) h] by blast+
    then have m: "mem_inv F h ?b ?t'" by (cases ?t) simp
    have "take (unat (tsize ?t)) bs = take (unat (tsize ?t)) old"
      using arg_cong [OF moved(5), of "take (unat (tsize ?t))"] old(2,3) by (simp add: min_absorb1)
    then have p: "pend h ?t' = drv_pend s" using moved old by (simp add: pend_def)
    have "roomy ?t' cnt" using moved u by (simp add: roomy_def)
    with m c p show ?thesis using that [of ?t' h True] moved(1) rb null small
      by (simp add: aesd_write_reserve_def Let_def)
  qed
qed

lemma reserve_correct:
  assumes K: "memory_ok K" and inv: "drv_inv F s" and cnt: "unat cnt < 2 ^ 63"
  obtains h t ok where "aesd_write_reserve K s cnt = Some (set_temp t (set_heap h s), ok)"
    "mem_inv F h (ring_of s) t" "cmds h (ring_of s) = drv_cmds s" "pend h t = drv_pend s"
    "ok \<Longrightarrow> roomy t cnt"
proof -
  let ?t = "temp_of s"
  consider "tdata ?t = NULL" | "tdata ?t \<noteq> NULL" "tcapacity ?t < tsize ?t + cnt"
    | "tdata ?t \<noteq> NULL" "\<not> tcapacity ?t < tsize ?t + cnt" by blast
  then show ?thesis
  proof cases
    case 1
    from reserve_fresh [OF K inv cnt 1] that show ?thesis by blast
  next
    case 2
    from reserve_grow [OF K inv cnt 2] that show ?thesis by blast
  next
    case 3
    have mi: "mem_inv F (kheap s) (ring_of s) ?t" using inv by (simp add: drv_inv_def)
    have "unat (tsize ?t) \<le> 2 ^ 32"
      by (rule mem_inv_temp_block [OF mi 3(1)]) (rule order_trans)
    then have "unat (tsize ?t + cnt) = unat (tsize ?t) + unat cnt"
      using cnt by (subst unat_add_less) simp_all
    with 3 have "roomy ?t cnt" by (simp add: roomy_def word_less_nat_alt)
    then show ?thesis using that [of ?t "kheap s" True] 3 mi by (simp add: aesd_write_reserve_def)
  qed
qed

section \<open>Committing\<close>

lemma commit_correct:
  assumes K: "memory_ok K" and inv: "drv_inv F s" and t: "tdata (temp_of s) \<noteq> NULL"
  obtains (incomplete) "newline \<notin> set (drv_pend s)" "aesd_write_commit K s = Some (s, True)"
  | (nomem) "newline \<in> set (drv_pend s)" "aesd_write_commit K s = Some (s, False)"
      "snd (kmalloc K (kheap s) (tsize (temp_of s))) = NULL"
  | (stored) s' where "newline \<in> set (drv_pend s)" "aesd_write_commit K s = Some (s', True)"
      "drv_inv F s'" "drv_cmds s' = push MAXOPS (drv_cmds s) (drv_pend s)" "drv_pend s' = []"
      "locked s' = locked s"
      "snd (kmalloc K (kheap s) (tsize (temp_of s))) \<noteq> NULL"
proof -
  let ?b = "ring_of s" and ?t = "temp_of s" and ?h = "kheap s"
  have mi: "mem_inv F ?h ?b ?t" using inv by (simp add: drv_inv_def)
  obtain bs where bs: "?h (tdata ?t) = Some bs" "length bs = unat (tcapacity ?t)"
      "unat (tsize ?t) \<le> unat (tcapacity ?t)" "unat (tcapacity ?t) \<le> 2 ^ 32"
      "drv_pend s = take (unat (tsize ?t)) bs"
    using mem_inv_temp_block [OF mi t] by blast
  have ld: "mem_load ?h (tdata ?t) 0 (tsize ?t) = Some (drv_pend s)"
    using bs by (simp add: mem_load_Some)
  show ?thesis
  proof (cases "newline \<in> set (drv_pend s)")
    case False
    then show ?thesis using incomplete ld by (simp add: aesd_write_commit_def has_newline_def)
  next
    case True
    have nz: "tsize ?t \<noteq> 0"
    proof
      assume "tsize ?t = 0"
      with True bs(5) show False by simp
    qed
    obtain h c where km: "kmalloc K ?h (tsize ?t) = (h, c)" by fastforce
    from K nz km show ?thesis
    proof (cases rule: kmalloc_cases)
      case fail
      then have "aesd_write_commit K s = Some (s, False)"
        using True ld km by (simp add: aesd_write_commit_def has_newline_def set_heap_def)
      then show ?thesis using nomem True km fail by simp
    next
      case (fresh cs)
      let ?e = "\<lparr>buffptr = c, esize = tsize ?t\<rparr>"
      have len: "length (drv_pend s) = unat (tsize ?t)" using bs by simp
      have tc: "tdata ?t \<noteq> c" using fresh(2) bs(1) by auto
      have ld': "mem_load h (tdata ?t) 0 (tsize ?t) = Some (drv_pend s)"
        using ld fresh tc by (simp add: mem_load_def)
      have st: "mem_store h c 0 (drv_pend s) = Some (?h(c \<mapsto> drv_pend s))"
        using fresh len by (simp add: mem_store_def overwrite_def)
      have fr: "(if cb_dropped ?b \<noteq> NULL then free_block K (?h(c \<mapsto> drv_pend s)) (cb_dropped ?b)
                 else Some (?h(c \<mapsto> drv_pend s))) = Some (commit_heap ?h ?b c (drv_pend s))"
      proof (cases "cb_dropped ?b = NULL")
        case False
        with cb_dropped_mem [OF mem_inv_wf mem_inv_clean, OF mi mi]
        have "cb_dropped ?b \<in> dom ?h" using mem_inv_ptr_live(1) [OF mi] by blast
        then show ?thesis using False K by (simp add: free_block_ok commit_heap_def)
      qed (simp add: commit_heap_def)
      let ?s' = "set_temp (?t\<lparr>tsize := 0\<rparr>)
                  (set_ring (cb_added ?b ?e) (set_heap (commit_heap ?h ?b c (drv_pend s)) s))"
      have "aesd_write_commit K s = Some (?s', True)"
        using True ld ld' km fresh(1) st fr add_entry_eq [OF mem_inv_wf [OF mi]]
        by (simp add: aesd_write_commit_def has_newline_def Let_def)
      moreover have "drv_inv F ?s'" "drv_cmds ?s' = push MAXOPS (drv_cmds s) (drv_pend s)"
        using mem_inv_commit [OF mi fresh(1,2) len] fresh(3) by (simp_all add: drv_inv_def)
      moreover have "drv_pend ?s' = []" by (simp add: pend_def)
      ultimately show ?thesis using stored [of ?s'] True km fresh(1) by simp
    qed
  qed
qed

section \<open>The whole handler\<close>

lemma copy_from_user_len:
  assumes "memory_ok K" and "copy_from_user K u buf cnt = (bs, left)"
  shows "length bs \<le> unat cnt" and "left = 0 \<Longrightarrow> length bs = unat cnt"
  using assms unfolding memory_ok_def copy_from_user_ok_def by blast+

lemma aesd_write_cases:
  assumes K: "memory_ok K" and inv: "drv_inv F s" and free: "\<not> locked s"
    and dev: "private_data filp = Some d" and cnt: "unat cnt < 2 ^ 63"
    and cfu: "copy_from_user K u buf cnt = (bs, left)"
  obtains
    (nomem_reserve) s' where "aesd_write K u s filp buf cnt pos = Some (Done (s', pos, Inl ENOMEM))"
      "drv_inv F s'" "\<not> locked s'" "drv_cmds s' = drv_cmds s" "drv_pend s' = drv_pend s"
  | (fault) s' where "aesd_write K u s filp buf cnt pos = Some (Done (s', pos, Inl EFAULT))"
      "drv_inv F s'" "\<not> locked s'" "drv_cmds s' = drv_cmds s" "drv_pend s' = []" "left \<noteq> 0"
  | (nomem_commit) s' where "aesd_write K u s filp buf cnt pos = Some (Done (s', pos, Inl ENOMEM))"
      "drv_inv F s'" "\<not> locked s'" "drv_cmds s' = drv_cmds s" "drv_pend s' = drv_pend s @ bs"
      "left = 0" "newline \<in> set (drv_pend s @ bs)"
  | (pending) s' where "aesd_write K u s filp buf cnt pos = Some (Done (s', pos + cnt, Inr cnt))"
      "drv_inv F s'" "\<not> locked s'" "drv_cmds s' = drv_cmds s" "drv_pend s' = drv_pend s @ bs"
      "left = 0" "newline \<notin> set (drv_pend s @ bs)"
  | (committed) s' where "aesd_write K u s filp buf cnt pos = Some (Done (s', pos + cnt, Inr cnt))"
      "drv_inv F s'" "\<not> locked s'" "drv_cmds s' = push MAXOPS (drv_cmds s) (drv_pend s @ bs)"
      "drv_pend s' = []" "left = 0" "newline \<in> set (drv_pend s @ bs)"
proof -
  let ?b = "ring_of s"
  obtain h t ok where res: "aesd_write_reserve K (lock_dev s) cnt = Some (set_temp t (set_heap h (lock_dev s)), ok)"
      and mi: "mem_inv F h ?b t" and c1: "cmds h ?b = drv_cmds s" and p1: "pend h t = drv_pend s"
      and room: "ok \<Longrightarrow> roomy t cnt"
    using reserve_correct [OF K _ cnt, of F "lock_dev s", unfolded drv_sel drv_inv_cong, OF inv]
    by blast
  let ?s1 = "set_temp t (set_heap h (lock_dev s))"
  show ?thesis
  proof (cases ok)
    case False
    then show ?thesis using nomem_reserve [of "unlock_dev ?s1"] res mi c1 p1 free dev
      by (simp add: aesd_write_def drv_inv_def)
  next
    case True
    with room have t: "tdata t \<noteq> NULL" and r: "unat (tsize t) + unat cnt \<le> unat (tcapacity t)"
      by (simp_all add: roomy_def)
    have r': "unat (tsize t) + length bs \<le> unat (tcapacity t)"
      using r copy_from_user_len(1) [OF K cfu] by simp
    obtain h2 where st: "mem_store h (tdata t) (tsize t) bs = Some h2" and mi2: "mem_inv F h2 ?b t"
        and c2: "cmds h2 ?b = cmds h ?b"
        and p2: "\<And>sz. unat sz = unat (tsize t) + length bs \<Longrightarrow> pend h2 (t\<lparr>tsize := sz\<rparr>) = pend h t @ bs"
      using mem_inv_write_temp [OF mi t r'] by blast
    let ?s2 = "set_heap h2 ?s1"
    show ?thesis
    proof (cases "left = 0")
      case False
      let ?s' = "unlock_dev (set_temp (t\<lparr>tsize := 0\<rparr>) ?s2)"
      have "aesd_write K u s filp buf cnt pos = Some (Done (?s', pos, Inl EFAULT))"
        using False res True st cfu free dev by (simp add: aesd_write_def)
      moreover have "mem_inv F h2 ?b (t\<lparr>tsize := 0\<rparr>)" using mem_inv_set_size [OF mi2, of 0] by simp
      ultimately show ?thesis using fault [of ?s'] False c1 c2
        by (simp add: drv_inv_def pend_def)
    next
      case ok_copy: True
      let ?sz = "tsize t + cnt"
      have len: "length bs = unat cnt" using copy_from_user_len(2) [OF K cfu ok_copy] .
      have cap: "unat (tcapacity t) \<le> 2 ^ 32" by (rule mem_inv_temp_block [OF mi t])
      have sz: "unat ?sz = unat (tsize t) + unat cnt"
        using cap r by (subst unat_add_less) simp_all
      let ?s3 = "set_temp (t\<lparr>tsize := ?sz\<rparr>) ?s2"
      have i3: "drv_inv F ?s3" using mem_inv_set_size [OF mi2, of ?sz] sz r by (simp add: drv_inv_def)
      have p3: "drv_pend ?s3 = drv_pend s @ bs" using p2 [of ?sz] sz len p1 by simp
      have c3: "drv_cmds ?s3 = drv_cmds s" using c1 c2 by simp
      have t3: "tdata (temp_of ?s3) \<noteq> NULL" using t by simp
      have run: "aesd_write K u s filp buf cnt pos =
          do { (s, ok) \<leftarrow> aesd_write_commit K ?s3;
               if \<not> ok then Some (Done (unlock_dev s, pos, Inl ENOMEM))
               else Some (Done (unlock_dev s, pos + cnt, Inr cnt)) }"
        using res True st cfu ok_copy free dev by (simp add: aesd_write_def)
      from K i3 t3 show ?thesis
      proof (cases rule: commit_correct)
        case incomplete
        then show ?thesis using pending [of "unlock_dev ?s3"] run i3 p3 c3 ok_copy
          by (simp add: drv_inv_def)
      next
        case nomem
        then show ?thesis using nomem_commit [of "unlock_dev ?s3"] run i3 p3 c3 ok_copy
          by (simp add: drv_inv_def)
      next
        case (stored s')
        then show ?thesis using committed [of "unlock_dev s'"] run p3 c3 ok_copy by simp
      qed
    qed
  qed
qed

end
