(* ===== verification/Driver_Read.thy ===== *)
theory Driver_Read
  imports Driver_Write
begin

text \<open>
  The handlers that do not change the contents: read, seek and ioctl in closed form
  over the list of commands, and the loading and unloading of the module.
\<close>

section \<open>What a read delivers\<close>

definition read_chunk :: "'a list list \<Rightarrow> nat \<Rightarrow> nat \<Rightarrow> 'a list" where
  "read_chunk cs pos n =
     (case locate (map length cs) pos of None \<Rightarrow> [] | Some (k, r) \<Rightarrow> take n (drop r (cs ! k)))"

lemma read_chunk_prefix: "\<exists>rest. drop pos (concat cs) = read_chunk cs pos n @ rest"
proof (cases "locate (map length cs) pos")
  case None
  then show ?thesis by (simp add: read_chunk_def)
next
  case (Some kr)
  obtain k r where kr: "locate (map length cs) pos = Some (k, r)" using Some by (cases kr) simp
  have "drop pos (concat cs) = take n (drop r (cs ! k)) @ drop n (drop r (cs ! k)) @ concat (drop (Suc k) cs)"
    using locate_concat(1) [OF kr] by (metis append.assoc append_take_drop_id)
  then show ?thesis using kr by (auto simp: read_chunk_def)
qed

lemma read_chunk_empty_iff: "read_chunk cs pos n = [] \<longleftrightarrow> n = 0 \<or> length (concat cs) \<le> pos"
proof (cases "locate (map length cs) pos")
  case None
  then show ?thesis using locate_eq_None [of "map length cs" pos]
    by (simp add: read_chunk_def length_concat)
next
  case (Some kr)
  obtain k r where kr: "locate (map length cs) pos = Some (k, r)" using Some by (cases kr) simp
  have "pos < length (concat cs)"
    using kr locate_eq_None [of "map length cs" pos] by (simp add: length_concat)
  then show ?thesis using kr locate_concat(3) [OF kr] by (simp add: read_chunk_def)
qed

lemma length_read_chunk: "length (read_chunk cs pos n) \<le> n"
  by (simp add: read_chunk_def split: option.split)

lemma take_read_chunk:
  "take (length (read_chunk cs pos n)) (drop pos (concat cs)) = read_chunk cs pos n"
  using read_chunk_prefix [of pos cs n] by auto

lemma length_contents_bound:
  assumes "mem_inv F h b t"
  shows "length (concat (cmds h b)) < 2 ^ 62"
  using sizes_bound [OF assms] by (simp add: length_concat sizes_cmds [OF assms])

definition read_outcome ::
  "'u kernel \<Rightarrow> 'u \<Rightarrow> byte list list \<Rightarrow> ptr \<Rightarrow> size_t \<Rightarrow> loff_t \<Rightarrow> 'u \<times> loff_t \<times> (errno + size_t)" where
  "read_outcome K u cs buf cnt pos =
     (if length (concat cs) \<le> unat pos then (u, pos, Inr 0)
      else let chunk = read_chunk cs (unat pos) (unat cnt)
           in case copy_to_user K u buf chunk of
                (u', left) \<Rightarrow> if left \<noteq> 0 then (u', pos, Inl EFAULT)
                  else (u', pos + of_nat (length chunk), Inr (of_nat (length chunk))))"

lemma aesd_read_eq:
  assumes inv: "drv_inv F s" and free: "\<not> locked s" and dev: "private_data filp = Some d"
  shows "aesd_read K u s filp buf cnt pos =
    Some (Done (case read_outcome K u (drv_cmds s) buf cnt pos of (u', pos', r) \<Rightarrow> (u', s, pos', r)))"
proof -
  let ?b = "ring_of s" and ?cs = "drv_cmds s"
  have mi: "mem_inv F (kheap s) ?b (temp_of s)" using inv by (simp add: drv_inv_def)
  have wf: "cb_wf ?b" using mi by (rule mem_inv_wf)
  have find: "aesd_circular_buffer_find_entry_offset_for_fpos ?b pos =
      Some (map_option (\<lambda>(k, r). (cb_idx ?b k, of_nat r)) (locate (map length ?cs) (unat pos)))"
    using find_correct [OF wf, of pos] sizes_bound [OF mi] sizes_cmds [OF mi] by simp
  show ?thesis
  proof (cases "locate (map length ?cs) (unat pos)")
    case None
    then have "length (concat ?cs) \<le> unat pos" by (simp add: locate_eq_None length_concat)
    then show ?thesis using None find free dev by (simp add: aesd_read_def read_outcome_def)
  next
    case (Some kr)
    then obtain k r where kr: "locate (map length ?cs) (unat pos) = Some (k, r)" by (cases kr) simp
    have k: "k < cb_count ?b" and r: "r < length (?cs ! k)"
      using locate_concat(2,3) [OF kr] by simp_all
    obtain bs where bs: "kheap s (buffptr (cb_entries ?b ! k)) = Some bs" "?cs ! k = bs"
        "length bs = unat (esize (cb_entries ?b ! k))"
      using mem_inv_entry [OF mi k] by blast
    let ?e = "entry ?b ! cb_idx ?b k"
    have e: "cb_entries ?b ! k = ?e" using k by simp
    have ur: "unat (of_nat r :: size_t) = r"
      using r bs unat_less_pow [of "esize ?e"] e by (intro unat_of_nat_less) simp
    have av: "unat (esize ?e - of_nat r) = length bs - r"
      using r bs e ur by (subst unat_sub_le) simp_all
    let ?n = "min cnt (esize ?e - of_nat r)"
    have n: "unat ?n = min (unat cnt) (length bs - r)"
      using av by (simp add: min_def word_le_nat_alt)
    have chunk: "take (unat ?n) (drop r bs) = read_chunk ?cs (unat pos) (unat cnt)"
      using kr bs(2) n by (simp add: read_chunk_def min_def)
    have ld: "mem_load (kheap s) (buffptr ?e) (of_nat r) ?n = Some (read_chunk ?cs (unat pos) (unat cnt))"
      using bs(1) e ur n r bs(2) chunk by (subst mem_load_Some) simp_all
    have lc: "length (read_chunk ?cs (unat pos) (unat cnt)) = unat ?n"
      unfolding chunk [symmetric] using n by simp
    then have nc: "of_nat (length (read_chunk ?cs (unat pos) (unat cnt))) = ?n" by simp
    have "\<not> length (concat ?cs) \<le> unat pos"
      using kr locate_eq_None [of "map length ?cs" "unat pos"] by (simp add: length_concat)
    then show ?thesis
      using kr find free dev wf ld nc
      by (simp add: aesd_read_def read_outcome_def Let_def split: prod.split)
  qed
qed

section \<open>Seeking\<close>

lemma aesd_llseek_eq:
  assumes inv: "drv_inv F s" and free: "\<not> locked s" and dev: "private_data filp = Some d"
  shows "aesd_llseek K s filp off w =
    Some (Done (case fixed_size_llseek K filp off w (of_nat (length (concat (drv_cmds s)))) of
                  (filp', r) \<Rightarrow> (s, filp', r)))"
proof -
  have mi: "mem_inv F (kheap s) (ring_of s) (temp_of s)" using inv by (simp add: drv_inv_def)
  have "aesd_circular_buffer_total_size (ring_of s) = Some (of_nat (length (concat (drv_cmds s))))"
    using cb_total_size_eq [OF mem_inv_wf [OF mi] mem_inv_clean [OF mi]] sizes_cmds [OF mi]
    by (simp add: length_concat)
  then show ?thesis using free dev by (simp add: aesd_llseek_def split: prod.split)
qed

lemma seek_loop_eq:
  assumes "cb_wf b"
  shows "seek_loop b is acc = Some (acc + sum_list (map (\<lambda>i. esize (entry b ! cb_idx b i)) is))"
  by (induction "is" arbitrary: acc) (simp_all add: assms get_entry_def add.assoc flip: cb_idx_def)

lemma seek_loop_prefix:
  assumes "cb_wf b" and "n \<le> cb_count b"
  shows "seek_loop b [0..<n] 0 = Some (of_nat (sum_list (take n (cb_sizes b))))"
proof -
  have "map (\<lambda>i. esize (entry b ! cb_idx b i)) [0..<n] = map esize (take n (cb_entries b))"
    using assms(2) by (simp add: cb_entries_def take_map comp_def)
  then show ?thesis using seek_loop_eq [OF assms(1), of "[0..<n]" 0]
    by (simp add: take_map sum_list_unat)
qed

definition seek_valid :: "'a list list \<Rightarrow> aesd_seekto \<Rightarrow> bool" where
  "seek_valid cs sk \<longleftrightarrow> unat (write_cmd sk) < length cs \<and>
     unat (write_cmd_offset sk) < length (cs ! unat (write_cmd sk))"

definition seek_pos :: "'a list list \<Rightarrow> aesd_seekto \<Rightarrow> nat" where
  "seek_pos cs sk = length (concat (take (unat (write_cmd sk)) cs)) + unat (write_cmd_offset sk)"

lemma aesd_ioctl_eq:
  assumes inv: "drv_inv F s" and free: "\<not> locked s" and dev: "private_data filp = Some d"
    and cmd: "cmd = AESDCHAR_IOCSEEKTO K" and sk: "copy_seekto_from_user K u arg = (sk, 0)"
  shows "aesd_unlocked_ioctl K u s filp cmd arg =
    Some (Done (if seek_valid (drv_cmds s) sk
                then (s, filp\<lparr>f_pos := of_nat (seek_pos (drv_cmds s) sk)\<rparr>, Inr 0)
                else (lock_dev s, filp, Inl EINVAL)))"
proof -
  let ?b = "ring_of s" and ?cs = "drv_cmds s" and ?n = "unat (write_cmd sk)"
  have mi: "mem_inv F (kheap s) ?b (temp_of s)" using inv by (simp add: drv_inv_def)
  have wf: "cb_wf ?b" using mi by (rule mem_inv_wf)
  have cnt: "cb_count ?b < 256" using cb_count_le [OF wf] by (simp add: maxops)
  have sz: "aesd_circular_buffer_size ?b = Some (of_nat (cb_count ?b))"
    using cb_size_eq [OF wf mem_inv_clean [OF mi]] .
  have cmp: "(of_nat (cb_count ?b) :: size_t) \<le> ucast (write_cmd sk) \<longleftrightarrow> cb_count ?b \<le> ?n"
    using cnt by (simp add: word_le_nat_alt unat_of_nat64)
  show ?thesis
  proof (cases "?n < cb_count ?b")
    case False
    then show ?thesis using free dev cmd sk sz cmp
      by (simp add: aesd_unlocked_ioctl_def seek_valid_def)
  next
    case True
    have "unat (ucast (out_offs ?b) + write_cmd sk) = unat (out_offs ?b) + ?n"
      using True cnt wf by (subst unat_add_less) (simp_all add: cb_wf_def maxops)
    then have idx: "unat (ucast (out_offs ?b) + write_cmd sk) mod MAXOPS = cb_idx ?b ?n"
      by (simp add: cb_idx_def)
    obtain bs where "?cs ! ?n = bs" "length bs = unat (esize (cb_entries ?b ! ?n))"
      using mem_inv_entry [OF mi True] by blast
    then have len: "unat (esize (entry ?b ! cb_idx ?b ?n)) = length (?cs ! ?n)" using True by simp
    have cmp2: "esize (entry ?b ! cb_idx ?b ?n) \<le> ucast (write_cmd_offset sk) \<longleftrightarrow>
        length (?cs ! ?n) \<le> unat (write_cmd_offset sk)"
      using len by (simp add: word_le_nat_alt)
    have "seek_loop ?b [0..<?n] 0 = Some (of_nat (length (concat (take ?n ?cs))))"
      using seek_loop_prefix [OF wf, of ?n] True sizes_cmds [OF mi]
      by (simp add: length_concat take_map)
    then show ?thesis using True free dev cmd sk sz cmp cmp2 idx wf
      by (simp add: aesd_unlocked_ioctl_def seek_valid_def seek_pos_def Let_def)
  qed
qed

section \<open>Loading the module\<close>

lemma fresh_device_inv: "mem_inv h h (aesd_write_buffer fresh_device) (temp_buf fresh_device)"
  using cb_init_wf cb_init_clean
  by (simp add: mem_inv_def fresh_device_def temp_ok_def temp_ptrs_def restrict_map_def)

lemma setup_cdev_sel:
  "kheap (fst (aesd_setup_cdev K s)) = kheap s" "ring_of (fst (aesd_setup_cdev K s)) = ring_of s"
  "temp_of (fst (aesd_setup_cdev K s)) = temp_of s" "locked (fst (aesd_setup_cdev K s)) = locked s"
  "chrdevs (fst (aesd_setup_cdev K s)) = chrdevs s"
  "aesd_major (fst (aesd_setup_cdev K s)) = aesd_major s"
  "aesd_minor (fst (aesd_setup_cdev K s)) = aesd_minor s"
  by (simp_all add: aesd_setup_cdev_def locked_def Let_def split: prod.split)

lemma chrdev_alloc_law:
  assumes "chrdev_ok K" and "alloc_chrdev_region K R mi = (R', d, r)"
  shows "if r < 0 then R' = R else d \<notin> R \<and> R' = insert d R \<and> MKDEV K (MAJOR K d) mi = d"
proof -
  from assms(1) have "\<forall>R mi R' d r. alloc_chrdev_region K R mi = (R', d, r) \<longrightarrow>
      (if r < 0 then R' = R else d \<notin> R \<and> R' = insert d R \<and> MKDEV K (MAJOR K d) mi = d)"
    unfolding chrdev_ok_def by (elim conjE)
  with assms(2) show ?thesis by (elim allE) (erule mp)
qed

lemma init_module_cases:
  assumes K: "chrdev_ok K" and run: "aesd_init_module K s = (s', r)"
  obtains (refused) "r \<noteq> 0" "chrdevs s' = chrdevs s" "kheap s' = kheap s"
  | (loaded) d where "r = 0" "drv_inv (kheap s) s'" "\<not> locked s'" "drv_cmds s' = []" "drv_pend s' = []"
      "d \<notin> chrdevs s" "chrdevs s' = insert d (chrdevs s)" "MKDEV K (aesd_major s') (aesd_minor s') = d"
proof -
  obtain R d a where al: "alloc_chrdev_region K (chrdevs s) (aesd_minor s) = (R, d, a)"
    by (metis prod_cases3)
  let ?s0 = "s\<lparr>chrdevs := R, aesd_major := MAJOR K d\<rparr>"
  have a: "if a < 0 then R = chrdevs s
           else d \<notin> chrdevs s \<and> R = insert d (chrdevs s) \<and> MKDEV K (MAJOR K d) (aesd_minor s) = d"
    using K al by (rule chrdev_alloc_law)
  show ?thesis
  proof (cases "a < 0")
    case True
    then have "s' = ?s0" "r = a" using run al by (simp_all add: aesd_init_module_def)
    then show ?thesis using refused True a by simp
  next
    case False
    obtain s1 r1 where se: "aesd_setup_cdev K (?s0\<lparr>aesd_device := fresh_device\<rparr>) = (s1, r1)"
      by fastforce
    note sel = setup_cdev_sel [of K "?s0\<lparr>aesd_device := fresh_device\<rparr>", unfolded se fst_conv]
    show ?thesis
    proof (cases "r1 = 0")
      case True
      then have "s' = s1" "r = 0" using run al se False by (simp_all add: aesd_init_module_def Let_def)
      moreover have "drv_inv (kheap s) s1" using fresh_device_inv sel by (simp add: drv_inv_def)
      moreover have "\<not> locked s1" "drv_cmds s1 = []" "drv_pend s1 = []"
        using sel by (simp_all add: locked_def fresh_device_def cmds_def pend_def)
      ultimately show ?thesis using loaded [of d] a False sel by simp
    next
      case bad: False
      then have "s' = s1\<lparr>chrdevs := unregister_chrdev_region K (chrdevs s1) d\<rparr>" "r = r1"
        using run al se False by (simp_all add: aesd_init_module_def Let_def)
      moreover have "unregister_chrdev_region K (chrdevs s1) d = chrdevs s"
        using K a False sel unfolding chrdev_ok_def by simp
      ultimately show ?thesis using refused bad sel by simp
    qed
  qed
qed

section \<open>Unloading the module\<close>

definition slot_ptrs :: "aesd_circular_buffer \<Rightarrow> nat list \<Rightarrow> ptr list" where
  "slot_ptrs b is = filter (\<lambda>p. p \<noteq> NULL) (map (\<lambda>i. buffptr (entry b ! i)) is)"

lemma slot_ptrs_update:
  "i \<notin> set is \<Longrightarrow> slot_ptrs (b\<lparr>entry := (entry b)[i := e]\<rparr>) is = slot_ptrs b is"
  unfolding slot_ptrs_def
  by (rule arg_cong [where f = "filter _"], rule map_cong [OF refl])
    (metis aesd_circular_buffer.select_convs(1) aesd_circular_buffer.surjective
      aesd_circular_buffer.update_convs(1) nth_list_update_neq)

lemma cleanup_loop:
  assumes K: "memory_ok K"
    and "distinct is" "set is \<subseteq> {..<length (entry b)}"
    and "distinct (slot_ptrs b is)" "set (slot_ptrs b is) \<subseteq> dom h"
  shows "\<exists>b'. foreach_loop (cleanup_body K) is b h = Some (b', h |` (- set (slot_ptrs b is)))
    \<and> length (entry b') = length (entry b)
    \<and> (\<forall>i < length (entry b). buffptr (entry b' ! i) =
         (if i \<in> set is then NULL else buffptr (entry b ! i)))"
  using assms(2-)
proof (induction "is" arbitrary: b h)
  case Nil
  then show ?case by (simp add: slot_ptrs_def)
next
  case (Cons i "is")
  let ?e = "entry b ! i"
  have i: "i < length (entry b)" "i \<notin> set is" using Cons.prems by simp_all
  show ?case
  proof (cases "buffptr ?e = NULL")
    case True
    then have sp: "slot_ptrs b (i # is) = slot_ptrs b is" by (simp add: slot_ptrs_def)
    have "b\<lparr>entry := (entry b)[i := ?e]\<rparr> = b" by simp
    then show ?thesis using Cons.IH [of b h] Cons.prems True i unfolding sp
      by (auto simp: get_entry_def set_entry_def cleanup_body_def)
  next
    case False
    let ?b1 = "b\<lparr>entry := (entry b)[i := ?e\<lparr>buffptr := NULL, esize := 0\<rparr>]\<rparr>"
    let ?h1 = "h(buffptr ?e := None)"
    have sp: "slot_ptrs b (i # is) = buffptr ?e # slot_ptrs b is" using False by (simp add: slot_ptrs_def)
    have sp1: "slot_ptrs ?b1 is = slot_ptrs b is" using i by (rule_tac slot_ptrs_update)
    have "buffptr ?e \<in> dom h" using Cons.prems sp by simp
    then have body: "cleanup_body K ?e h = Some (?e\<lparr>buffptr := NULL, esize := 0\<rparr>, ?h1)"
      using False K by (simp add: cleanup_body_def free_block_ok)
    have "set (slot_ptrs ?b1 is) \<subseteq> dom ?h1" "distinct (slot_ptrs ?b1 is)"
      unfolding sp1 using Cons.prems sp by auto
    moreover have "distinct is" "set is \<subseteq> {..<length (entry ?b1)}" using Cons.prems by simp_all
    ultimately obtain b' where b': "foreach_loop (cleanup_body K) is ?b1 ?h1 = Some (b', ?h1 |` (- set (slot_ptrs b is)))"
        "length (entry b') = length (entry b)"
        "\<forall>j < length (entry b). buffptr (entry b' ! j) = (if j \<in> set is then NULL else buffptr (entry ?b1 ! j))"
      using Cons.IH [of ?b1 ?h1] sp1 by fastforce
    have "?h1 |` (- set (slot_ptrs b is)) = h |` (- set (slot_ptrs b (i # is)))"
      unfolding sp by (auto simp: restrict_map_def fun_eq_iff)
    then show ?thesis using b' i body by (auto simp: get_entry_def set_entry_def nth_list_update)
  qed
qed

lemma slot_ptrs_ring:
  assumes wf: "cb_wf b" and clean: "cb_clean b"
  shows "mset (slot_ptrs b [0..<MAXOPS]) = mset (ring_ptrs b)"
proof -
  have "slot_ptrs b [0..<MAXOPS] =
      map buffptr (map (\<lambda>i. entry b ! i) (filter (\<lambda>i. buffptr (entry b ! i) \<noteq> NULL) [0..<MAXOPS]))"
    by (simp add: slot_ptrs_def filter_map comp_def)
  then show ?thesis using cb_slots_mset [OF assms] by (simp only: mset_map)
qed

lemma cleanup_ring:
  assumes K: "memory_ok K" and mi: "mem_inv F h b t"
  obtains b' where
    "AESD_CIRCULAR_BUFFER_FOREACH (cleanup_body K) b (h |` (- temp_ptrs t)) = Some (b', F)"
    "\<forall>i < MAXOPS. buffptr (entry b' ! i) = NULL"
proof -
  let ?h1 = "h |` (- temp_ptrs t)"
  have ms: "mset (slot_ptrs b [0..<MAXOPS]) = mset (ring_ptrs b)"
    using slot_ptrs_ring [OF mem_inv_wf [OF mi] mem_inv_clean [OF mi]] .
  then have set_eq: "set (slot_ptrs b [0..<MAXOPS]) = set (ring_ptrs b)" by (rule mset_eq_setD)
  have dist: "distinct (slot_ptrs b [0..<MAXOPS])"
    using mset_eq_imp_distinct_iff [OF ms] mi by (simp add: mem_inv_def)
  have dom: "set (slot_ptrs b [0..<MAXOPS]) \<subseteq> dom ?h1"
  proof
    fix p assume "p \<in> set (slot_ptrs b [0..<MAXOPS])"
    then have "p \<in> set (ring_ptrs b)" by (simp only: set_eq)
    from mem_inv_ptr_live [OF mi this] show "p \<in> dom ?h1" by simp
  qed
  have rng: "set [0..<MAXOPS] \<subseteq> {..<length (entry b)}" using mem_inv_wf [OF mi] by auto
  have F: "?h1 |` (- set (slot_ptrs b [0..<MAXOPS])) = F"
    using mi unfolding mem_inv_def set_eq by (auto simp: restrict_map_def)
  from cleanup_loop [OF K distinct_upt rng dist dom, unfolded F] that show ?thesis
    using mem_inv_wf [OF mi] by (auto simp: AESD_CIRCULAR_BUFFER_FOREACH_def)
qed

lemma cleanup_temp:
  assumes K: "memory_ok K" and mi: "mem_inv F h b t" and t: "tdata t \<noteq> NULL"
  shows "free_block K h (tdata t) = Some (h |` (- temp_ptrs t))"
proof -
  have "tdata t \<in> dom h" using mi t by (auto simp: mem_inv_def temp_ok_def)
  moreover have "h(tdata t := None) = h |` (- temp_ptrs t)"
    using t by (auto simp: temp_ptrs_def restrict_map_def fun_eq_iff)
  ultimately show ?thesis using K by (simp add: free_block_ok)
qed

lemma cleanup_module_eq:
  assumes K: "memory_ok K" and inv: "drv_inv F s"
  obtains s' where "aesd_cleanup_module K s = Some s'" "kheap s' = F"
    "chrdevs s' = unregister_chrdev_region K (chrdevs s) (MKDEV K (aesd_major s) (aesd_minor s))"
    "tdata (temp_of s') = NULL" "\<forall>i < MAXOPS. buffptr (entry (ring_of s') ! i) = NULL"
proof -
  let ?t = "temp_of s"
  have mi: "mem_inv F (kheap s) (ring_of s) ?t" using inv by (simp add: drv_inv_def)
  obtain b' where b': "AESD_CIRCULAR_BUFFER_FOREACH (cleanup_body K) (ring_of s) (kheap s |` (- temp_ptrs ?t))
        = Some (b', F)"
      "\<forall>i < MAXOPS. buffptr (entry b' ! i) = NULL"
    using cleanup_ring [OF K mi] by blast
  show ?thesis
  proof (cases "tdata ?t = NULL")
    case True
    then have "kheap s |` (- temp_ptrs ?t) = kheap s" by (simp add: temp_ptrs_def restrict_map_def)
    with b' True that show ?thesis
      by (simp add: aesd_cleanup_module_def Let_def set_heap_def set_ring_def)
  next
    case False
    from cleanup_temp [OF K mi False] b' False that show ?thesis
      by (simp add: aesd_cleanup_module_def Let_def set_heap_def set_ring_def set_temp_def)
  qed
qed

end
