(* ===== verification/Driver_Properties.thy ===== *)
theory Driver_Properties
  imports Driver_Read
begin

text \<open>
  The driver as a whole. \<open>reach\<close> is the set of states its handlers can produce after
  a successful load, in any order and with any arguments the kernel passes; every
  such state satisfies the memory invariant, so no handler has undefined behaviour.
  The locale \<open>write_log\<close> is the contract of the write handler towards its clients; it
  is interpreted on \<open>aesd_write\<close> for every kernel. The properties of the driver
  follow, each with a witness on a small concrete device.
\<close>

section \<open>Writes as a log of commands\<close>

text \<open>
  What a sequence of write calls makes of the pending bytes: a call whose bytes, after
  the pending ones, contain a newline completes a command, which is everything
  pending; other calls only add to the pending bytes.
\<close>

fun segment :: "byte list \<Rightarrow> byte list list \<Rightarrow> byte list list \<times> byte list" where
  "segment p [] = ([], p)"
| "segment p (c # cs) =
     (if newline \<in> set (p @ c) then (case segment [] cs of (done, q) \<Rightarrow> ((p @ c) # done, q))
      else segment (p @ c) cs)"

lemma segment_complete:
  assumes "newline \<in> set (p @ c)" and "segment [] cs = (xs, q)"
  shows "segment p (c # cs) = ((p @ c) # xs, q)"
  using assms by simp

lemma segment_partial:
  assumes "newline \<notin> set (p @ c)"
  shows "segment p (c # cs) = segment (p @ c) cs"
  using assms by simp

text \<open>No byte is lost or reordered, and every command contains a newline.\<close>

lemma segment_sound:
  assumes "segment p cs = (xs, q)"
  shows "concat xs @ q = p @ concat cs \<and> (\<forall>x \<in> set xs. newline \<in> set x)"
  using assms
proof (induction cs arbitrary: p xs)
  case Nil
  then show ?case by simp
next
  case (Cons c cs)
  show ?case
  proof (cases "newline \<in> set (p @ c)")
    case True
    obtain ys q' where ys: "segment [] cs = (ys, q')" by fastforce
    with Cons.prems segment_complete [OF True ys] have "xs = (p @ c) # ys" "q = q'" by simp_all
    with Cons.IH [of "[]" ys] ys True show ?thesis by simp
  next
    case False
    with Cons.prems segment_partial [OF False] have "segment (p @ c) cs = (xs, q)" by metis
    from Cons.IH [OF this] show ?thesis by simp
  qed
qed

locale write_log =
  fixes cap :: nat
    and step :: "'s \<Rightarrow> byte list \<Rightarrow> 's \<Rightarrow> bool"
    and good :: "'s \<Rightarrow> bool"
    and content :: "'s \<Rightarrow> byte list list"
    and partial :: "'s \<Rightarrow> byte list"
  assumes cap_pos: "0 < cap"
    and content_bound: "good s \<Longrightarrow> length (content s) \<le> cap"
    and step_good: "good s \<Longrightarrow> step s bs s' \<Longrightarrow> good s'"
    and step_complete: "good s \<Longrightarrow> step s bs s' \<Longrightarrow> newline \<in> set (partial s @ bs) \<Longrightarrow>
      content s' = push cap (content s) (partial s @ bs) \<and> partial s' = []"
    and step_partial: "good s \<Longrightarrow> step s bs s' \<Longrightarrow> newline \<notin> set (partial s @ bs) \<Longrightarrow>
      content s' = content s \<and> partial s' = partial s @ bs"
begin

lemma chain_foldl:
  assumes "chain step s bss s'" and "good s" and "segment (partial s) bss = (xs, q)"
  shows "content s' = foldl (push cap) (content s) xs \<and> partial s' = q"
  using assms
proof (induction bss arbitrary: s xs)
  case Nil
  then show ?case by simp
next
  case (Cons bs bss)
  from Cons.prems(1) obtain m where st: "step s bs m" and rest: "chain step m bss s'" by auto
  have g: "good m" using step_good [OF Cons.prems(2) st] .
  show ?case
  proof (cases "newline \<in> set (partial s @ bs)")
    case True
    obtain ys q' where ys: "segment [] bss = (ys, q')" by fastforce
    with Cons.prems(3) segment_complete [OF True ys] have "xs = (partial s @ bs) # ys" "q = q'"
      by simp_all
    moreover have "content m = push cap (content s) (partial s @ bs)" "partial m = []"
      using step_complete [OF Cons.prems(2) st True] by simp_all
    ultimately show ?thesis using Cons.IH [OF rest g] ys by simp
  next
    case False
    have "content m = content s" "partial m = partial s @ bs"
      using step_partial [OF Cons.prems(2) st False] by simp_all
    moreover have "segment (partial s @ bs) bss = (xs, q)"
      using Cons.prems(3) segment_partial [OF False] by metis
    ultimately show ?thesis using Cons.IH [OF rest g] by simp
  qed
qed

lemma chain_newest:
  assumes "chain step s bss s'" and "good s" and "segment (partial s) bss = (xs, q)"
  shows "content s' = newest cap (content s @ xs)" and "partial s' = q"
  using chain_foldl [OF assms] foldl_push [OF cap_pos content_bound [OF assms(2)]] by simp_all

end

text \<open>A write call that reports success, for a given kernel.\<close>

definition write_step :: "'u kernel \<Rightarrow> drv \<Rightarrow> byte list \<Rightarrow> drv \<Rightarrow> bool" where
  "write_step K s bs s' \<longleftrightarrow> memory_ok K \<and>
     (\<exists>u filp d buf cnt pos pos'. private_data filp = Some d \<and> unat cnt < 2 ^ 63 \<and>
        copy_from_user K u buf cnt = (bs, 0) \<and>
        aesd_write K u s filp buf cnt pos = Some (Done (s', pos', Inr cnt)))"

lemma write_step_cases:
  assumes "write_step K s bs s'" and "drv_inv F s \<and> \<not> locked s"
  shows "(drv_inv F s' \<and> \<not> locked s') \<and>
    (if newline \<in> set (drv_pend s @ bs)
     then drv_cmds s' = push MAXOPS (drv_cmds s) (drv_pend s @ bs) \<and> drv_pend s' = []
     else drv_cmds s' = drv_cmds s \<and> drv_pend s' = drv_pend s @ bs)"
proof -
  obtain u filp d buf cnt pos pos' where K: "memory_ok K" and dev: "private_data filp = Some d"
      and cnt: "unat cnt < 2 ^ 63" and cfu: "copy_from_user K u buf cnt = (bs, 0)"
      and run: "aesd_write K u s filp buf cnt pos = Some (Done (s', pos', Inr cnt))"
    using assms(1) unfolding write_step_def by blast
  from assms(2) have inv: "drv_inv F s" and free: "\<not> locked s" by simp_all
  from K inv free dev cnt cfu show ?thesis
    by (cases rule: aesd_write_cases [where pos = pos]) (use run in simp_all)
qed

interpretation driver_log: write_log MAXOPS "write_step K" "\<lambda>s. drv_inv F s \<and> \<not> locked s" drv_cmds drv_pend
  for K :: "'u kernel" and F :: heap
proof unfold_locales
  fix s bs s'
  assume g: "drv_inv F s \<and> \<not> locked s"
  then have "cb_wf (ring_of s)" by (auto simp: drv_inv_def mem_inv_def)
  then show "length (drv_cmds s) \<le> MAXOPS" by (simp add: cb_count_le)
  assume st: "write_step K s bs s'"
  note c = write_step_cases [OF st g]
  from c show "drv_inv F s' \<and> \<not> locked s'" by blast
  from c show "newline \<in> set (drv_pend s @ bs) \<Longrightarrow>
      drv_cmds s' = push MAXOPS (drv_cmds s) (drv_pend s @ bs) \<and> drv_pend s' = []"
    and "newline \<notin> set (drv_pend s @ bs) \<Longrightarrow>
      drv_cmds s' = drv_cmds s \<and> drv_pend s' = drv_pend s @ bs" by simp_all
qed simp

section \<open>Reachable states\<close>

inductive reach :: "'u kernel \<Rightarrow> drv \<Rightarrow> drv \<Rightarrow> bool" for K :: "'u kernel" and s0 :: drv where
  by_load: "aesd_init_module K s0 = (s, 0) \<Longrightarrow> reach K s0 s"
| by_read: "reach K s0 s \<Longrightarrow> private_data filp = Some d \<Longrightarrow>
    aesd_read K u s filp buf cnt pos = Some (Done (u', s', pos', r)) \<Longrightarrow> reach K s0 s'"
| by_write: "reach K s0 s \<Longrightarrow> private_data filp = Some d \<Longrightarrow> unat cnt < 2 ^ 63 \<Longrightarrow>
    aesd_write K u s filp buf cnt pos = Some (Done (s', pos', r')) \<Longrightarrow> reach K s0 s'"
| by_seek: "reach K s0 s \<Longrightarrow> private_data filp = Some d \<Longrightarrow>
    aesd_llseek K s filp off w = Some (Done (s', filp', r'')) \<Longrightarrow> reach K s0 s'"
| by_ioctl: "reach K s0 s \<Longrightarrow> private_data filp = Some d \<Longrightarrow>
    aesd_unlocked_ioctl K u s filp cmd arg = Some (Done (s', filp', r)) \<Longrightarrow> reach K s0 s'"

text \<open>The registration the module holds, which no handler touches.\<close>

definition same_ids :: "drv \<Rightarrow> drv \<Rightarrow> bool" where
  "same_ids s s' \<longleftrightarrow> chrdevs s' = chrdevs s \<and> aesd_major s' = aesd_major s \<and> aesd_minor s' = aesd_minor s"

lemma same_ids_simps [simp]:
  "same_ids s s" "same_ids s (lock_dev s') = same_ids s s'" "same_ids s (unlock_dev s') = same_ids s s'"
  "same_ids s (set_heap h s') = same_ids s s'" "same_ids s (set_ring b s') = same_ids s s'"
  "same_ids s (set_temp t s') = same_ids s s'" "same_ids (lock_dev s) s' = same_ids s s'"
  "same_ids (set_heap h s) s' = same_ids s s'" "same_ids (set_temp t s) s' = same_ids s s'"
  by (simp_all add: same_ids_def lock_dev_def unlock_dev_def set_heap_def set_ring_def set_temp_def)

lemma same_ids_trans: "same_ids a b \<Longrightarrow> same_ids b c \<Longrightarrow> same_ids a c"
  by (simp add: same_ids_def)

lemma reserve_same_ids: "aesd_write_reserve K s cnt = Some (s', ok) \<Longrightarrow> same_ids s s'"
  by (auto simp: aesd_write_reserve_def realloc_block_def Let_def split: if_splits prod.splits)

lemma commit_same_ids: "aesd_write_commit K s = Some (s', ok) \<Longrightarrow> same_ids s s'"
  by (auto simp: aesd_write_commit_def Let_def split: if_splits prod.splits option.splits bind_splits)

lemma write_same_ids:
  assumes "aesd_write K u s filp buf cnt pos = Some (Done (s', pos', r))"
  shows "same_ids s s'"
proof -
  from assms obtain s1 ok where res: "aesd_write_reserve K (lock_dev s) cnt = Some (s1, ok)"
    by (auto simp: aesd_write_def split: if_splits bind_splits)
  then have 1: "same_ids s s1" using reserve_same_ids [OF res] by simp
  from assms res 1 show ?thesis
    by (auto simp: aesd_write_def Let_def split: if_splits prod.splits bind_splits
        dest!: commit_same_ids intro: same_ids_trans)
qed

text \<open>One call of a handler that returns, from any state with the invariant.\<close>

lemma read_keeps:
  assumes "drv_inv F s" and "private_data filp = Some d"
    and "aesd_read K u s filp buf cnt pos = Some (Done (u', s', pos', r))"
  shows "s' = s"
proof -
  have "\<not> locked s" using assms(2,3) by (auto simp: aesd_read_def)
  with aesd_read_eq [OF assms(1) this assms(2), of K u buf cnt pos] assms(3) show ?thesis
    by (auto split: prod.splits)
qed

lemma write_keeps:
  assumes K: "memory_ok K" and inv: "drv_inv F s" and dev: "private_data filp = Some d"
    and cnt: "unat cnt < 2 ^ 63"
    and run: "aesd_write K u s filp buf cnt pos = Some (Done (s', pos', r))"
  shows "drv_inv F s'" and "\<not> locked s'"
proof -
  have free: "\<not> locked s" using dev run by (auto simp: aesd_write_def)
  obtain bs left where cfu: "copy_from_user K u buf cnt = (bs, left)" by fastforce
  from K inv free dev cnt cfu have "drv_inv F s' \<and> \<not> locked s'"
    by (cases rule: aesd_write_cases [where pos = pos]) (use run in simp_all)
  then show "drv_inv F s'" and "\<not> locked s'" by simp_all
qed

lemma llseek_keeps:
  assumes "drv_inv F s" and "private_data filp = Some d"
    and "aesd_llseek K s filp off w = Some (Done (s', filp', r))"
  shows "s' = s"
proof -
  have "\<not> locked s" using assms(2,3) by (auto simp: aesd_llseek_def)
  with aesd_llseek_eq [OF assms(1) this assms(2), of K off w] assms(3) show ?thesis
    by (auto split: prod.splits)
qed

lemma ioctl_keeps:
  assumes "drv_inv F s" and "private_data filp = Some d"
    and "aesd_unlocked_ioctl K u s filp cmd arg = Some (Done (s', filp', r))"
  shows "s' = s \<or> (s' = lock_dev s \<and> r = Inl EINVAL)"
proof (cases "cmd = AESDCHAR_IOCSEEKTO K \<and> snd (copy_seekto_from_user K u arg) = 0")
  case True
  then obtain sk where sk: "copy_seekto_from_user K u arg = (sk, 0)" by (metis prod.collapse)
  with True assms(2,3) have "\<not> locked s" by (auto simp: aesd_unlocked_ioctl_def)
  with aesd_ioctl_eq [OF assms(1) this assms(2) _ sk, of cmd] True assms(3) show ?thesis
    by (auto split: if_splits)
next
  case False
  with assms(3) show ?thesis by (auto simp: aesd_unlocked_ioctl_def split: if_splits prod.splits)
qed

lemma reach_inv:
  assumes K: "memory_ok K" "chrdev_ok K" and "reach K s0 s"
  shows "drv_inv (kheap s0) s \<and> (\<exists>d. d \<notin> chrdevs s0 \<and> chrdevs s = insert d (chrdevs s0) \<and>
    MKDEV K (aesd_major s) (aesd_minor s) = d)"
  using assms(3)
proof (induction rule: reach.induct)
  case (by_load s)
  from K(2) by_load show ?case
  proof (cases rule: init_module_cases)
    case refused
    then show ?thesis by simp
  next
    case (loaded d)
    then show ?thesis by (intro conjI exI [of _ d])
  qed
next
  case (by_read s filp d u buf cnt pos u' s' pos' r)
  from by_read.IH have "drv_inv (kheap s0) s" by simp
  from read_keeps [OF this by_read.hyps(2,3)] by_read.IH show ?case by simp
next
  case (by_write s filp d cnt u buf pos s' pos' r')
  from by_write.hyps(4) have "same_ids s s'" by (rule write_same_ids)
  moreover from by_write.IH have "drv_inv (kheap s0) s" by simp
  from write_keeps(1) [OF K(1) this by_write.hyps(2-4)] have "drv_inv (kheap s0) s'" .
  ultimately show ?case using by_write.IH by (simp add: same_ids_def)
next
  case (by_seek s filp d off w s' filp' r'')
  from by_seek.IH have "drv_inv (kheap s0) s" by simp
  from llseek_keeps [OF this by_seek.hyps(2,3)] by_seek.IH show ?case by simp
next
  case (by_ioctl s filp d u cmd arg s' filp' r)
  from by_ioctl.IH have "drv_inv (kheap s0) s" by simp
  from ioctl_keeps [OF this by_ioctl.hyps(2,3)] by_ioctl.IH show ?case
    by (auto simp: lock_dev_def drv_inv_def)
qed

section \<open>A concrete device\<close>

text \<open>
  Two commands, \<open>hi\<close> and \<open>ok\<close> with their newlines, and one pending byte, on the
  reference kernel; no foreign memory.
\<close>

definition demo_ring :: aesd_circular_buffer where
  "demo_ring = \<lparr>entry = [\<lparr>buffptr = 1, esize = 3\<rparr>, \<lparr>buffptr = 2, esize = 3\<rparr>] @ replicate 8 zero_entry,
     in_offs = 2, out_offs = 0, full = False\<rparr>"

definition demo :: drv where
  "demo = \<lparr>kheap = [1 \<mapsto> [104, 105, 10], 2 \<mapsto> [111, 107, 10], 3 \<mapsto> [120, 0, 0, 0]],
     aesd_device = fresh_device\<lparr>aesd_write_buffer := demo_ring,
       temp_buf := \<lparr>tdata = 3, tsize = 1, tcapacity = 4\<rparr>\<rparr>,
     aesd_major = 240, aesd_minor = 0, chrdevs = {240}\<rparr>"

definition demo_file :: struct_file where
  "demo_file = \<lparr>private_data = Some Aesd_device, f_pos = 0\<rparr>"

lemma upt_0_2: "[0..<2] = [0, 1 :: nat]"
  by (simp add: upt_rec)

lemma demo_ring_facts:
  "cb_wf demo_ring" "cb_entries demo_ring = [\<lparr>buffptr = 1, esize = 3\<rparr>, \<lparr>buffptr = 2, esize = 3\<rparr>]"
  by (simp_all add: cb_wf_def demo_ring_def maxops cb_entries_def cb_count_def cb_idx_def upt_0_2)

lemma demo_ring_clean: "cb_clean demo_ring"
  unfolding cb_clean_def demo_ring_facts
  by (auto simp: demo_ring_def cb_count_def maxops nth_append nth_replicate)

lemma demo_sel [simp]:
  "ring_of demo = demo_ring" "temp_of demo = \<lparr>tdata = 3, tsize = 1, tcapacity = 4\<rparr>"
  "kheap demo = [1 \<mapsto> [104, 105, 10], 2 \<mapsto> [111, 107, 10], 3 \<mapsto> [120, 0, 0, 0]]"
  "\<not> locked demo" "private_data demo_file = Some Aesd_device"
  by (simp_all add: demo_def locked_def fresh_device_def demo_file_def)

lemma demo_inv: "drv_inv Map.empty demo"
  using demo_ring_facts demo_ring_clean
  by (auto simp: drv_inv_def mem_inv_def entry_ok_def temp_ok_def temp_ptrs_def restrict_map_def)

lemma demo_contents: "drv_cmds demo = [[104, 105, 10], [111, 107, 10]]" "drv_pend demo = [120]"
  by (simp_all add: cmds_def pend_def demo_ring_facts)

end
