(* ===== verification/Driver_Steps.thy ===== *)
theory Driver_Steps
  imports Driver_Properties
begin

text \<open>
  The handlers of the driver, \<open>src/aesd-char-driver/main.c\<close>, cut into the steps between which another
  process may run: taking the mutex, the accesses to the device under it, releasing it, and what
  a handler does before and after. \<open>dev_step\<close> executes the next step; \<open>finish\<close> executes the rest of a
  call alone. Running a call alone from its entry gives the handler of \<open>Aesd_Driver\<close>, so the steps are
  those of the same code; \<open>Driver_Interleave\<close> interleaves them.
\<close>

section \<open>Calls\<close>

datatype syscall =
    Sys_read ptr size_t
  | Sys_write ptr size_t
  | Sys_llseek loff_t whence
  | Sys_ioctl u32 ptr

type_synonym answer = "errno + size_t"

text \<open>A process that uses the device: its open file and its memory.\<close>

record 'u caller =
  cfile :: struct_file
  cmem :: 'u

abbreviation set_pos :: "loff_t \<Rightarrow> 'u caller \<Rightarrow> 'u caller" where
  "set_pos p c \<equiv> c\<lparr>cfile := (cfile c)\<lparr>f_pos := p\<rparr>\<rparr>"

text \<open>
  A whole call, by the handler that the kernel dispatches to; the kernel passes the position of the file
  to \<open>read\<close> and \<open>write\<close> and stores the new one.
\<close>

definition whole_call :: "'u kernel \<Rightarrow> syscall \<Rightarrow> 'u caller \<Rightarrow> drv \<Rightarrow> ('u caller \<times> drv \<times> answer) run option" where
  "whole_call K call c s =
     (case call of
        Sys_read buf cnt \<Rightarrow>
          map_option (map_run (\<lambda>(u, s, pos, r). (set_pos pos (c\<lparr>cmem := u\<rparr>), s, r)))
            (aesd_read K (cmem c) s (cfile c) buf cnt (f_pos (cfile c)))
      | Sys_write buf cnt \<Rightarrow>
          map_option (map_run (\<lambda>(s, pos, r). (set_pos pos c, s, r)))
            (aesd_write K (cmem c) s (cfile c) buf cnt (f_pos (cfile c)))
      | Sys_llseek off w \<Rightarrow>
          map_option (map_run (\<lambda>(s, filp, r). (c\<lparr>cfile := filp\<rparr>, s, r))) (aesd_llseek K s (cfile c) off w)
      | Sys_ioctl cmd arg \<Rightarrow>
          map_option (map_run (\<lambda>(s, filp, r). (c\<lparr>cfile := filp\<rparr>, s, r)))
            (aesd_unlocked_ioctl K (cmem c) s (cfile c) cmd arg))"

section \<open>Program points\<close>

text \<open>The points of the handlers, with the local variables that are still needed.\<close>

datatype dpc =
    Read_lock ptr size_t
  | Read_find ptr size_t
  | Read_copy ptr size_t nat size_t
  | Write_lock ptr size_t
  | Write_reserve ptr size_t
  | Write_copy ptr size_t
  | Write_commit size_t
  | Unlock_return loff_t answer
  | Llseek_lock loff_t whence
  | Llseek_total loff_t whence
  | Llseek_unlock loff_t whence loff_t
  | Llseek_seek loff_t whence loff_t
  | Ioctl_entry u32 ptr
  | Ioctl_lock aesd_seekto
  | Ioctl_check aesd_seekto
  | Ioctl_unlock loff_t
  | Ioctl_set loff_t
  | Return answer

fun enter :: "syscall \<Rightarrow> dpc" where
  "enter (Sys_read buf cnt) = Read_lock buf cnt"
| "enter (Sys_write buf cnt) = Write_lock buf cnt"
| "enter (Sys_llseek off w) = Llseek_lock off w"
| "enter (Sys_ioctl cmd arg) = Ioctl_entry cmd arg"

definition take_lock :: "'u caller \<Rightarrow> drv \<Rightarrow> dpc \<Rightarrow> ('u caller \<times> drv \<times> dpc) run option" where
  "take_lock c s pc =
     do {
       dev \<leftarrow> private_data (cfile c);
       if locked s then Some Blocks else Some (Done (c, lock_dev s, pc))
     }"

fun dev_step :: "'u kernel \<Rightarrow> dpc \<Rightarrow> 'u caller \<Rightarrow> drv \<Rightarrow> ('u caller \<times> drv \<times> dpc) run option" where
  "dev_step K (Read_lock buf cnt) c s = take_lock c s (Read_find buf cnt)"
| "dev_step K (Read_find buf cnt) c s =
     do {
       start_read_buffer \<leftarrow> aesd_circular_buffer_find_entry_offset_for_fpos (ring_of s) (f_pos (cfile c));
       case start_read_buffer of
         None \<Rightarrow> Some (Done (c, s, Unlock_return (f_pos (cfile c)) (Inr 0)))
       | Some (k, read_offset) \<Rightarrow> Some (Done (c, s, Read_copy buf cnt k read_offset))
     }"
| "dev_step K (Read_copy buf cnt k read_offset) c s =
     do {
       e \<leftarrow> get_entry (ring_of s) k;
       let bytes_available = esize e - read_offset;
       let bytes_to_copy = min cnt bytes_available;
       bytes \<leftarrow> mem_load (kheap s) (buffptr e) read_offset bytes_to_copy;
       case copy_to_user K (cmem c) buf bytes of
         (u, left) \<Rightarrow>
           if left \<noteq> 0 then Some (Done (c\<lparr>cmem := u\<rparr>, s, Unlock_return (f_pos (cfile c)) (Inl EFAULT)))
           else Some (Done (c\<lparr>cmem := u\<rparr>, s, Unlock_return (f_pos (cfile c) + bytes_to_copy) (Inr bytes_to_copy)))
     }"
| "dev_step K (Write_lock buf cnt) c s = take_lock c s (Write_reserve buf cnt)"
| "dev_step K (Write_reserve buf cnt) c s =
     do {
       (s, ok) \<leftarrow> aesd_write_reserve K s cnt;
       Some (Done (c, s, if ok then Write_copy buf cnt else Unlock_return (f_pos (cfile c)) (Inl ENOMEM)))
     }"
| "dev_step K (Write_copy buf cnt) c s =
     (case copy_from_user K (cmem c) buf cnt of
        (bs, left) \<Rightarrow>
          do {
            h \<leftarrow> mem_store (kheap s) (tdata (temp_of s)) (tsize (temp_of s)) bs;
            let s = set_heap h s;
            if left \<noteq> 0 then
              Some (Done (c, set_temp ((temp_of s)\<lparr>tsize := 0\<rparr>) s, Unlock_return (f_pos (cfile c)) (Inl EFAULT)))
            else Some (Done (c, set_temp ((temp_of s)\<lparr>tsize := tsize (temp_of s) + cnt\<rparr>) s, Write_commit cnt))
          })"
| "dev_step K (Write_commit cnt) c s =
     do {
       (s, ok) \<leftarrow> aesd_write_commit K s;
       Some (Done (c, s, if ok then Unlock_return (f_pos (cfile c) + cnt) (Inr cnt)
                         else Unlock_return (f_pos (cfile c)) (Inl ENOMEM)))
     }"
| "dev_step K (Unlock_return pos r) c s = Some (Done (set_pos pos c, unlock_dev s, Return r))"
| "dev_step K (Llseek_lock off w) c s = take_lock c s (Llseek_total off w)"
| "dev_step K (Llseek_total off w) c s =
     do {
       total_size \<leftarrow> aesd_circular_buffer_total_size (ring_of s);
       Some (Done (c, s, Llseek_unlock off w total_size))
     }"
| "dev_step K (Llseek_unlock off w total_size) c s = Some (Done (c, unlock_dev s, Llseek_seek off w total_size))"
| "dev_step K (Llseek_seek off w total_size) c s =
     (case fixed_size_llseek K (cfile c) off w total_size of
        (filp, r) \<Rightarrow> Some (Done (c\<lparr>cfile := filp\<rparr>, s, Return r)))"
| "dev_step K (Ioctl_entry cmd arg) c s =
     (if cmd = AESDCHAR_IOCSEEKTO K then
        (case copy_seekto_from_user K (cmem c) arg of
           (seekto, left) \<Rightarrow> Some (Done (c, s, if left \<noteq> 0 then Return (Inl EFAULT) else Ioctl_lock seekto)))
      else Some (Done (c, s, Return (Inl ENOTTY))))"
| "dev_step K (Ioctl_lock seekto) c s = take_lock c s (Ioctl_check seekto)"
| "dev_step K (Ioctl_check seekto) c s =
     (let b = ring_of s in
      do {
        n \<leftarrow> aesd_circular_buffer_size b;
        if n \<le> ucast (write_cmd seekto) then Some (Done (c, s, Return (Inl EINVAL)))
        else
          do {
            let actual_index = unat (ucast (out_offs b) + write_cmd seekto) mod MAXOPS;
            e \<leftarrow> get_entry b actual_index;
            if esize e \<le> ucast (write_cmd_offset seekto) then Some (Done (c, s, Return (Inl EINVAL)))
            else
              do {
                new_f_pos \<leftarrow> seek_loop b [0..<unat (write_cmd seekto)] 0;
                Some (Done (c, s, Ioctl_unlock (new_f_pos + ucast (write_cmd_offset seekto))))
              }
          }
      })"
| "dev_step K (Ioctl_unlock new_f_pos) c s = Some (Done (c, unlock_dev s, Ioctl_set new_f_pos))"
| "dev_step K (Ioctl_set new_f_pos) c s = Some (Done (set_pos new_f_pos c, s, Return (Inr 0)))"
| "dev_step K (Return r) c s = Some (Done (c, s, Return r))"

section \<open>A call alone\<close>

text \<open>The number of steps a call has left at most.\<close>

fun rank :: "dpc \<Rightarrow> nat" where
  "rank (Return r) = 0"
| "rank (Unlock_return pos r) = 1"
| "rank (Read_copy buf cnt k off) = 2"
| "rank (Read_find buf cnt) = 3"
| "rank (Read_lock buf cnt) = 4"
| "rank (Write_commit cnt) = 2"
| "rank (Write_copy buf cnt) = 3"
| "rank (Write_reserve buf cnt) = 4"
| "rank (Write_lock buf cnt) = 5"
| "rank (Llseek_seek off w n) = 1"
| "rank (Llseek_unlock off w n) = 2"
| "rank (Llseek_total off w) = 3"
| "rank (Llseek_lock off w) = 4"
| "rank (Ioctl_set p) = 1"
| "rank (Ioctl_unlock p) = 2"
| "rank (Ioctl_check sk) = 3"
| "rank (Ioctl_lock sk) = 4"
| "rank (Ioctl_entry cmd arg) = 5"

fun returned :: "dpc \<Rightarrow> answer option" where
  "returned (Return r) = Some r"
| "returned pc = None"

lemma returnedD: "returned pc = Some r \<Longrightarrow> pc = Return r"
  by (cases pc) simp_all

lemma rank_step:
  assumes "dev_step K pc c s = Some (Done (c', s', pc'))" and "returned pc = None"
  shows "rank pc' < rank pc"
  using assms by (cases pc) (auto simp: take_lock_def Let_def split: bind_splits if_splits option.splits prod.splits)

function finish :: "'u kernel \<Rightarrow> dpc \<Rightarrow> 'u caller \<Rightarrow> drv \<Rightarrow> ('u caller \<times> drv \<times> answer) run option" where
  "finish K pc c s =
     (case returned pc of
        Some r \<Rightarrow> Some (Done (c, s, r))
      | None \<Rightarrow>
          (case dev_step K pc c s of
             None \<Rightarrow> None
           | Some Blocks \<Rightarrow> Some Blocks
           | Some (Done (c', s', pc')) \<Rightarrow> finish K pc' c' s'))"
  by pat_completeness auto
termination
  by (relation "measure (\<lambda>(K, pc, c, s). rank pc)") (auto simp del: dev_step.simps dest: rank_step)

declare finish.simps [simp del]

lemma finish_return [simp]: "finish K (Return r) c s = Some (Done (c, s, r))"
  by (simp add: finish.simps)

lemma finish_step:
  "returned pc = None \<Longrightarrow>
   finish K pc c s =
     (case dev_step K pc c s of
        None \<Rightarrow> None
      | Some Blocks \<Rightarrow> Some Blocks
      | Some (Done (c', s', pc')) \<Rightarrow> finish K pc' c' s')"
  by (subst finish.simps) simp

lemma finish_next: "dev_step K pc c s = Some (Done (c', s', pc')) \<Longrightarrow> finish K pc c s = finish K pc' c' s'"
  by (cases "returned pc") (auto simp: finish_step dest!: returnedD)

lemma finish_Done:
  assumes "finish K pc c s = Some (Done x)" and "returned pc = None"
  obtains c' s' pc' where "dev_step K pc c s = Some (Done (c', s', pc'))"
  using assms by (auto simp: finish_step simp del: dev_step.simps split: option.splits run.splits prod.splits)

section \<open>The handlers\<close>

lemmas handler_defs = whole_call_def aesd_read_def aesd_write_def aesd_llseek_def aesd_unlocked_ioctl_def

lemma finish_read: "finish K (Read_lock buf cnt) c s = whole_call K (Sys_read buf cnt) c s"
  by (auto simp: finish_step handler_defs take_lock_def Let_def split: option.split prod.split bind_split)

lemma finish_write: "finish K (Write_lock buf cnt) c s = whole_call K (Sys_write buf cnt) c s"
  by (auto simp: finish_step handler_defs take_lock_def Let_def split: option.split prod.split bind_split)

lemma finish_llseek: "finish K (Llseek_lock off w) c s = whole_call K (Sys_llseek off w) c s"
  by (auto simp: finish_step handler_defs take_lock_def Let_def split: option.split prod.split bind_split)

lemma finish_ioctl: "finish K (Ioctl_entry cmd arg) c s = whole_call K (Sys_ioctl cmd arg) c s"
  by (auto simp: finish_step handler_defs take_lock_def Let_def split: option.split prod.split bind_split)

lemma finish_enter: "finish K (enter call) c s = whole_call K call c s"
  by (cases call) (simp_all add: finish_read finish_write finish_llseek finish_ioctl)

section \<open>Properties\<close>

inductive alone :: "'u kernel \<Rightarrow> 'u caller \<times> drv \<times> dpc \<Rightarrow> 'u caller \<times> drv \<times> dpc \<Rightarrow> bool" for K where
  "returned pc = None \<Longrightarrow> dev_step K pc c s = Some (Done (c', s', pc')) \<Longrightarrow> alone K (c, s, pc) (c', s', pc')"

lemma alone_finish:
  assumes "(alone K)\<^sup>*\<^sup>* (c, s, pc) (c', s', pc')"
  shows "finish K pc c s = finish K pc' c' s'"
  using assms
proof (induction "(c', s', pc')" arbitrary: c' s' pc' rule: rtranclp_induct)
  case (step y)
  obtain c1 s1 pc1 where y: "y = (c1, s1, pc1)" by (metis prod_cases3)
  then have "finish K pc1 c1 s1 = finish K pc' c' s'" using step(2) by (auto elim!: alone.cases dest!: finish_next)
  then show ?case using step(3) [OF y] by simp
qed simp

lemma finish_alone:
  "\<exists>c' s' pc'. (alone K)\<^sup>*\<^sup>* (c, s, pc) (c', s', pc') \<and>
     (case finish K pc c s of
        None \<Rightarrow> dev_step K pc' c' s' = None
      | Some Blocks \<Rightarrow> dev_step K pc' c' s' = Some Blocks
      | Some (Done (c1, s1, r)) \<Rightarrow> c' = c1 \<and> s' = s1 \<and> pc' = Return r)"
proof (induction "rank pc" arbitrary: pc c s rule: less_induct)
  case less
  show ?case
  proof (cases "returned pc")
    case (Some r)
    then have "pc = Return r" by (rule returnedD)
    then show ?thesis by (intro exI [of _ c] exI [of _ s] exI [of _ pc]) simp
  next
    case None
    show ?thesis
    proof (cases "\<exists>c1 s1 pc1. dev_step K pc c s = Some (Done (c1, s1, pc1))")
      case True
      then obtain c1 s1 pc1 where st: "dev_step K pc c s = Some (Done (c1, s1, pc1))" by blast
      have "alone K (c, s, pc) (c1, s1, pc1)" by (rule alone.intros [OF None st])
      then have "(alone K)\<^sup>*\<^sup>* (c, s, pc) z" if "(alone K)\<^sup>*\<^sup>* (c1, s1, pc1) z" for z
        using that by (rule converse_rtranclp_into_rtranclp)
      then show ?thesis using less [OF rank_step [OF st None], of c1 s1] unfolding finish_next [OF st] by blast
    next
      case False
      then have "finish K pc c s = None \<and> dev_step K pc c s = None \<or> finish K pc c s = Some Blocks \<and> dev_step K pc c s = Some Blocks"
        using None by (auto simp: finish_step simp del: dev_step.simps split: option.split run.split)
      then show ?thesis by (intro exI [of _ c] exI [of _ s] exI [of _ pc]) auto
    qed
  qed
qed

text \<open>
  The steps are those of the handlers: a call alone comes by steps to its return exactly when the
  handler returns, with the same device, the same file, the same memory and the same answer; it comes to a
  step that is undefined, or that sleeps on the mutex, exactly when the handler does.
\<close>

theorem call_steps:
  "(whole_call K call c s = Some (Done (c', s', r)) \<longleftrightarrow> (alone K)\<^sup>*\<^sup>* (c, s, enter call) (c', s', Return r)) \<and>
   (whole_call K call c s = None \<longleftrightarrow>
      (\<exists>c1 s1 pc. (alone K)\<^sup>*\<^sup>* (c, s, enter call) (c1, s1, pc) \<and> dev_step K pc c1 s1 = None)) \<and>
   (whole_call K call c s = Some Blocks \<longleftrightarrow>
      (\<exists>c1 s1 pc. (alone K)\<^sup>*\<^sup>* (c, s, enter call) (c1, s1, pc) \<and> dev_step K pc c1 s1 = Some Blocks))"
proof -
  note fwd = finish_alone [of K c s "enter call", unfolded finish_enter]
  note bwd = alone_finish [of K c s "enter call", unfolded finish_enter]
  have none: "finish K pc c1 s1 = None" if "dev_step K pc c1 s1 = None" for pc c1 s1
    using that by (cases "returned pc") (auto simp: finish_step dest!: returnedD)
  have block: "finish K pc c1 s1 = Some Blocks" if "dev_step K pc c1 s1 = Some Blocks" for pc c1 s1
    using that by (cases "returned pc") (auto simp: finish_step dest!: returnedD)
  show ?thesis
  proof (intro conjI iffI)
    show "(alone K)\<^sup>*\<^sup>* (c, s, enter call) (c', s', Return r)" if "whole_call K call c s = Some (Done (c', s', r))"
      using fwd that by auto
    show "whole_call K call c s = Some (Done (c', s', r))" if "(alone K)\<^sup>*\<^sup>* (c, s, enter call) (c', s', Return r)"
      using bwd [OF that] by simp
    show "\<exists>c1 s1 pc. (alone K)\<^sup>*\<^sup>* (c, s, enter call) (c1, s1, pc) \<and> dev_step K pc c1 s1 = None" if "whole_call K call c s = None"
      using fwd that by auto
    show "whole_call K call c s = None" if "\<exists>c1 s1 pc. (alone K)\<^sup>*\<^sup>* (c, s, enter call) (c1, s1, pc) \<and> dev_step K pc c1 s1 = None"
      using that bwd none by metis
    show "\<exists>c1 s1 pc. (alone K)\<^sup>*\<^sup>* (c, s, enter call) (c1, s1, pc) \<and> dev_step K pc c1 s1 = Some Blocks"
      if "whole_call K call c s = Some Blocks" using fwd that by auto
    show "whole_call K call c s = Some Blocks"
      if "\<exists>c1 s1 pc. (alone K)\<^sup>*\<^sup>* (c, s, enter call) (c1, s1, pc) \<and> dev_step K pc c1 s1 = Some Blocks" using that bwd block by metis
  qed
qed

end
