(* ===== verification/Simulation.thy ===== *)
theory Simulation
  imports Main
begin

text \<open>
  Simulations between transition systems, for the two places where this development shows that calls
  interleaved step by step behave like calls executed one at a time: the threads of the server and
  the callers of the driver.
\<close>

text \<open>
  A system whose steps are matched by at most one step of another, until it takes a \<open>bad\<close> step, after
  which nothing is promised.
\<close>

locale simulation =
  fixes cstep :: "'c \<Rightarrow> 'c \<Rightarrow> bool" and astep :: "'a \<Rightarrow> 'a \<Rightarrow> bool" and rel :: "'c \<Rightarrow> 'a \<Rightarrow> bool" and bad :: "'c \<Rightarrow> 'a \<Rightarrow> 'c \<Rightarrow> bool"
  assumes sim: "rel c a \<Longrightarrow> cstep c c' \<Longrightarrow> rel c' a \<or> (\<exists>a'. astep a a' \<and> rel c' a') \<or> bad c a c'"
begin

lemma runs:
  assumes "cstep\<^sup>*\<^sup>* c c'" and "rel c a"
  shows "\<exists>a'. astep\<^sup>*\<^sup>* a a' \<and>
    (rel c' a' \<or> (\<exists>c1 c2. cstep\<^sup>*\<^sup>* c c1 \<and> rel c1 a' \<and> bad c1 a' c2 \<and> cstep c1 c2 \<and> cstep\<^sup>*\<^sup>* c2 c'))"
  using assms
proof (induction rule: rtranclp_induct)
  case base
  then show ?case by blast
next
  case (step c1 c2)
  then obtain a1 where a1: "astep\<^sup>*\<^sup>* a a1"
      "rel c1 a1 \<or> (\<exists>d1 d2. cstep\<^sup>*\<^sup>* c d1 \<and> rel d1 a1 \<and> bad d1 a1 d2 \<and> cstep d1 d2 \<and> cstep\<^sup>*\<^sup>* d2 c1)" by blast
  then consider (rel) "rel c1 a1" | (bad) d1 d2 where "cstep\<^sup>*\<^sup>* c d1" "rel d1 a1" "bad d1 a1 d2" "cstep d1 d2" "cstep\<^sup>*\<^sup>* d2 c1"
    by blast
  then show ?case
  proof cases
    case rel
    then consider "rel c2 a1" | a2 where "astep a1 a2" "rel c2 a2" | "bad c1 a1 c2" using sim [OF _ step(2)] by blast
    then show ?thesis
    proof cases
      case 2
      then show ?thesis using rtranclp.rtrancl_into_rtrancl [OF a1(1)] by blast
    qed (use a1(1) rel step(1,2) in blast)+
  next
    case bad
    then show ?thesis using a1(1) rtranclp.rtrancl_into_rtrancl [OF bad(5) step(2)] by blast
  qed
qed

end

text \<open>A simulation in which the unmatched steps decrease a well-founded order.\<close>

locale stuttering = simulation +
  fixes less :: "('c \<times> 'c) set"
  assumes wf_less: "wf less"
    and sim_less: "rel c a \<Longrightarrow> cstep c c' \<Longrightarrow> rel c' a \<and> (c', c) \<in> less \<or> (\<exists>a'. astep a a' \<and> rel c' a') \<or> bad c a c'"
begin

text \<open>When every step of the other system lowers a rank, the runs are finite.\<close>

lemma runs_end:
  fixes rank :: "'a \<Rightarrow> nat"
  assumes down: "\<And>a a'. astep a a' \<Longrightarrow> rank a' < rank a"
    and "rel c a" and "\<And>c1 a1 c2. cstep\<^sup>*\<^sup>* c c1 \<Longrightarrow> astep\<^sup>*\<^sup>* a a1 \<Longrightarrow> rel c1 a1 \<Longrightarrow> cstep c1 c2 \<Longrightarrow> \<not> bad c1 a1 c2"
  shows "Wellfounded.accp cstep\<inverse>\<inverse> c"
  using assms(2,3)
proof (induction "(rank a, c)" arbitrary: a c rule: wf_induct_rule [OF wf_lex_prod [OF wf_less_than wf_less]])
  case 1
  show ?case
  proof (rule accp.accI)
    fix c' assume "cstep\<inverse>\<inverse> c' c"
    then have st: "cstep c c'" by simp
    note hyp = 1(1) and safe = 1(3)
    have later: "\<not> bad c1 a1 c2" if "cstep\<^sup>*\<^sup>* c' c1" "astep\<^sup>*\<^sup>* a a1" "rel c1 a1" "cstep c1 c2" for c1 a1 c2
      using safe [OF converse_rtranclp_into_rtranclp [OF st that(1)] that(2-4)] .
    consider "rel c' a" "(c', c) \<in> less" | a' where "astep a a'" "rel c' a'"
      using sim_less [OF 1(2) st] safe [OF rtranclp.rtrancl_refl rtranclp.rtrancl_refl 1(2) st] by blast
    then show "Wellfounded.accp cstep\<inverse>\<inverse> c'"
    proof cases
      case 1
      then show ?thesis using later by (intro hyp) auto
    next
      case 2
      then have "((rank a', c'), (rank a, c)) \<in> less_than <*lex*> less" using down by simp
      from hyp [OF this 2(2)] safe converse_rtranclp_into_rtranclp [of cstep, OF st] converse_rtranclp_into_rtranclp [of astep, OF 2(1)] show ?thesis by blast
    qed
  qed
qed

end

lemma accp_no_chain:
  assumes "Wellfounded.accp R\<inverse>\<inverse> x"
  shows "\<not> (\<exists>f. f 0 = x \<and> (\<forall>n. R (f n) (f (Suc n))))"
  using assms
proof (induction rule: accp.induct)
  case (accI x)
  show ?case
  proof
    assume "\<exists>f. f 0 = x \<and> (\<forall>n. R (f n) (f (Suc n)))"
    then obtain f where f: "f 0 = x" "\<And>n. R (f n) (f (Suc n))" by blast
    then have "\<exists>g. g 0 = f 1 \<and> (\<forall>n. R (g n) (g (Suc n)))" by (intro exI [of _ "\<lambda>n. f (Suc n)"]) auto
    then show False using accI.IH [of "f 1"] f(1) f(2) [of 0] by auto
  qed
qed

end
