(* ===== verification/Driver_Interleave.thy ===== *)
theory Driver_Interleave
  imports Driver_Steps Simulation
begin

text \<open>
  Any number of processes that use the device at the same time, interleaved step by step
  (\<open>user_step\<close>), and the same processes with every call executed in one step (\<open>atomic_step\<close>), which is
  what the handlers of \<open>Aesd_Driver\<close> are proved for. The first system is simulated by the second: a
  call takes effect when it releases the mutex, or when it returns without having taken it.
\<close>

section \<open>The processes\<close>

text \<open>A process is in user space (\<open>None\<close>) or at a point of a handler; it has the answers to its calls so far.\<close>

record 'u task =
  tcaller :: "'u caller"
  tpoint :: "dpc option"
  answers :: "answer list"

record 'u users =
  udev :: drv
  tasks :: "'u task list"

text \<open>
  The programs: what process \<open>i\<close> calls next, if anything, after the answers it got and with the
  contents of its memory; it may change its memory before the call.
\<close>

type_synonym 'u plan = "nat \<Rightarrow> answer list \<Rightarrow> 'u \<Rightarrow> ('u \<times> syscall) option"

abbreviation next_call :: "'u plan \<Rightarrow> nat \<Rightarrow> 'u task \<Rightarrow> ('u \<times> syscall) option" where
  "next_call plan i t \<equiv> plan i (answers t) (cmem (tcaller t))"

definition arrive :: "'u task \<Rightarrow> 'u caller \<Rightarrow> dpc \<Rightarrow> 'u task" where
  "arrive t c pc =
     (case returned pc of
        Some r \<Rightarrow> \<lparr>tcaller = c, tpoint = None, answers = answers t @ [r]\<rparr>
      | None \<Rightarrow> \<lparr>tcaller = c, tpoint = Some pc, answers = answers t\<rparr>)"

definition set_task :: "'u users \<Rightarrow> nat \<Rightarrow> 'u task \<Rightarrow> drv \<Rightarrow> 'u users" where
  "set_task U i t s = \<lparr>udev = s, tasks = (tasks U)[i := t]\<rparr>"

inductive user_step :: "'u kernel \<Rightarrow> 'u plan \<Rightarrow> 'u users \<Rightarrow> 'u users \<Rightarrow> bool" for K plan where
  call: "i < length (tasks U) \<Longrightarrow> tpoint (tasks U ! i) = None \<Longrightarrow> next_call plan i (tasks U ! i) = Some (u, call) \<Longrightarrow>
    user_step K plan U (set_task U i (arrive (tasks U ! i) ((tcaller (tasks U ! i))\<lparr>cmem := u\<rparr>) (enter call)) (udev U))"
| run: "i < length (tasks U) \<Longrightarrow> tpoint (tasks U ! i) = Some pc \<Longrightarrow>
    dev_step K pc (tcaller (tasks U ! i)) (udev U) = Some (Done (c, s, pc')) \<Longrightarrow>
    user_step K plan U (set_task U i (arrive (tasks U ! i) c pc') s)"

inductive atomic_step :: "'u kernel \<Rightarrow> 'u plan \<Rightarrow> 'u users \<Rightarrow> 'u users \<Rightarrow> bool" for K plan where
  "i < length (tasks S) \<Longrightarrow> tpoint (tasks S ! i) = None \<Longrightarrow> next_call plan i (tasks S ! i) = Some (u, call) \<Longrightarrow>
    whole_call K call ((tcaller (tasks S ! i))\<lparr>cmem := u\<rparr>) (udev S) = Some (Done (c, s, r)) \<Longrightarrow>
    atomic_step K plan S (set_task S i (arrive (tasks S ! i) c (Return r)) s)"

inductive_cases user_step_cases: "user_step K plan U U'"
inductive_cases atomic_step_cases: "atomic_step K plan S S'"

lemma set_task_sel [simp]:
  "udev (set_task U i t s) = s" "length (tasks (set_task U i t s)) = length (tasks U)"
  "j \<noteq> i \<Longrightarrow> tasks (set_task U i t s) ! j = tasks U ! j" "i < length (tasks U) \<Longrightarrow> tasks (set_task U i t s) ! i = t"
  by (simp_all add: set_task_def)

lemma arrive_sel [simp]:
  "tcaller (arrive t c pc) = c" "tpoint (arrive t c (Return r)) = None" "answers (arrive t c (Return r)) = answers t @ [r]"
  "returned pc = None \<Longrightarrow> tpoint (arrive t c pc) = Some pc" "returned pc = None \<Longrightarrow> answers (arrive t c pc) = answers t"
  by (cases "returned pc") (simp_all add: arrive_def)

section \<open>The parts of a call\<close>

datatype part = Before | Within | After

fun part_of :: "dpc \<Rightarrow> part" where
  "part_of (Read_lock buf cnt) = Before"
| "part_of (Write_lock buf cnt) = Before"
| "part_of (Llseek_lock off w) = Before"
| "part_of (Ioctl_entry cmd arg) = Before"
| "part_of (Ioctl_lock sk) = Before"
| "part_of (Llseek_seek off w n) = After"
| "part_of (Ioctl_set p) = After"
| "part_of (Return r) = After"
| "part_of pc = Within"

lemma part_enter [simp]: "part_of (enter call) = Before" "returned (enter call) = None"
  by (cases call; simp)+

lemma part_returned: "part_of pc \<noteq> After \<Longrightarrow> returned pc = None"
  by (cases pc) simp_all

text \<open>A step before the mutex is taken does not look at the device, or takes the mutex.\<close>

lemma step_before:
  assumes "dev_step K pc c s = Some (Done (c', s', pc'))" and "part_of pc = Before"
  shows "s' = s \<and> (\<forall>s1. dev_step K pc c s1 = Some (Done (c', s1, pc'))) \<and> (part_of pc' = Before \<or> (\<exists>r. pc' = Return r)) \<or>
    \<not> locked s \<and> s' = lock_dev s \<and> part_of pc' = Within"
  using assms by (cases pc) (auto simp: take_lock_def split: if_splits prod.splits bind_splits)

lemma locked_reserve: "aesd_write_reserve K s cnt = Some (s', ok) \<Longrightarrow> locked s' = locked s"
  by (auto simp: aesd_write_reserve_def realloc_block_def Let_def split: if_splits prod.splits)

lemma locked_commit: "aesd_write_commit K s = Some (s', ok) \<Longrightarrow> locked s' = locked s"
  by (auto simp: aesd_write_commit_def Let_def split: if_splits prod.splits option.splits bind_splits)

lemma step_within:
  assumes "dev_step K pc c s = Some (Done (c', s', pc'))" and "part_of pc = Within"
  shows "part_of pc' = Within \<and> locked s' = locked s \<or> part_of pc' = After"
  using assms
  by (cases pc) (auto simp: Let_def locked_reserve locked_commit split: if_splits prod.splits bind_splits option.splits)

text \<open>After the mutex is released a call touches only the file of its caller.\<close>

lemma step_after:
  assumes "dev_step K pc c s = Some (Done (c', s', pc'))" and "part_of pc = After"
  shows "s' = s" and "\<exists>r. pc' = Return r"
  using assms by (cases pc; auto split: prod.splits)+

lemma finish_after: "part_of pc = After \<Longrightarrow> \<exists>c' r. \<forall>s. finish K pc c s = Some (Done (c', s, r))"
  by (cases pc) (auto simp: finish_step case_prod_beta)

lemma blocked_step: "dev_step K pc c s = Some Blocks \<Longrightarrow> part_of pc = Before \<and> locked s"
  by (cases pc) (auto simp: take_lock_def Let_def split: if_splits prod.splits bind_splits option.splits)

section \<open>Simulation\<close>

text \<open>
  Task \<open>t\<close>, on the device \<open>s\<close>, and its counterpart \<open>t'\<close> with atomic calls, on \<open>s'\<close>. Before and within its section the
  call of \<open>t\<close> is still to come for \<open>t'\<close>, and what is left of it gives the result of the whole call; after its
  section the call is done for \<open>t'\<close>.
\<close>

definition task_ok :: "'u kernel \<Rightarrow> 'u plan \<Rightarrow> nat \<Rightarrow> drv \<Rightarrow> drv \<Rightarrow> 'u task \<Rightarrow> 'u task \<Rightarrow> bool" where
  "task_ok K plan i s s' t t' \<longleftrightarrow> tpoint t' = None \<and>
     (case tpoint t of
        None \<Rightarrow> t = t'
      | Some pc \<Rightarrow>
          if part_of pc = After then
            \<exists>c r. (\<forall>s1. finish K pc (tcaller t) s1 = Some (Done (c, s1, r))) \<and> t' = arrive t c (Return r)
          else answers t' = answers t \<and>
            (\<exists>u call. next_call plan i t' = Some (u, call) \<and>
               (if part_of pc = Before
                then \<forall>s1. finish K pc (tcaller t) s1 = whole_call K call ((tcaller t')\<lparr>cmem := u\<rparr>) s1
                else finish K pc (tcaller t) s = whole_call K call ((tcaller t')\<lparr>cmem := u\<rparr>) s')))"

definition within :: "'u task \<Rightarrow> bool" where
  "within t \<longleftrightarrow> (case tpoint t of None \<Rightarrow> False | Some pc \<Rightarrow> part_of pc = Within)"

definition implements :: "'u kernel \<Rightarrow> 'u plan \<Rightarrow> 'u users \<Rightarrow> 'u users \<Rightarrow> bool" where
  "implements K plan U S \<longleftrightarrow> length (tasks S) = length (tasks U) \<and>
     (\<forall>i < length (tasks U). task_ok K plan i (udev U) (udev S) (tasks U ! i) (tasks S ! i)) \<and>
     (\<forall>i < length (tasks U). \<forall>j < length (tasks U). within (tasks U ! i) \<and> within (tasks U ! j) \<longrightarrow> i = j) \<and>
     (if \<exists>t \<in> set (tasks U). within t then locked (udev U) \<and> \<not> locked (udev S) else udev U = udev S)"

lemma implementsD:
  assumes "implements K plan U S" and "i < length (tasks U)"
  shows "length (tasks S) = length (tasks U)" and "task_ok K plan i (udev U) (udev S) (tasks U ! i) (tasks S ! i)"
    and "j < length (tasks U) \<Longrightarrow> within (tasks U ! i) \<Longrightarrow> within (tasks U ! j) \<Longrightarrow> j = i"
    and "within (tasks U ! i) \<Longrightarrow> locked (udev U) \<and> \<not> locked (udev S)"
    and "\<forall>j < length (tasks U). \<not> within (tasks U ! j) \<Longrightarrow> udev U = udev S"
proof -
  note m = assms(1) [unfolded implements_def]
  show "length (tasks S) = length (tasks U)" "task_ok K plan i (udev U) (udev S) (tasks U ! i) (tasks S ! i)"
    using m assms(2) by simp_all
  show "j = i" if "j < length (tasks U)" "within (tasks U ! i)" "within (tasks U ! j)" using m assms(2) that by blast
  show "locked (udev U) \<and> \<not> locked (udev S)" if "within (tasks U ! i)"
  proof -
    have "\<exists>t \<in> set (tasks U). within t" using that nth_mem [OF assms(2)] by blast
    then show ?thesis using m by simp
  qed
  show "udev U = udev S" if "\<forall>j < length (tasks U). \<not> within (tasks U ! j)"
  proof -
    have "\<not> (\<exists>t \<in> set (tasks U). within t)" using that by (metis in_set_conv_nth)
    then show ?thesis using m by simp
  qed
qed

text \<open>A task does not notice a step of another one while it is outside, or while the device stays the same.\<close>

lemma task_ok_other:
  "task_ok K plan i s s' t t' \<Longrightarrow> (within t \<Longrightarrow> s1 = s \<and> s1' = s') \<Longrightarrow> task_ok K plan i s1 s1' t t'"
  by (cases "tpoint t"; cases "part_of (the (tpoint t))") (auto simp: task_ok_def within_def)

lemma implements_set:
  assumes m: "implements K plan U S" and i: "i < length (tasks U)"
    and S: "length (tasks S') = length (tasks S)" "\<And>j. j \<noteq> i \<Longrightarrow> tasks S' ! j = tasks S ! j"
    and ok: "task_ok K plan i s (udev S') t (tasks S' ! i)"
    and others: "\<And>j. j < length (tasks U) \<Longrightarrow> j \<noteq> i \<Longrightarrow> within (tasks U ! j) \<Longrightarrow> s = udev U \<and> udev S' = udev S \<and> \<not> within t"
    and self: "within t \<Longrightarrow> locked s \<and> \<not> locked (udev S')"
    and free: "\<not> within t \<Longrightarrow> (\<And>j. j < length (tasks U) \<Longrightarrow> j \<noteq> i \<Longrightarrow> \<not> within (tasks U ! j)) \<Longrightarrow> s = udev S'"
  shows "implements K plan (set_task U i t s) S'"
proof -
  let ?U = "set_task U i t s"
  have len: "length (tasks S) = length (tasks U)" using implementsD(1) [OF m i] .
  have tasks_ok: "task_ok K plan j s (udev S') (tasks ?U ! j) (tasks S' ! j)" if "j < length (tasks U)" for j
  proof (cases "j = i")
    case False
    then show ?thesis using task_ok_other [OF implementsD(2) [OF m that]] others [OF that False] S(2) by simp
  qed (use ok i in simp)
  have one: "j = k" if "j < length (tasks U)" "k < length (tasks U)" "within (tasks ?U ! j)" "within (tasks ?U ! k)" for j k
    using that others [of j] others [of k] implementsD(3) [OF m that(2), of j] i by (cases "j = i"; cases "k = i") auto
  have locks: "if \<exists>t \<in> set (tasks ?U). within t then locked s \<and> \<not> locked (udev S') else s = udev S'"
  proof (cases "\<exists>t \<in> set (tasks ?U). within t")
    case True
    then obtain j where j: "j < length (tasks U)" "within (tasks ?U ! j)" by (auto simp: in_set_conv_nth)
    then show ?thesis using self others [of j] implementsD(4) [OF m j(1)] i True by (cases "j = i") auto
  next
    case False
    have "\<not> within (tasks ?U ! j)" if "j < length (tasks U)" for j
      using False nth_mem [of j "tasks ?U"] that by auto
    then have "\<not> within t" "\<And>j. j < length (tasks U) \<Longrightarrow> j \<noteq> i \<Longrightarrow> \<not> within (tasks U ! j)"
      using i set_task_sel(3,4) by metis+
    then show ?thesis using free False by simp
  qed
  show ?thesis unfolding implements_def using len S(1) tasks_ok one locks by simp
qed

text \<open>The step of the counterpart.\<close>

lemma atomic_now:
  assumes "implements K plan U S" and "i < length (tasks U)" and "tpoint (tasks U ! i) = Some pc" and "part_of pc \<noteq> After"
    and "finish K pc (tcaller (tasks U ! i)) (if part_of pc = Before then udev S else udev U) = Some (Done (c, s, r))"
  shows "atomic_step K plan S (set_task S i (arrive (tasks S ! i) c (Return r)) s)"
    and "answers (tasks S ! i) = answers (tasks U ! i)"
proof -
  have t: "tpoint (tasks S ! i) = None" "answers (tasks S ! i) = answers (tasks U ! i)"
    "\<exists>u call. next_call plan i (tasks S ! i) = Some (u, call) \<and>
       whole_call K call ((tcaller (tasks S ! i))\<lparr>cmem := u\<rparr>) (udev S) = Some (Done (c, s, r))"
    using implementsD(2) [OF assms(1,2)] assms(3-5) by (auto simp: task_ok_def split: if_splits)
  then show "answers (tasks S ! i) = answers (tasks U ! i)" by simp
  show "atomic_step K plan S (set_task S i (arrive (tasks S ! i) c (Return r)) s)"
    using t assms(2) implementsD(1) [OF assms(1,2)] by (auto intro: atomic_step.intros)
qed

text \<open>A process enters a handler.\<close>

lemma sim_call:
  assumes m: "implements K plan U S" and i: "i < length (tasks U)" and t: "tpoint (tasks U ! i) = None"
    and n: "next_call plan i (tasks U ! i) = Some (u, call)"
  shows "implements K plan (set_task U i (arrive (tasks U ! i) ((tcaller (tasks U ! i))\<lparr>cmem := u\<rparr>) (enter call)) (udev U)) S"
proof (rule implements_set [OF m i])
  let ?t = "arrive (tasks U ! i) ((tcaller (tasks U ! i))\<lparr>cmem := u\<rparr>) (enter call)"
  have same: "tasks U ! i = tasks S ! i" using implementsD(2) [OF m i] t by (simp add: task_ok_def)
  show "task_ok K plan i (udev U) (udev S) ?t (tasks S ! i)"
    using t n same by (simp add: task_ok_def finish_enter)
  have out: "\<not> within ?t" "\<not> within (tasks U ! i)" using t by (simp_all add: within_def)
  then show "udev U = udev U \<and> udev S = udev S \<and> \<not> within ?t" by simp
  show "udev U = udev S" if "\<And>j. j < length (tasks U) \<Longrightarrow> j \<noteq> i \<Longrightarrow> \<not> within (tasks U ! j)"
    using implementsD(5) [OF m i] that out by metis
qed (simp_all add: within_def)

text \<open>A call takes effect with its step from \<open>pc\<close> to \<open>pc'\<close>, which is after its section.\<close>

lemma sim_effect:
  assumes m: "implements K plan U S" and i: "i < length (tasks U)" and t: "tpoint (tasks U ! i) = Some pc" "part_of pc \<noteq> After"
    and st: "dev_step K pc (tcaller (tasks U ! i)) (if part_of pc = Before then udev S else udev U) = Some (Done (c, s', pc'))"
    and pc': "part_of pc' = After"
    and s: "part_of pc = Before \<Longrightarrow> s = udev U \<and> s' = udev S" "part_of pc = Within \<Longrightarrow> s' = s"
  shows "\<exists>S'. atomic_step K plan S S' \<and> implements K plan (set_task U i (arrive (tasks U ! i) c pc') s) S'"
proof -
  obtain c' r where fin: "\<And>s1. finish K pc' c s1 = Some (Done (c', s1, r))" using finish_after [OF pc'] by metis
  let ?t = "arrive (tasks U ! i) c pc'" and ?S = "set_task S i (arrive (tasks S ! i) c' (Return r)) s'"
  have len: "length (tasks S) = length (tasks U)" using implementsD(1) [OF m i] .
  have "finish K pc (tcaller (tasks U ! i)) (if part_of pc = Before then udev S else udev U) = Some (Done (c', s', r))"
    using finish_next [OF st] fin by simp
  note a = atomic_now [OF m i t this]
  have out: "\<not> within ?t" using pc' by (cases "returned pc'") (simp_all add: within_def arrive_def)
  have eq: "arrive (tasks S ! i) c' (Return r) = arrive ?t c' (Return r)" if "returned pc' = None"
    using a(2) that by (simp add: arrive_def)
  have "implements K plan (set_task U i ?t s) ?S"
  proof (rule implements_set [OF m i])
    show "task_ok K plan i s (udev ?S) ?t (tasks ?S ! i)"
    proof (cases "returned pc'")
      case None
      then show ?thesis using pc' fin i len eq by (auto simp: task_ok_def)
    next
      case (Some r')
      then have "pc' = Return r'" by (rule returnedD)
      then show ?thesis using fin [of s] i len a(2) by (simp add: task_ok_def arrive_def)
    qed
    fix j assume j: "j < length (tasks U)" "j \<noteq> i" "within (tasks U ! j)"
    then have "part_of pc \<noteq> Within" using implementsD(3) [OF m j(1) i] t by (auto simp: within_def)
    then show "s = udev U \<and> udev ?S = udev S \<and> \<not> within ?t" using s(1) t(2) out by (cases "part_of pc") auto
  next
    assume none: "\<And>j. j < length (tasks U) \<Longrightarrow> j \<noteq> i \<Longrightarrow> \<not> within (tasks U ! j)"
    show "s = udev ?S"
    proof (cases "part_of pc")
      case Before
      then have "\<not> within (tasks U ! i)" using t(1) by (simp add: within_def)
      then show ?thesis using s(1) [OF Before] implementsD(5) [OF m i] none by (metis set_task_sel(1))
    qed (use s t in simp_all)
  qed (use out in simp_all)
  then show ?thesis using a(1) by blast
qed

text \<open>A step within a call.\<close>

lemma sim_run:
  assumes m: "implements K plan U S" and i: "i < length (tasks U)" and t: "tpoint (tasks U ! i) = Some pc"
    and st: "dev_step K pc (tcaller (tasks U ! i)) (udev U) = Some (Done (c, s, pc'))"
  shows "implements K plan (set_task U i (arrive (tasks U ! i) c pc') s) S \<or>
    (\<exists>S'. atomic_step K plan S S' \<and> implements K plan (set_task U i (arrive (tasks U ! i) c pc') s) S')"
proof -
  let ?t = "arrive (tasks U ! i) c pc'"
  note ok = implementsD(2) [OF m i, unfolded task_ok_def t, simplified]
  consider (enter) "part_of pc = Before" "s = udev U" "\<forall>s1. dev_step K pc (tcaller (tasks U ! i)) s1 = Some (Done (c, s1, pc'))"
      "part_of pc' = Before \<or> (\<exists>r. pc' = Return r)"
    | (lock) "part_of pc = Before" "\<not> locked (udev U)" "s = lock_dev (udev U)" "part_of pc' = Within"
    | (inside) "part_of pc = Within" "part_of pc' = Within" "locked s = locked (udev U)"
    | (leave) "part_of pc = Within" "part_of pc' = After"
    | (after) r where "part_of pc = After" "s = udev U" "pc' = Return r"
    using step_before [OF st] step_within [OF st] step_after [OF st] by (cases "part_of pc") auto
  then show ?thesis
  proof cases
    case enter
    then have out: "\<not> within (tasks U ! i)" using t by (simp add: within_def)
    from enter(4) show ?thesis
    proof
      assume b: "part_of pc' = Before"
      then have r: "returned pc' = None" by (simp add: part_returned)
      have "implements K plan (set_task U i ?t s) S"
      proof (rule implements_set [OF m i])
        have "finish K pc' c s1 = finish K pc (tcaller (tasks U ! i)) s1" for s1 using enter(3) finish_next by metis
        then show "task_ok K plan i s (udev S) ?t (tasks S ! i)" using ok enter(1) b r by (auto simp: task_ok_def)
        show "s = udev S" if "\<And>j. j < length (tasks U) \<Longrightarrow> j \<noteq> i \<Longrightarrow> \<not> within (tasks U ! j)"
          using implementsD(5) [OF m i] that out enter(2) by metis
      qed (use r b enter(2) in \<open>simp_all add: within_def\<close>)
      then show ?thesis ..
    next
      assume "\<exists>r. pc' = Return r"
      then show ?thesis using sim_effect [OF m i t _ _ _, of c "udev S" pc' s] enter by auto
    qed
  next
    case lock
    have r: "returned pc' = None" using lock(4) by (simp add: part_returned)
    have free: "\<not> within (tasks U ! j)" if "j < length (tasks U)" for j using implementsD(4) [OF m that] lock(2) by blast
    then have dev: "udev U = udev S" using implementsD(5) [OF m i] by blast
    have "implements K plan (set_task U i ?t s) S"
    proof (rule implements_set [OF m i])
      show "task_ok K plan i s (udev S) ?t (tasks S ! i)"
        using ok lock(1,4) r finish_next [OF st] dev by (auto simp: task_ok_def)
    qed (use free dev lock r in \<open>auto simp: within_def\<close>)
    then show ?thesis ..
  next
    case inside
    have r: "returned pc' = None" using inside(2) by (simp add: part_returned)
    have w: "within (tasks U ! i)" using t inside(1) by (simp add: within_def)
    have "implements K plan (set_task U i ?t s) S"
    proof (rule implements_set [OF m i])
      show "task_ok K plan i s (udev S) ?t (tasks S ! i)"
        using ok inside r finish_next [OF st] by (auto simp: task_ok_def)
    qed (use implementsD(3,4) [OF m i] w inside(2,3) r in \<open>auto simp: within_def\<close>)
    then show ?thesis ..
  next
    case leave
    then show ?thesis using sim_effect [OF m i t _ _ leave(2), of c s s] st by simp
  next
    case after
    obtain c' r' where f: "\<And>s1. finish K pc (tcaller (tasks U ! i)) s1 = Some (Done (c', s1, r'))" "tasks S ! i = arrive (tasks U ! i) c' (Return r')"
      using ok after(1) by auto
    have "finish K pc (tcaller (tasks U ! i)) (udev U) = Some (Done (c, s, r))" using finish_next [OF st] after(3) by simp
    then have "?t = tasks S ! i" using f after(3) by simp
    moreover have "tpoint ?t = None" using after(3) by simp
    ultimately have new: "tpoint ?t = None" "task_ok K plan i s (udev S) ?t (tasks S ! i)" by (simp_all add: task_ok_def)
    have out: "\<not> within (tasks U ! i)" using t after(1) by (simp add: within_def)
    have "implements K plan (set_task U i ?t s) S"
    proof (rule implements_set [OF m i])
      show "s = udev S" if "\<And>j. j < length (tasks U) \<Longrightarrow> j \<noteq> i \<Longrightarrow> \<not> within (tasks U ! j)"
        using implementsD(5) [OF m i] that out after(2) by metis
    qed (use new after(2) in \<open>simp_all add: within_def\<close>)
    then show ?thesis ..
  qed
qed

lemma user_step_sim:
  assumes "implements K plan U S" and "user_step K plan U U'"
  shows "implements K plan U' S \<or> (\<exists>S'. atomic_step K plan S S' \<and> implements K plan U' S')"
  using assms(2)
proof (cases rule: user_step.cases)
  case (call i u call)
  then show ?thesis using sim_call [OF assms(1) call(2-4)] by simp
next
  case (run i pc c s pc')
  then show ?thesis using sim_run [OF assms(1) run(2-4)] by simp
qed

interpretation callers: simulation "user_step K plan" "atomic_step K plan" "implements K plan" "\<lambda>U S U'. False" for K plan
  by unfold_locales (use user_step_sim in blast)

section \<open>Invariant\<close>

text \<open>What the callers and the kernel guarantee: a write is shorter than \<open>2^63\<close> bytes; \<open>fixed_size_llseek\<close> only moves the position.\<close>

definition plan_ok :: "'u plan \<Rightarrow> bool" where
  "plan_ok plan \<longleftrightarrow> (\<forall>i as u u' buf cnt. plan i as u = Some (u', Sys_write buf cnt) \<longrightarrow> unat cnt < 2 ^ 63)"

definition seek_keeps_file :: "'u kernel \<Rightarrow> bool" where
  "seek_keeps_file K \<longleftrightarrow> (\<forall>f off w eof. private_data (fst (fixed_size_llseek K f off w eof)) = private_data f)"

definition users_ok :: "heap \<Rightarrow> 'u users \<Rightarrow> bool" where
  "users_ok F S \<longleftrightarrow> drv_inv F (udev S) \<and> (\<forall>t \<in> set (tasks S). private_data (cfile (tcaller t)) \<noteq> None)"

fun small_call :: "syscall \<Rightarrow> bool" where
  "small_call (Sys_write buf cnt) \<longleftrightarrow> unat cnt < 2 ^ 63"
| "small_call call \<longleftrightarrow> True"

lemma plan_small: "plan_ok plan \<Longrightarrow> plan i as u = Some (u', call) \<Longrightarrow> small_call call"
  by (cases call) (auto simp: plan_ok_def)

lemma map_run_eq_Done: "map_run f x = Done y \<longleftrightarrow> (\<exists>z. x = Done z \<and> y = f z)"
  by (cases x) auto

lemma blocked_call: "whole_call K call c s = Some Blocks \<Longrightarrow> locked s"
  by (cases call)
    (auto simp: handler_defs Let_def split: if_splits prod.splits bind_splits option.splits)

lemma whole_call_defined:
  assumes "memory_ok K" and inv: "drv_inv F s" and dev: "private_data (cfile c) \<noteq> None" and "small_call call"
  shows "whole_call K call c s \<noteq> None"
proof -
  obtain d where d: "private_data (cfile c) = Some d" using dev by blast
  show ?thesis
  proof (cases "locked s")
    case True
    then show ?thesis using d by (cases call) (auto simp: handler_defs split: prod.split)
  next
    case False
    show ?thesis
    proof (cases call)
      case (Sys_read buf cnt)
      then show ?thesis using aesd_read_eq [OF inv False d, of K "cmem c"] by (simp add: whole_call_def)
    next
      case (Sys_write buf cnt)
      obtain bs left where cfu: "copy_from_user K (cmem c) buf cnt = (bs, left)" by fastforce
      have "unat cnt < 2 ^ 63" using assms(4) Sys_write by simp
      from assms(1) inv False d this cfu show ?thesis
        by (cases rule: aesd_write_cases [where pos = "f_pos (cfile c)"]) (simp_all add: whole_call_def Sys_write)
    next
      case (Sys_llseek off w)
      then show ?thesis using aesd_llseek_eq [OF inv False d, of K] by (simp add: whole_call_def)
    next
      case (Sys_ioctl cmd arg)
      obtain sk left where "copy_seekto_from_user K (cmem c) arg = (sk, left)" by fastforce
      then show ?thesis using aesd_ioctl_eq [OF inv False d, of cmd K "cmem c" arg sk] Sys_ioctl
        by (cases "left = 0") (auto simp: whole_call_def aesd_unlocked_ioctl_def split: if_splits)
    qed
  qed
qed

lemma whole_call_keeps:
  assumes K: "memory_ok K" "seek_keeps_file K" and inv: "drv_inv F s" and dev: "private_data (cfile c) \<noteq> None"
    and "small_call call" and run: "whole_call K call c s = Some (Done (c', s', r))"
  shows "drv_inv F s'" and "private_data (cfile c') \<noteq> None" and "locked s' \<Longrightarrow> locked s \<or> r = Inl EINVAL"
proof -
  obtain d where d: "private_data (cfile c) = Some d" using dev by blast
  have "drv_inv F s' \<and> private_data (cfile c') \<noteq> None \<and> (locked s' \<longrightarrow> locked s \<or> r = Inl EINVAL)"
  proof (cases call)
    case (Sys_read buf cnt)
    then obtain u pos where f: "aesd_read K (cmem c) s (cfile c) buf cnt (f_pos (cfile c)) = Some (Done (u, s', pos, r))"
        "c' = set_pos pos (c\<lparr>cmem := u\<rparr>)" using run by (auto simp: whole_call_def map_run_eq_Done)
    then show ?thesis using read_keeps [OF inv d f(1)] inv d by simp
  next
    case (Sys_write buf cnt)
    then obtain pos where "aesd_write K (cmem c) s (cfile c) buf cnt (f_pos (cfile c)) = Some (Done (s', pos, r))"
        "c' = set_pos pos c" using run by (auto simp: whole_call_def map_run_eq_Done)
    then show ?thesis using write_keeps [OF K(1) inv d] assms(5) Sys_write d by auto
  next
    case (Sys_llseek off w)
    then obtain filp where f: "aesd_llseek K s (cfile c) off w = Some (Done (s', filp, r))" "c' = c\<lparr>cfile := filp\<rparr>"
      using run by (auto simp: whole_call_def map_run_eq_Done)
    then have "private_data filp = private_data (cfile c)"
      using K(2) by (auto simp: aesd_llseek_def seek_keeps_file_def Let_def split: bind_splits if_splits prod.splits) (metis fst_conv)
    then show ?thesis using llseek_keeps [OF inv d f(1)] f(2) inv d by simp
  next
    case (Sys_ioctl cmd arg)
    then obtain filp where f: "aesd_unlocked_ioctl K (cmem c) s (cfile c) cmd arg = Some (Done (s', filp, r))" "c' = c\<lparr>cfile := filp\<rparr>"
      using run by (auto simp: whole_call_def map_run_eq_Done)
    then have "private_data filp = private_data (cfile c)"
      by (auto simp: aesd_unlocked_ioctl_def Let_def split: bind_splits if_splits prod.splits)
    then show ?thesis using ioctl_keeps [OF inv d f(1)] f(2) inv d by auto
  qed
  then show "drv_inv F s'" and "private_data (cfile c') \<noteq> None" and "locked s' \<Longrightarrow> locked s \<or> r = Inl EINVAL" by auto
qed

lemma in_set_updateD: "x \<in> set (xs[i := y]) \<Longrightarrow> x = y \<or> x \<in> set xs"
  using set_update_subset_insert [of xs i y] by blast

lemma atomic_step_ok:
  assumes K: "memory_ok K" "seek_keeps_file K" "plan_ok plan" and "atomic_step K plan S S'" and ok: "users_ok F S"
  shows "users_ok F S'"
    and "(locked (udev S) \<longrightarrow> (\<exists>t \<in> set (tasks S). Inl EINVAL \<in> set (answers t))) \<Longrightarrow>
      locked (udev S') \<Longrightarrow> \<exists>t \<in> set (tasks S'). Inl EINVAL \<in> set (answers t)"
proof -
  obtain i u call c s r where i: "i < length (tasks S)" "next_call plan i (tasks S ! i) = Some (u, call)"
      and run: "whole_call K call ((tcaller (tasks S ! i))\<lparr>cmem := u\<rparr>) (udev S) = Some (Done (c, s, r))"
      and S': "S' = set_task S i (arrive (tasks S ! i) c (Return r)) s"
    using assms(4) by (auto elim!: atomic_step_cases)
  have dev: "private_data (cfile ((tcaller (tasks S ! i))\<lparr>cmem := u\<rparr>)) \<noteq> None" and inv: "drv_inv F (udev S)"
    using ok i(1) by (auto simp: users_ok_def)
  note k = whole_call_keeps [OF K(1,2) inv dev plan_small [OF K(3) i(2)] run]
  show "users_ok F S'" using k(1,2) ok S' by (auto simp: users_ok_def set_task_def dest: in_set_updateD)
  assume l: "locked (udev S) \<longrightarrow> (\<exists>t \<in> set (tasks S). Inl EINVAL \<in> set (answers t))" and "locked (udev S')"
  then consider "locked (udev S)" | "r = Inl EINVAL" using k(3) S' by auto
  then show "\<exists>t \<in> set (tasks S'). Inl EINVAL \<in> set (answers t)"
  proof cases
    case 1
    then obtain j where j: "j < length (tasks S)" "Inl EINVAL \<in> set (answers (tasks S ! j))" using l by (metis in_set_conv_nth)
    then have "Inl EINVAL \<in> set (answers (tasks S' ! j))" using S' by (cases "j = i") auto
    then show ?thesis using j(1) S' by (metis nth_mem set_task_sel(2))
  next
    case 2
    then have "Inl EINVAL \<in> set (answers (tasks S' ! i))" using S' i(1) by simp
    then show ?thesis using i(1) S' by (metis nth_mem set_task_sel(2))
  qed
qed

lemma atomic_run_ok:
  assumes K: "memory_ok K" "seek_keeps_file K" "plan_ok plan" and "(atomic_step K plan)\<^sup>*\<^sup>* S0 S" and "users_ok F S0" and "\<not> locked (udev S0)"
  shows "users_ok F S \<and> (locked (udev S) \<longrightarrow> (\<exists>t \<in> set (tasks S). Inl EINVAL \<in> set (answers t)))"
  using assms(4)
proof (induction rule: rtranclp_induct)
  case base
  then show ?case using assms(5,6) by simp
next
  case (step S S')
  then show ?case using atomic_step_ok [OF K step(2)] by blast
qed

section \<open>Progress\<close>

lemma before_none: "part_of pc = Before \<Longrightarrow> dev_step K pc c s = None \<longleftrightarrow> dev_step K pc c s' = None"
  by (cases pc) (auto simp: take_lock_def split: bind_splits prod.splits)

lemma step_defined:
  assumes K: "memory_ok K" "plan_ok plan" and m: "implements K plan U S" and ok: "users_ok F S"
    and i: "i < length (tasks U)" and t: "tpoint (tasks U ! i) = Some pc"
  shows "dev_step K pc (tcaller (tasks U ! i)) (udev U) \<noteq> None"
    and "part_of pc \<noteq> Before \<Longrightarrow> \<exists>x. dev_step K pc (tcaller (tasks U ! i)) (udev U) = Some (Done x)"
proof -
  let ?c = "tcaller (tasks U ! i)"
  have whole: "whole_call K call ((tcaller (tasks S ! i))\<lparr>cmem := u\<rparr>) (udev S) \<noteq> None"
    if "next_call plan i (tasks S ! i) = Some (u, call)" for u call
  proof (rule whole_call_defined [OF K(1), where F = F])
    have "tasks S ! i \<in> set (tasks S)" using i implementsD(1) [OF m i] by simp
    then show "private_data (cfile ((tcaller (tasks S ! i))\<lparr>cmem := u\<rparr>)) \<noteq> None" "drv_inv F (udev S)"
      using ok by (auto simp: users_ok_def)
    show "small_call call" by (rule plan_small [OF K(2) that])
  qed
  note tk = implementsD(2) [OF m i, unfolded task_ok_def t, simplified]
  have "dev_step K pc ?c (udev U) \<noteq> None \<and> (part_of pc \<noteq> Before \<longrightarrow> (\<exists>x. dev_step K pc ?c (udev U) = Some (Done x)))"
  proof (cases "part_of pc")
    case Before
    then obtain u call where "next_call plan i (tasks S ! i) = Some (u, call)"
        "finish K pc ?c (udev S) = whole_call K call ((tcaller (tasks S ! i))\<lparr>cmem := u\<rparr>) (udev S)" using tk by auto
    then have "finish K pc ?c (udev S) \<noteq> None" using whole by simp
    then have "dev_step K pc ?c (udev S) \<noteq> None" using part_returned [of pc] Before
      by (cases "dev_step K pc ?c (udev S)") (simp_all add: finish_step)
    then show ?thesis using before_none [OF Before] Before by (metis part.distinct(1))
  next
    case Within
    then obtain u call where w: "next_call plan i (tasks S ! i) = Some (u, call)"
        "finish K pc ?c (udev U) = whole_call K call ((tcaller (tasks S ! i))\<lparr>cmem := u\<rparr>) (udev S)" using tk by auto
    have "\<not> locked (udev S)" using implementsD(4) [OF m i] t Within by (simp add: within_def)
    then obtain x where "finish K pc ?c (udev U) = Some (Done x)"
      using whole [OF w(1)] blocked_call w(2) by (metis not_None_eq run.exhaust)
    then obtain c' s' pc' where "dev_step K pc ?c (udev U) = Some (Done (c', s', pc'))"
      using finish_Done part_returned [of pc] Within by (metis part.distinct(5))
    then show ?thesis by simp
  next
    case After
    then show ?thesis by (cases pc) (auto split: prod.split)
  qed
  then show "dev_step K pc ?c (udev U) \<noteq> None"
    and "part_of pc \<noteq> Before \<Longrightarrow> \<exists>x. dev_step K pc ?c (udev U) = Some (Done x)" by blast+
qed

text \<open>
  Where no step is possible, every process has returned to user space, or the mutex is locked
  although no process is within a section.
\<close>

lemma stuck_users:
  assumes K: "memory_ok K" "plan_ok plan" and m: "implements K plan U S" and ok: "users_ok F S"
    and stuck: "\<nexists>U'. user_step K plan U U'"
  shows "(\<forall>i < length (tasks U). tpoint (tasks U ! i) = None \<and> next_call plan i (tasks U ! i) = None) \<or>
    locked (udev S) \<and> udev U = udev S \<and> (\<forall>i < length (tasks U). answers (tasks U ! i) = answers (tasks S ! i))"
proof -
  have no_run: "dev_step K pc (tcaller (tasks U ! i)) (udev U) \<noteq> Some (Done x)"
    if "i < length (tasks U)" "tpoint (tasks U ! i) = Some pc" for i pc x
    using stuck user_step.run [OF that, of K] by (cases x) blast
  have before: "part_of pc = Before \<and> locked (udev U)" if "i < length (tasks U)" "tpoint (tasks U ! i) = Some pc" for i pc
    using step_defined [OF K m ok that] no_run [OF that] blocked_step by (metis not_None_eq run.exhaust)
  show ?thesis
  proof (cases "\<forall>i < length (tasks U). tpoint (tasks U ! i) = None")
    case True
    have "next_call plan i (tasks U ! i) = None" if "i < length (tasks U)" for i
    proof (cases "next_call plan i (tasks U ! i)")
      case (Some x)
      then show ?thesis using stuck user_step.call [OF that, of plan] True that by (cases x) blast
    qed
    then show ?thesis using True by blast
  next
    case False
    then obtain i pc where i: "i < length (tasks U)" "tpoint (tasks U ! i) = Some pc" by auto
    have "\<not> within (tasks U ! j)" if "j < length (tasks U)" for j
      using before [OF that] by (cases "tpoint (tasks U ! j)") (auto simp: within_def)
    then have "udev U = udev S" using implementsD(5) [OF m i(1)] by blast
    moreover have "answers (tasks U ! j) = answers (tasks S ! j)" if "j < length (tasks U)" for j
      using before [OF that] implementsD(2) [OF m that] by (cases "tpoint (tasks U ! j)") (auto simp: task_ok_def split: if_splits)
    ultimately show ?thesis using before [OF i] by simp
  qed
qed

text \<open>The steps a process with at most \<open>N\<close> calls has left.\<close>

definition task_left :: "nat \<Rightarrow> 'u task \<Rightarrow> nat" where
  "task_left N t = (case tpoint t of
     None \<Rightarrow> 10 * (N - length (answers t)) | Some pc \<Rightarrow> 10 * (N - length (answers t) - 1) + Suc (rank pc))"

definition users_left :: "nat \<Rightarrow> 'u users \<Rightarrow> nat" where
  "users_left N U = (\<Sum>t \<leftarrow> tasks U. task_left N t)"

lemma users_left_set:
  assumes "i < length (tasks U)" and "task_left N t < task_left N (tasks U ! i)"
  shows "users_left N (set_task U i t s) < users_left N U"
proof -
  let ?xs = "map (task_left N) (tasks U)"
  have "?xs ! i \<le> sum_list ?xs" using assms(1) by (intro elem_le_sum_list) simp
  then show ?thesis using assms by (simp add: users_left_def set_task_def map_update sum_list_update)
qed

lemma rank_enter: "rank (enter call) \<le> 5"
  by (cases call) simp_all

lemma user_step_left:
  assumes bound: "\<And>i as u. N \<le> length as \<Longrightarrow> plan i as u = None" and "user_step K plan U U'"
  shows "users_left N U' < users_left N U"
  using assms(2)
proof (cases rule: user_step.cases)
  case (call i u call)
  have "length (answers (tasks U ! i)) < N" using bound call(4) by (metis not_less option.distinct(1))
  then have "task_left N (arrive (tasks U ! i) ((tcaller (tasks U ! i))\<lparr>cmem := u\<rparr>) (enter call)) < task_left N (tasks U ! i)"
    using call(3) rank_enter [of call] by (simp add: task_left_def)
  then show ?thesis using call(1) users_left_set [OF call(2)] by blast
next
  case (run i pc c s pc')
  have "task_left N (arrive (tasks U ! i) c pc') < task_left N (tasks U ! i)"
  proof (cases "returned pc'")
    case (Some r)
    then show ?thesis using run(3) by (auto simp: task_left_def dest!: returnedD)
  next
    case None
    have "returned pc = None" using run(4) None by (cases "returned pc") (auto dest!: returnedD)
    then show ?thesis using run(3) None rank_step [OF run(4)] by (simp add: task_left_def)
  qed
  then show ?thesis using run(1) users_left_set [OF run(2)] by blast
qed

section \<open>Atomic calls as interleavings\<close>

text \<open>The converse of the simulation: a process that is not interrupted does its call as one step.\<close>

lemma finish_run:
  assumes "finish K pc c s = Some (Done (c', s', r))" and "returned pc = None" and "i < length (tasks U)"
  shows "(user_step K plan)\<^sup>*\<^sup>* (set_task U i (arrive t c pc) s) (set_task U i (arrive t c' (Return r)) s')"
  using assms(1,2)
proof (induction "rank pc" arbitrary: pc c s rule: less_induct)
  case less
  obtain c1 s1 pc1 where st: "dev_step K pc c s = Some (Done (c1, s1, pc1))" using finish_Done [OF less(2,3)] by blast
  let ?U = "set_task U i (arrive t c pc) s" and ?U1 = "set_task U i (arrive t c1 pc1) s1"
  have same: "set_task ?U i (arrive (arrive t c pc) c1 pc1) s1 = ?U1"
    using less(3) by (simp add: set_task_def arrive_def split: option.split)
  have step: "user_step K plan ?U ?U1"
    using user_step.run [of i ?U pc K c1 s1 pc1 plan] assms(3) less(3) st same by simp
  show ?case
  proof (cases "returned pc1")
    case None
    have "finish K pc1 c1 s1 = Some (Done (c', s', r))" using less(2) finish_next [OF st] by simp
    from less(1) [OF rank_step [OF st less(3)] this None] step show ?thesis by (rule converse_rtranclp_into_rtranclp [rotated])
  next
    case (Some r1)
    then have "?U1 = set_task U i (arrive t c' (Return r)) s'" using less(2) finish_next [OF st] by (auto dest!: returnedD)
    then show ?thesis using step by (metis r_into_rtranclp)
  qed
qed

lemma atomic_run_steps:
  assumes "atomic_step K plan S S'"
  shows "(user_step K plan)\<^sup>*\<^sup>* S S'"
proof -
  obtain i u call c s r where i: "i < length (tasks S)" "tpoint (tasks S ! i) = None" "next_call plan i (tasks S ! i) = Some (u, call)"
      and run: "whole_call K call ((tcaller (tasks S ! i))\<lparr>cmem := u\<rparr>) (udev S) = Some (Done (c, s, r))"
      and S': "S' = set_task S i (arrive (tasks S ! i) c (Return r)) s"
    using assms by (auto elim!: atomic_step_cases)
  let ?S = "set_task S i (arrive (tasks S ! i) ((tcaller (tasks S ! i))\<lparr>cmem := u\<rparr>) (enter call)) (udev S)"
  have "user_step K plan S ?S" using i by (intro user_step.call)
  moreover have "(user_step K plan)\<^sup>*\<^sup>* ?S S'" unfolding S'
    by (rule finish_run) (use run i(1) in \<open>simp_all add: finish_enter\<close>)
  ultimately show ?thesis by (rule converse_rtranclp_into_rtranclp)
qed

end
