(* ===== verification/Driver_Claims.thy ===== *)
theory Driver_Claims
  imports Driver_Properties
begin

text \<open>
  The properties of the character driver, each with a witness on the concrete device
  \<open>demo\<close> and the reference kernel where it has hypotheses.
\<close>

section \<open>Specifications\<close>

text \<open>
  What a write may do to the pair of the log (the commands held) and the pending
  bytes. A success takes every byte and either completes a command or keeps the bytes
  pending; \<open>-EFAULT\<close> drops the pending bytes; \<open>-ENOMEM\<close> leaves the log alone.
\<close>

definition write_result ::
  "byte list list \<Rightarrow> byte list \<Rightarrow> byte list \<Rightarrow> size_t \<Rightarrow> size_t \<Rightarrow> loff_t \<Rightarrow>
   byte list list \<Rightarrow> byte list \<Rightarrow> loff_t \<Rightarrow> errno + size_t \<Rightarrow> bool" where
  "write_result cs p bs left cnt pos cs' p' pos' r \<longleftrightarrow>
     (case r of
        Inr n \<Rightarrow> left = 0 \<and> n = cnt \<and> pos' = pos + cnt \<and>
          (if newline \<in> set (p @ bs) then cs' = push MAXOPS cs (p @ bs) \<and> p' = []
           else cs' = cs \<and> p' = p @ bs)
      | Inl EFAULT \<Rightarrow> left \<noteq> 0 \<and> pos' = pos \<and> cs' = cs \<and> p' = []
      | Inl ENOMEM \<Rightarrow> pos' = pos \<and> cs' = cs \<and>
          (p' = p \<or> left = 0 \<and> newline \<in> set (p @ bs) \<and> p' = p @ bs)
      | Inl _ \<Rightarrow> False)"

text \<open>The allocator calls a write of \<open>cnt\<close> bytes can make, one of which failed.\<close>

definition alloc_failed :: "'u kernel \<Rightarrow> drv \<Rightarrow> size_t \<Rightarrow> bool" where
  "alloc_failed K s cnt \<longleftrightarrow>
     (let t = temp_of s in
      if tdata t = NULL then
        snd (kmalloc K (kheap s) (cnt + 50)) = NULL \<or> (\<exists>h. snd (kmalloc K h cnt) = NULL)
      else
        tcapacity t < tsize t + cnt \<and> snd (krealloc K (kheap s) (tdata t) (tsize t + cnt + 50)) = NULL \<or>
        (\<exists>h. snd (kmalloc K h (tsize t + cnt)) = NULL))"

text \<open>A kernel whose \<open>kmalloc\<close> always fails.\<close>

definition poor_kernel :: "byte list kernel" where
  "poor_kernel = ref_kernel\<lparr>kmalloc := (\<lambda>h n. (h, NULL))\<rparr>"

lemma poor_kernel_sel [simp]:
  "kmalloc poor_kernel = (\<lambda>h n. (h, NULL))" "krealloc poor_kernel = ref_krealloc"
  "copy_from_user poor_kernel = copy_from_user ref_kernel" "kfree poor_kernel = kfree ref_kernel"
  by (simp_all add: poor_kernel_def ref_kernel_def)

lemma poor_memory_ok: "memory_ok poor_kernel"
proof -
  have "krealloc_ok poor_kernel = krealloc_ok ref_kernel"
    by (simp only: krealloc_ok_def poor_kernel_sel ref_kernel_sel)
  with ref_krealloc_ok show ?thesis
    by (simp add: memory_ok_def kmalloc_ok_def kfree_ok_def copy_from_user_ok_def)
qed

section \<open>The concrete device at work\<close>

lemma ref_kmalloc_demo:
  "\<not> 2 ^ 20 < n \<Longrightarrow> ref_kmalloc [1 \<mapsto> a, 2 \<mapsto> b, 3 \<mapsto> c] n =
     ([1 \<mapsto> a, 2 \<mapsto> b, 3 \<mapsto> c, 4 \<mapsto> replicate (unat n) 0], 4)"
proof -
  have "[1..<64] = 1 # 2 # 3 # 4 # [5..<64::nat]" by (simp add: upt_rec)
  then show "\<not> 2 ^ 20 < n \<Longrightarrow> ref_kmalloc [1 \<mapsto> a, 2 \<mapsto> b, 3 \<mapsto> c] n =
     ([1 \<mapsto> a, 2 \<mapsto> b, 3 \<mapsto> c, 4 \<mapsto> replicate (unat n) 0], 4)" by (simp add: ref_kmalloc_def)
qed

lemmas write_defs = aesd_write_def aesd_write_reserve_def aesd_write_commit_def has_newline_def
  mem_load_def mem_store_def overwrite_def

lemma demo_write: "\<exists>s'. aesd_write ref_kernel [] demo demo_file 10 1 0 = Some (Done (s', 1, Inr 1))"
  by (simp add: write_defs ref_kmalloc_demo aesd_circular_buffer_add_entry_def demo_ring_def
      set_entry_def next_offs_def maxops)

text \<open>The device after a newline was written and the command could not be allocated.\<close>

definition demo_stuck :: drv where
  "demo_stuck = set_temp \<lparr>tdata = 3, tsize = 2, tcapacity = 4\<rparr>
     (set_heap [1 \<mapsto> [104, 105, 10], 2 \<mapsto> [111, 107, 10], 3 \<mapsto> [120, 10, 0, 0]] demo)"

lemma demo_stuck_sel [simp]:
  "ring_of demo_stuck = demo_ring" "temp_of demo_stuck = \<lparr>tdata = 3, tsize = 2, tcapacity = 4\<rparr>"
  "kheap demo_stuck = [1 \<mapsto> [104, 105, 10], 2 \<mapsto> [111, 107, 10], 3 \<mapsto> [120, 10, 0, 0]]"
  "\<not> locked demo_stuck"
  by (simp_all add: demo_stuck_def)

lemma demo_write_nomem:
  "aesd_write poor_kernel [] demo demo_file 10 1 0 = Some (Done (demo_stuck, 0, Inl ENOMEM))"
  by (simp add: write_defs demo_stuck_def)
    (simp add: demo_def fresh_device_def lock_dev_def unlock_dev_def set_temp_def set_heap_def)

lemma demo_write_again:
  "\<exists>s'. aesd_write ref_kernel [] demo_stuck demo_file 10 1 0 = Some (Done (s', 1, Inr 1))"
  by (simp add: write_defs ref_kmalloc_demo aesd_circular_buffer_add_entry_def demo_ring_def
      set_entry_def next_offs_def maxops)

section \<open>Writing\<close>

text \<open>
  (C1) Write: from a state with the memory invariant and a free mutex, \<open>write\<close> has no
  undefined behaviour and does not block; it returns with the mutex free and the
  invariant intact for the same foreign memory (no leak, no stray store). On success it
  reports the full count and advances the position by it; if the pending bytes followed
  by the new ones contain a newline they become the newest command of the ten-entry
  log, else they stay pending. \<open>-EFAULT\<close> drops the pending bytes, \<open>-ENOMEM\<close> leaves the
  log unchanged.
\<close>

theorem aesd_write_correct:
  assumes "memory_ok K" and "drv_inv F s" and "\<not> locked s" and "private_data filp = Some d"
    and "unat cnt < 2 ^ 63" and "copy_from_user K u buf cnt = (bs, left)"
  shows "\<exists>s' pos' r. aesd_write K u s filp buf cnt pos = Some (Done (s', pos', r)) \<and>
    \<not> locked s' \<and> drv_inv F s' \<and>
    write_result (drv_cmds s) (drv_pend s) bs left cnt pos (drv_cmds s') (drv_pend s') pos' r"
  using assms by (cases rule: aesd_write_cases [where pos = pos]) (auto simp: write_result_def)

theorem aesd_write_correct_witness:
  "\<exists>s' pos' r. aesd_write ref_kernel [] demo demo_file 10 1 0 = Some (Done (s', pos', r)) \<and>
    \<not> locked s' \<and> drv_inv Map.empty s' \<and>
    write_result [[104, 105, 10], [111, 107, 10]] [120] [10] 0 1 0 (drv_cmds s') (drv_pend s') pos' r"
  using aesd_write_correct [OF ref_memory_ok demo_inv, of demo_file Aesd_device 1 "[]" 10 "[10]" 0 0]
  unfolding demo_contents by simp

text \<open>
  Out of memory: \<open>write\<close> reports \<open>-ENOMEM\<close> only when one of the allocator calls it
  makes failed: the first block of \<open>count + 50\<close> bytes, the growth of a block that is too
  small, or the block for a complete command.
\<close>

theorem aesd_write_enomem:
  assumes "aesd_write K u s filp buf cnt pos = Some (Done (s', pos', Inl ENOMEM))"
  shows "alloc_failed K s cnt"
  using assms
  by (auto simp: aesd_write_def aesd_write_reserve_def aesd_write_commit_def realloc_block_def
      alloc_failed_def Let_def split: if_splits prod.splits bind_splits) (metis snd_conv)+

theorem aesd_write_enomem_witness:
  "(\<exists>s'. aesd_write poor_kernel [] demo demo_file 10 1 0 = Some (Done (s', 0, Inl ENOMEM))) \<and>
   alloc_failed poor_kernel demo 1"
  using aesd_write_enomem [OF demo_write_nomem] demo_write_nomem by blast

text \<open>
  (C31) A retried write duplicates its bytes: when the block for a complete command cannot
  be allocated, \<open>write\<close> has already appended the bytes to the pending ones, yet reports
  \<open>-ENOMEM\<close> and leaves the position. A caller that repeats the call, successfully, finds
  the bytes twice in the command that is stored.
\<close>

theorem aesd_write_retry_duplicates:
  assumes "memory_ok K" and "memory_ok K'" and "drv_inv F s" and "\<not> locked s"
    and "private_data filp = Some d" and "unat cnt < 2 ^ 63"
    and "copy_from_user K u buf cnt = (bs, 0)" and "copy_from_user K' u buf cnt = (bs, 0)"
    and "aesd_write K u s filp buf cnt pos = Some (Done (s1, pos, Inl ENOMEM))"
    and "drv_pend s1 \<noteq> drv_pend s"
    and "aesd_write K' u s1 filp buf cnt pos = Some (Done (s2, pos + cnt, Inr cnt))"
  shows "drv_cmds s2 = push MAXOPS (drv_cmds s) (drv_pend s @ bs @ bs)"
proof -
  have "drv_inv F s1 \<and> \<not> locked s1 \<and> drv_cmds s1 = drv_cmds s \<and> drv_pend s1 = drv_pend s @ bs \<and>
      newline \<in> set (drv_pend s @ bs)"
    using assms(1,3-7)
    by (cases rule: aesd_write_cases [where pos = pos]) (use assms(9,10) in simp_all)
  then have inv: "drv_inv F s1" and free: "\<not> locked s1"
      and eqs: "drv_cmds s1 = drv_cmds s" "drv_pend s1 = drv_pend s @ bs"
      and nl: "newline \<in> set (drv_pend s1)" by simp_all
  from assms(2) inv free assms(5,6,8) have "drv_cmds s2 = push MAXOPS (drv_cmds s1) (drv_pend s1 @ bs)"
    by (cases rule: aesd_write_cases [where pos = pos]) (use assms(11) nl in simp_all)
  then show ?thesis by (simp add: eqs)
qed

theorem aesd_write_retry_duplicates_witness:
  "\<exists>s2. aesd_write poor_kernel [] demo demo_file 10 1 0 = Some (Done (demo_stuck, 0, Inl ENOMEM)) \<and>
     aesd_write ref_kernel [] demo_stuck demo_file 10 1 0 = Some (Done (s2, 1, Inr 1)) \<and>
     drv_cmds s2 = [[104, 105, 10], [111, 107, 10], [120, 10, 10]]"
proof -
  obtain s2 where run: "aesd_write ref_kernel [] demo_stuck demo_file 10 1 0 = Some (Done (s2, 1, Inr 1))"
    using demo_write_again by blast
  have "drv_cmds s2 = push MAXOPS (drv_cmds demo) (drv_pend demo @ [10] @ [10])"
    using aesd_write_retry_duplicates [OF poor_memory_ok ref_memory_ok demo_inv _ _ _ _ _ demo_write_nomem _, of Aesd_device "[10]" s2] run
    by (simp add: pend_def)
  then show ?thesis using run demo_write_nomem unfolding demo_contents by (simp add: push_def maxops)
qed

text \<open>
  (C2) History: after any sequence of successful writes, the log holds exactly the newest
  ten commands the calls completed, after those already held, and the pending bytes are
  what follows the last completed command. \<open>segment\<close> loses and reorders no byte.
\<close>

theorem driver_history:
  assumes "drv_inv F s" and "\<not> locked s" and "chain (write_step K) s bss s'"
    and "segment (drv_pend s) bss = (xs, q)"
  shows "drv_cmds s' = newest MAXOPS (drv_cmds s @ xs) \<and> drv_pend s' = q \<and>
    concat xs @ q = drv_pend s @ concat bss"
  using driver_log.chain_newest [OF assms(3) _ assms(4)] assms(1,2) segment_sound [OF assms(4)] by blast

lemma demo_write_step: "\<exists>s'. write_step ref_kernel demo [10] s'"
proof -
  obtain s' where "aesd_write ref_kernel [] demo demo_file 10 1 0 = Some (Done (s', 1, Inr 1))"
    using demo_write by blast
  then have "write_step ref_kernel demo [10] s'"
    unfolding write_step_def using ref_memory_ok
    by (intro conjI exI [of _ "[]"] exI [of _ demo_file] exI [of _ Aesd_device] exI [of _ 10]
        exI [of _ 1] exI [of _ 0]) simp_all
  then show ?thesis by blast
qed

theorem driver_history_witness:
  "\<exists>s'. chain (write_step ref_kernel) demo [[10]] s' \<and>
     drv_cmds s' = [[104, 105, 10], [111, 107, 10], [120, 10]] \<and> drv_pend s' = []"
proof -
  obtain s' where st: "write_step ref_kernel demo [10] s'" using demo_write_step by blast
  then have ch: "chain (write_step ref_kernel) demo [[10]] s'" by simp
  have seg: "segment (drv_pend demo) [[10]] = ([[120, 10]], [])" unfolding demo_contents by simp
  have "drv_cmds s' = newest MAXOPS (drv_cmds demo @ [[120, 10]]) \<and> drv_pend s' = []"
    using driver_history [OF demo_inv demo_sel(4) ch seg] by blast
  with ch show ?thesis unfolding demo_contents by (auto simp: newest_def maxops)
qed

section \<open>Reading and seeking\<close>

text \<open>
  (C15) Read: from a state with the invariant and a free mutex, \<open>read\<close> returns, leaves the
  device as it was and the mutex free. Past the end of the log it delivers 0 bytes. Before
  it, the bytes handed to \<open>copy_to_user\<close> are the next bytes of the concatenated commands,
  at most \<open>count\<close>, at least one when \<open>count\<close> is not 0, and the position advances by
  exactly the number reported; a fault moves nothing.
\<close>

theorem aesd_read_correct:
  assumes "drv_inv F s" and "\<not> locked s" and "private_data filp = Some d"
  shows "if length (concat (drv_cmds s)) \<le> unat pos
    then aesd_read K u s filp buf cnt pos = Some (Done (u, s, pos, Inr 0))
    else \<exists>chunk rest. drop (unat pos) (concat (drv_cmds s)) = chunk @ rest \<and>
      length chunk \<le> unat cnt \<and> (chunk = [] \<longleftrightarrow> cnt = 0) \<and>
      aesd_read K u s filp buf cnt pos = Some (Done
        (case copy_to_user K u buf chunk of (u', left) \<Rightarrow>
           if left \<noteq> 0 then (u', s, pos, Inl EFAULT)
           else (u', s, pos + of_nat (length chunk), Inr (of_nat (length chunk)))))"
proof (cases "length (concat (drv_cmds s)) \<le> unat pos")
  case True
  then show ?thesis using aesd_read_eq [OF assms, of K u buf cnt pos] by (simp add: read_outcome_def)
next
  case False
  let ?c = "read_chunk (drv_cmds s) (unat pos) (unat cnt)"
  obtain rest where "drop (unat pos) (concat (drv_cmds s)) = ?c @ rest"
    using read_chunk_prefix by blast
  moreover have "?c = [] \<longleftrightarrow> cnt = 0"
    using False by (simp add: read_chunk_empty_iff unat_eq_zero)
  moreover have "aesd_read K u s filp buf cnt pos = Some (Done
      (case copy_to_user K u buf ?c of (u', left) \<Rightarrow>
         if left \<noteq> 0 then (u', s, pos, Inl EFAULT)
         else (u', s, pos + of_nat (length ?c), Inr (of_nat (length ?c)))))"
    using False aesd_read_eq [OF assms, of K u buf cnt pos]
    by (simp add: read_outcome_def Let_def split: prod.split)
  ultimately show ?thesis using False length_read_chunk by auto
qed

theorem aesd_read_correct_witness:
  "aesd_read ref_kernel [] demo demo_file 0 100 6 = Some (Done ([], demo, 6, Inr 0)) \<and>
   (\<exists>chunk rest. [107, 10] = chunk @ rest \<and>
      aesd_read ref_kernel [] demo demo_file 0 100 4 =
        Some (Done (chunk, demo, 4 + of_nat (length chunk), Inr (of_nat (length chunk)))))"
proof
  have inv: "drv_inv Map.empty demo" "\<not> locked demo" "private_data demo_file = Some Aesd_device"
    using demo_inv by simp_all
  show "aesd_read ref_kernel [] demo demo_file 0 100 6 = Some (Done ([], demo, 6, Inr 0))"
    using aesd_read_correct [OF inv, of 6 ref_kernel "[]" 0 100] unfolding demo_contents by simp
  show "\<exists>chunk rest. [107, 10] = chunk @ rest \<and>
      aesd_read ref_kernel [] demo demo_file 0 100 4 =
        Some (Done (chunk, demo, 4 + of_nat (length chunk), Inr (of_nat (length chunk))))"
    using aesd_read_correct [OF inv, of 4 ref_kernel "[]" 0 100] unfolding demo_contents by auto
qed

lemma ioctl_read_command:
  assumes "drv_inv F s" and "\<not> locked s" and "private_data filp = Some d"
    and "copy_seekto_from_user K u arg = (sk, 0)" and "seek_valid (drv_cmds s) sk"
    and "length (drv_cmds s ! unat (write_cmd sk)) \<le> unat cnt"
    and "copy_to_user K u buf (drop (unat (write_cmd_offset sk)) (drv_cmds s ! unat (write_cmd sk))) = (u', 0)"
  shows "\<exists>filp' n. aesd_unlocked_ioctl K u s filp (AESDCHAR_IOCSEEKTO K) arg = Some (Done (s, filp', Inr 0)) \<and>
    aesd_read K u s filp' buf cnt (f_pos filp') = Some (Done (u', s, f_pos filp' + n, Inr n)) \<and>
    unat n = length (drv_cmds s ! unat (write_cmd sk)) - unat (write_cmd_offset sk)"
proof -
  let ?cs = "drv_cmds s" and ?k = "unat (write_cmd sk)" and ?o = "unat (write_cmd_offset sk)"
  let ?p = "seek_pos ?cs sk" and ?c = "drop ?o (?cs ! ?k)"
  let ?f = "filp\<lparr>f_pos := of_nat ?p\<rparr>"
  have bound: "length (concat ?cs) < 2 ^ 62"
    using length_contents_bound assms(1) by (auto simp: drv_inv_def)
  have k: "?k < length ?cs" and o: "?o < length (?cs ! ?k)" using assms(5) by (simp_all add: seek_valid_def)
  have loc: "locate (map length ?cs) ?p = Some (?k, ?o)"
    using k o by (simp add: locate_Some_iff seek_pos_def length_concat take_map)
  then have lt: "?p < length (concat ?cs)"
    using locate_eq_None [of "map length ?cs" ?p] by (simp add: length_concat)
  then have pos: "unat (of_nat ?p :: loff_t) = ?p" using bound by (simp add: unat_of_nat64)
  have chunk: "read_chunk ?cs ?p (unat cnt) = ?c" using assms(6) by (simp add: read_chunk_def loc)
  have "aesd_read K u s ?f buf cnt (f_pos ?f) =
      Some (Done (u', s, f_pos ?f + of_nat (length ?c), Inr (of_nat (length ?c))))"
    using aesd_read_eq [of F s ?f d K u buf cnt "of_nat ?p"] assms(1-3,7) lt pos chunk
    by (simp add: read_outcome_def Let_def)
  moreover have "unat (of_nat (length ?c) :: size_t) = length (?cs ! ?k) - ?o"
    using le_less_trans [OF diff_le_self le_less_trans [OF assms(6) unat_less_pow]]
    by (simp add: unat_of_nat64)
  moreover have "aesd_unlocked_ioctl K u s filp (AESDCHAR_IOCSEEKTO K) arg = Some (Done (s, ?f, Inr 0))"
    using aesd_ioctl_eq [OF assms(1-3) refl assms(4)] assms(5) by simp
  ultimately show ?thesis by blast
qed

text \<open>
  (C21) Seek by command and read: \<open>ioctl(AESDCHAR_IOCSEEKTO)\<close> with a command index and an
  offset inside that command returns 0, and the next read of at least that many bytes
  delivers the rest of the command from that offset on.
\<close>

theorem ioctl_then_read:
  assumes "drv_inv F s" and "\<not> locked s" and "private_data filp = Some d"
    and "copy_seekto_from_user K u arg = (sk, 0)" and "seek_valid (drv_cmds s) sk"
    and "length (drv_cmds s ! unat (write_cmd sk)) \<le> unat cnt"
    and "copy_to_user K u buf (drop (unat (write_cmd_offset sk)) (drv_cmds s ! unat (write_cmd sk))) = (u', 0)"
  shows "\<exists>filp' n. aesd_unlocked_ioctl K u s filp (AESDCHAR_IOCSEEKTO K) arg = Some (Done (s, filp', Inr 0)) \<and>
    aesd_read K u s filp' buf cnt (f_pos filp') = Some (Done (u', s, f_pos filp' + n, Inr n)) \<and>
    unat n = length (drv_cmds s ! unat (write_cmd sk)) - unat (write_cmd_offset sk)"
  using assms by (rule ioctl_read_command)

theorem ioctl_then_read_witness:
  "\<exists>filp' n. aesd_unlocked_ioctl ref_kernel [] demo demo_file (AESDCHAR_IOCSEEKTO ref_kernel) 1 =
       Some (Done (demo, filp', Inr 0)) \<and>
     aesd_read ref_kernel [] demo filp' 0 100 (f_pos filp') =
       Some (Done ([111, 107, 10], demo, f_pos filp' + n, Inr n)) \<and> unat n = 3"
  using ioctl_then_read [OF demo_inv, of demo_file Aesd_device ref_kernel "[]" 1
      "\<lparr>write_cmd = 1, write_cmd_offset = 0\<rparr>" 100 0 "[111, 107, 10]"]
  unfolding demo_contents by (simp add: seek_valid_def numeral_3_eq_3)

lemma drv_cmds_bound: "drv_inv F s \<Longrightarrow> length (drv_cmds s) \<le> MAXOPS"
  using cb_count_le [OF mem_inv_wf] by (simp add: drv_inv_def)

text \<open>
  (C16) Round trip: a write that completes a command, a seek to the newest command and a read
  give back the pending bytes followed by the bytes written.
\<close>

theorem write_seek_read:
  assumes "memory_ok K" and "drv_inv F s" and "\<not> locked s" and "private_data filp = Some d"
    and "unat cnt < 2 ^ 63" and "copy_from_user K u buf cnt = (bs, 0)"
    and "newline \<in> set (drv_pend s @ bs)"
    and "aesd_write K u s filp buf cnt pos = Some (Done (s', pos', Inr cnt))"
    and "copy_seekto_from_user K u arg = (\<lparr>write_cmd = of_nat (length (drv_cmds s') - 1), write_cmd_offset = 0\<rparr>, 0)"
    and "length (drv_pend s @ bs) \<le> unat n" and "copy_to_user K u buf (drv_pend s @ bs) = (u', 0)"
  shows "\<exists>filp' m. aesd_unlocked_ioctl K u s' filp (AESDCHAR_IOCSEEKTO K) arg = Some (Done (s', filp', Inr 0)) \<and>
    aesd_read K u s' filp' buf n (f_pos filp') = Some (Done (u', s', f_pos filp' + m, Inr m)) \<and>
    unat m = length (drv_pend s @ bs)"
proof -
  let ?x = "drv_pend s @ bs" and ?k = "length (drv_cmds s') - 1"
  have post: "drv_inv F s' \<and> \<not> locked s' \<and> drv_cmds s' = push MAXOPS (drv_cmds s) ?x"
    using assms(1-6) by (cases rule: aesd_write_cases [where pos = pos]) (use assms(7,8) in simp_all)
  then have last: "drv_cmds s' \<noteq> []" "drv_cmds s' ! ?k = ?x"
    by (auto simp: push_def maxops last_conv_nth nth_append)
  have "length (drv_cmds s') \<le> MAXOPS" using post drv_cmds_bound by blast
  then have k: "unat (of_nat ?k :: u32) = ?k" by (simp add: unat_of_nat_less maxops)
  let ?sk = "\<lparr>write_cmd = of_nat ?k, write_cmd_offset = 0\<rparr> :: aesd_seekto"
  have "seek_valid (drv_cmds s') ?sk" using last k assms(7) by (cases ?x) (simp_all add: seek_valid_def del: length_cmds)
  from ioctl_read_command [OF _ _ assms(4) assms(9) this, of F n buf u'] post last k assms(10,11)
  show ?thesis by simp
qed

theorem write_seek_read_witness:
  "\<exists>s' filp' m. aesd_write ref_kernel [] demo demo_file 10 1 0 = Some (Done (s', 1, Inr 1)) \<and>
     aesd_unlocked_ioctl ref_kernel [] s' demo_file (AESDCHAR_IOCSEEKTO ref_kernel) 2 = Some (Done (s', filp', Inr 0)) \<and>
     aesd_read ref_kernel [] s' filp' 10 100 (f_pos filp') = Some (Done ([120, 10], s', f_pos filp' + m, Inr m)) \<and>
     unat m = length [120, 10 :: byte]"
proof -
  obtain s' where run: "aesd_write ref_kernel [] demo demo_file 10 1 0 = Some (Done (s', 1, Inr 1))"
    using demo_write by blast
  have "drv_cmds s' = push MAXOPS (drv_cmds demo) (drv_pend demo @ [10])"
    using aesd_write_cases [OF ref_memory_ok demo_inv, of demo_file Aesd_device 1 "[]" 10 "[10]" 0 0] run
    by fastforce
  then have "length (drv_cmds s') = 3" unfolding demo_contents by (simp add: push_def maxops)
  with write_seek_read [OF ref_memory_ok demo_inv _ _ _ _ _ run, of Aesd_device "[10]" 2 100 "[120, 10]"]
  have "\<exists>filp' m. aesd_unlocked_ioctl ref_kernel [] s' demo_file (AESDCHAR_IOCSEEKTO ref_kernel) 2 =
          Some (Done (s', filp', Inr 0)) \<and>
        aesd_read ref_kernel [] s' filp' 10 100 (f_pos filp') = Some (Done ([120, 10], s', f_pos filp' + m, Inr m)) \<and>
        unat m = length [120, 10 :: byte]"
    unfolding demo_contents by (simp del: length_cmds)
  with run show ?thesis by blast
qed

text \<open>
  (C32) A rejected seek keeps the mutex: with an index or offset out of range the ioctl
  reports \<open>-EINVAL\<close> with the mutex held, and from then on every read, write, seek and
  valid ioctl on the device blocks.
\<close>

theorem ioctl_einval_blocks:
  assumes "drv_inv F s" and "\<not> locked s" and "private_data filp = Some d"
    and "copy_seekto_from_user K u arg = (sk, 0)" and "\<not> seek_valid (drv_cmds s) sk"
    and "private_data filp2 = Some d2" and "copy_seekto_from_user K u2 arg2 = (sk2, 0)"
  shows "\<exists>s'. aesd_unlocked_ioctl K u s filp (AESDCHAR_IOCSEEKTO K) arg = Some (Done (s', filp, Inl EINVAL)) \<and>
    aesd_read K u2 s' filp2 buf cnt pos = Some Blocks \<and> aesd_write K u2 s' filp2 buf cnt pos = Some Blocks \<and>
    aesd_llseek K s' filp2 off w = Some Blocks \<and>
    aesd_unlocked_ioctl K u2 s' filp2 (AESDCHAR_IOCSEEKTO K) arg2 = Some Blocks"
  using aesd_ioctl_eq [OF assms(1-3) refl assms(4)] assms(5-7)
  by (intro exI [of _ "lock_dev s"])
    (simp add: aesd_read_def aesd_write_def aesd_llseek_def aesd_unlocked_ioctl_def)

theorem ioctl_einval_blocks_witness:
  "\<exists>s'. aesd_unlocked_ioctl ref_kernel [] demo demo_file (AESDCHAR_IOCSEEKTO ref_kernel) 2 =
       Some (Done (s', demo_file, Inl EINVAL)) \<and>
     aesd_read ref_kernel [] s' demo_file 0 1 0 = Some Blocks \<and>
     aesd_write ref_kernel [] s' demo_file 0 1 0 = Some Blocks \<and>
     aesd_llseek ref_kernel s' demo_file 0 SEEK_SET = Some Blocks \<and>
     aesd_unlocked_ioctl ref_kernel [] s' demo_file (AESDCHAR_IOCSEEKTO ref_kernel) 0 = Some Blocks"
  using ioctl_einval_blocks [OF demo_inv, of demo_file Aesd_device ref_kernel "[]" 2
      "\<lparr>write_cmd = 2, write_cmd_offset = 0\<rparr>" demo_file Aesd_device "[]" 0
      "\<lparr>write_cmd = 0, write_cmd_offset = 0\<rparr>" 0 1 0 0 SEEK_SET]
  unfolding demo_contents by (simp add: seek_valid_def)

text \<open>
  (C29) Seek: \<open>llseek\<close> accepts exactly the targets between 0 and the number of bytes held,
  both included, and then the file position is the target; any other target is
  \<open>-EINVAL\<close> and moves nothing. The one exception is the query for the position, a seek by 0 from the
  current position, which the kernel answers without a look at the number of bytes. Device and
  mutex are left as they were.
\<close>

theorem aesd_llseek_correct:
  assumes "llseek_ok K" and "drv_inv F s" and "\<not> locked s" and "private_data filp = Some d"
    and "0 \<le> sint (f_pos filp)"
    and "eof = int (length (concat (drv_cmds s)))"
    and "t = (case w of SEEK_SET \<Rightarrow> sint off | SEEK_CUR \<Rightarrow> sint (f_pos filp) + sint off | SEEK_END \<Rightarrow> eof + sint off)"
  shows "aesd_llseek K s filp off w =
    (if w = SEEK_CUR \<and> off = 0 then Some (Done (s, filp, Inr (f_pos filp)))
     else if 0 \<le> t \<and> t \<le> eof
     then Some (Done (s, filp\<lparr>f_pos := word_of_int t\<rparr>, Inr (word_of_int t)))
     else Some (Done (s, filp, Inl EINVAL)))"
proof -
  let ?n = "length (concat (drv_cmds s))"
  have "?n < 2 ^ 62" using length_contents_bound assms(2) by (auto simp: drv_inv_def)
  then have eof: "sint (of_nat ?n :: loff_t) = eof"
    using assms(6) by (simp add: sint_of_nat_small)
  then have t: "seek_target filp off w (of_nat ?n) = t"
    using assms(7) by (cases w) (simp_all add: seek_target_def)
  have "fixed_size_llseek K filp off w (of_nat ?n) =
      (if w = SEEK_CUR \<and> off = 0 then (filp, Inr (f_pos filp))
       else if 0 \<le> t \<and> t \<le> eof then (filp\<lparr>f_pos := word_of_int t\<rparr>, Inr (word_of_int t)) else (filp, Inl EINVAL))"
    using assms(1,5,6) eof t unfolding llseek_ok_def Let_def by simp
  then show ?thesis
    using aesd_llseek_eq [OF assms(2-4), of K off w] by simp
qed

theorem aesd_llseek_correct_witness:
  "aesd_llseek ref_kernel demo demo_file 0 SEEK_END = Some (Done (demo, demo_file\<lparr>f_pos := 6\<rparr>, Inr 6))"
  using aesd_llseek_correct [OF ref_llseek_ok demo_inv, of demo_file Aesd_device 6 6 0 SEEK_END]
  unfolding demo_contents by (simp add: demo_file_def)

section \<open>The module as a whole\<close>

text \<open>
  (C9) Safety: in every state the module can reach after a successful load, by any
  sequence of handler calls with any arguments, on a file that has been opened, no handler
  has undefined behaviour: no access outside a live block, no double free, no index out of
  the ring. Unloading the module has none either.
\<close>

theorem driver_safe:
  assumes "memory_ok K" and "chrdev_ok K" and "reach K s0 s" and "private_data filp = Some d"
    and "unat cnt < 2 ^ 63"
  shows "aesd_read K u s filp buf n pos \<noteq> None \<and> aesd_write K u s filp buf cnt pos \<noteq> None \<and>
    aesd_llseek K s filp off w \<noteq> None \<and> aesd_unlocked_ioctl K u s filp cmd arg \<noteq> None \<and>
    aesd_cleanup_module K s \<noteq> None"
proof -
  have inv: "drv_inv (kheap s0) s" using reach_inv [OF assms(1-3)] by simp
  have cleanup: "aesd_cleanup_module K s \<noteq> None"
    using cleanup_module_eq [OF assms(1) inv] by fastforce
  show ?thesis
  proof (cases "locked s")
    case True
    then show ?thesis using assms(4) cleanup
      by (simp add: aesd_read_def aesd_write_def aesd_llseek_def aesd_unlocked_ioctl_def split: prod.split)
  next
    case False
    obtain bs left where "copy_from_user K u buf cnt = (bs, left)" by fastforce
    then have "aesd_write K u s filp buf cnt pos \<noteq> None"
      using aesd_write_cases [OF assms(1) inv False assms(4,5), of u buf bs left pos] by fastforce
    moreover have "aesd_unlocked_ioctl K u s filp cmd arg \<noteq> None"
      using aesd_ioctl_eq [OF inv False assms(4) refl, of K u arg]
      by (cases "copy_seekto_from_user K u arg") (auto simp: aesd_unlocked_ioctl_def split: if_splits)
    ultimately show ?thesis
      using aesd_read_eq [OF inv False assms(4), of K u buf n pos]
        aesd_llseek_eq [OF inv False assms(4), of K off w] cleanup by simp
  qed
qed

text \<open>The module loaded on the reference kernel, with one foreign block in memory.\<close>

definition bare :: drv where
  "bare = \<lparr>kheap = [9 \<mapsto> [1, 2]], aesd_device = fresh_device, aesd_major = 0, aesd_minor = 0, chrdevs = {}\<rparr>"

definition bare_loaded :: drv where
  "bare_loaded = fst (aesd_init_module ref_kernel bare)"

lemma bare_load: "aesd_init_module ref_kernel bare = (bare_loaded, 0)"
  by (simp add: bare_loaded_def bare_def aesd_init_module_def aesd_setup_cdev_def ref_kernel_def
      ref_alloc_chrdev_def)

lemma bare_reach: "reach ref_kernel bare bare_loaded"
  using bare_load by (rule reach.by_load)

theorem driver_safe_witness:
  "aesd_write ref_kernel [] bare_loaded demo_file 10 1 0 \<noteq> None \<and> aesd_cleanup_module ref_kernel bare_loaded \<noteq> None"
  using driver_safe [OF ref_memory_ok ref_chrdev_ok bare_reach, of demo_file Aesd_device 1 "[]" 10 0 0] by simp

text \<open>
  (C30) Load: \<open>init\<close> either fails with a non-zero result and leaves memory and the
  registered device numbers as they were, or registers a new device number and leaves
  an empty log, nothing pending and a free mutex.
\<close>

theorem init_module_correct:
  assumes "chrdev_ok K" and "aesd_init_module K s = (s', r)"
  shows "if r = 0
    then drv_inv (kheap s) s' \<and> \<not> locked s' \<and> drv_cmds s' = [] \<and> drv_pend s' = [] \<and>
      (\<exists>d. d \<notin> chrdevs s \<and> chrdevs s' = insert d (chrdevs s))
    else chrdevs s' = chrdevs s \<and> kheap s' = kheap s"
  using assms by (cases rule: init_module_cases) auto

theorem init_module_correct_witness:
  "drv_inv [9 \<mapsto> [1, 2]] bare_loaded \<and> \<not> locked bare_loaded \<and> drv_cmds bare_loaded = []"
  using init_module_correct [OF ref_chrdev_ok bare_load] by (simp add: bare_def)

text \<open>
  (C14) Unload: from every reachable state, even one whose mutex is held, \<open>cleanup\<close> frees
  exactly the blocks the driver allocated since the load: the heap and the registered device
  numbers are those from before the load.
\<close>

theorem load_unload_restores:
  assumes "memory_ok K" and "chrdev_ok K" and "reach K s0 s"
  shows "\<exists>s'. aesd_cleanup_module K s = Some s' \<and> kheap s' = kheap s0 \<and> chrdevs s' = chrdevs s0"
proof -
  obtain d where inv: "drv_inv (kheap s0) s" and d: "d \<notin> chrdevs s0" "chrdevs s = insert d (chrdevs s0)"
      "MKDEV K (aesd_major s) (aesd_minor s) = d"
    using reach_inv [OF assms] by blast
  have "unregister_chrdev_region K R d = R - {d}" for R using assms(2) by (simp add: chrdev_ok_def)
  with cleanup_module_eq [OF assms(1) inv] d show ?thesis by (metis Diff_insert_absorb)
qed

theorem load_unload_restores_witness:
  "\<exists>s'. aesd_cleanup_module ref_kernel bare_loaded = Some s' \<and> kheap s' = [9 \<mapsto> [1, 2]] \<and> chrdevs s' = {}"
  using load_unload_restores [OF ref_memory_ok ref_chrdev_ok bare_reach] by (simp add: bare_def)

end
