(* ===== verification/C_Strings.thy ===== *)
theory C_Strings
  imports Prelude "HOL-Library.Monad_Syntax"
begin

text \<open>
  The C library's string functions as the server uses them, on blocks of bytes.
  \<open>None\<close> is a read past the end of the block. \<open>sscanf_u_u\<close> is \<open>sscanf\<close> with the format
  \<open>%u,%u\<close>; a number that does not fit \<open>unsigned int\<close>, whose conversion C leaves
  undefined, is the separate result \<open>Out_of_range\<close>.
\<close>

section \<open>Strings in a block\<close>

definition bytes_of :: "string \<Rightarrow> byte list" where
  "bytes_of s = map of_char s"

text \<open>The bytes before the terminating NUL.\<close>

fun c_string :: "byte list \<Rightarrow> byte list option" where
  "c_string [] = None"
| "c_string (b # bs) = (if b = 0 then Some [] else map_option ((#) b) (c_string bs))"

text \<open>\<open>strchr(buffer, c)\<close> as a truth value, for a character other than NUL.\<close>

fun strchr :: "byte list \<Rightarrow> byte \<Rightarrow> bool option" where
  "strchr [] c = None"
| "strchr (b # bs) c = (if b = c then Some True else if b = 0 then Some False else strchr bs c)"

text \<open>\<open>strncmp(a, b, n) == 0\<close>.\<close>

fun strncmp_eq :: "byte list \<Rightarrow> byte list \<Rightarrow> nat \<Rightarrow> bool option" where
  "strncmp_eq as bs 0 = Some True"
| "strncmp_eq (a # as) (b # bs) (Suc n) =
     (if a \<noteq> b then Some False else if a = 0 then Some True else strncmp_eq as bs n)"
| "strncmp_eq as bs (Suc n) = None"

section \<open>Scanning numbers\<close>

definition is_space :: "byte \<Rightarrow> bool" where
  "is_space b \<longleftrightarrow> b = 32 \<or> 9 \<le> b \<and> b \<le> 13"

definition is_digit :: "byte \<Rightarrow> bool" where
  "is_digit b \<longleftrightarrow> 48 \<le> b \<and> b \<le> 57"

definition digit_val :: "byte \<Rightarrow> nat" where
  "digit_val b = unat b - 48"

definition digits_val :: "byte list \<Rightarrow> nat" where
  "digits_val ds = foldl (\<lambda>n b. 10 * n + digit_val b) 0 ds"

datatype 'a scan = No_match | Out_of_range | Scanned 'a "byte list"

text \<open>
  The conversion \<open>%u\<close> on a NUL-terminated string without its NUL: white space, an
  optional sign, at least one digit. A minus sign negates in the unsigned type.
\<close>

definition scan_sign :: "byte list \<Rightarrow> bool \<times> byte list" where
  "scan_sign s = (case s of [] \<Rightarrow> (False, []) | b # bs \<Rightarrow>
     if b = 45 then (True, bs) else if b = 43 then (False, bs) else (False, s))"

definition scan_u :: "byte list \<Rightarrow> u32 scan" where
  "scan_u s =
     (case scan_sign (dropWhile is_space s) of (neg, t) \<Rightarrow>
        let ds = takeWhile is_digit t; v = digits_val ds
        in if ds = [] then No_match
           else if 2 ^ 32 \<le> v then Out_of_range
           else Scanned (if neg then - of_nat v else of_nat v) (dropWhile is_digit t))"

text \<open>\<open>sscanf(s, "%u,%u", &a, &b) == 2\<close>, with the two numbers.\<close>

definition sscanf_u_u :: "byte list \<Rightarrow> (u32 \<times> u32) scan" where
  "sscanf_u_u s =
     (case scan_u s of
        No_match \<Rightarrow> No_match
      | Out_of_range \<Rightarrow> Out_of_range
      | Scanned a r \<Rightarrow>
          (case r of
             [] \<Rightarrow> No_match
           | b # r' \<Rightarrow>
               if b \<noteq> 44 then No_match
               else (case scan_u r' of
                       No_match \<Rightarrow> No_match
                     | Out_of_range \<Rightarrow> Out_of_range
                     | Scanned c r'' \<Rightarrow> Scanned (a, c) r'')))"

section \<open>Printing numbers\<close>

text \<open>The decimal digits of a number, the way a client writes them.\<close>

fun decimal :: "nat \<Rightarrow> byte list" where
  "decimal n = (if n < 10 then [of_nat (48 + n)] else decimal (n div 10) @ [of_nat (48 + n mod 10)])"

declare decimal.simps [simp del]

section \<open>Facts\<close>

lemma c_string_append: "0 \<notin> set xs \<Longrightarrow> c_string (xs @ 0 # ys) = Some xs"
  by (induction xs) auto

lemma c_string_Some: "c_string bs = Some s \<Longrightarrow> \<exists>ys. bs = s @ 0 # ys \<and> 0 \<notin> set s"
  by (induction bs arbitrary: s) (auto split: if_splits)

lemma c_string_ex: "0 \<in> set bs \<Longrightarrow> \<exists>s. c_string bs = Some s"
  by (induction bs) auto

lemma strchr_c_string: "c \<noteq> 0 \<Longrightarrow> strchr bs c = (if c \<in> set (takeWhile (\<lambda>b. b \<noteq> 0) bs) then Some True
    else if 0 \<in> set bs then Some False else None)"
  by (induction bs) auto

lemma strchr_eq: "c_string bs = Some s \<Longrightarrow> c \<noteq> 0 \<Longrightarrow> strchr bs c = Some (c \<in> set s)"
  by (induction bs arbitrary: s) (auto split: if_splits)

text \<open>Comparing a terminated string with a literal that holds no NUL.\<close>

lemma strncmp_literal:
  assumes "c_string bs = Some s" and "0 \<notin> set lit"
  shows "strncmp_eq bs (lit @ [0]) (length lit) = Some (take (length lit) s = lit)"
  using assms
proof (induction lit arbitrary: bs s)
  case Nil
  then show ?case by simp
next
  case (Cons l lit)
  then obtain b bs' where bs: "bs = b # bs'" by (cases bs) auto
  show ?case
  proof (cases "b = l")
    case True
    with Cons.prems bs obtain s' where s': "s = b # s'" "c_string bs' = Some s'" by auto
    with Cons.IH [OF s'(2)] Cons.prems(2) bs True show ?thesis by simp
  next
    case False
    with Cons.prems bs show ?thesis by (cases "b = 0") auto
  qed
qed

lemma digits_val_snoc: "digits_val (ds @ [d]) = 10 * digits_val ds + digit_val d"
  by (simp add: digits_val_def)

lemma digit_byte: "m < 10 \<Longrightarrow> is_digit (of_nat (48 + m)) \<and> digit_val (of_nat (48 + m)) = m"
  by (simp add: is_digit_def digit_val_def word_le_nat_alt unat_of_nat_less del: of_nat_add)

lemma decimal_props: "decimal n \<noteq> [] \<and> (\<forall>d \<in> set (decimal n). is_digit d) \<and> digits_val (decimal n) = n"
proof (induction n rule: decimal.induct)
  case (1 n)
  show ?case
  proof (cases "n < 10")
    case True
    then show ?thesis using digit_byte [OF True] by (simp add: decimal.simps [of n] digits_val_def)
  next
    case False
    have "n mod 10 < 10" by simp
    from digit_byte [OF this] 1 [OF False] False show ?thesis
      by (simp add: decimal.simps [of n] digits_val_snoc del: of_nat_add) 
  qed
qed

lemma scan_sign_digit: "is_digit b \<Longrightarrow> scan_sign (b # bs) = (False, b # bs)"
  by (auto simp: scan_sign_def is_digit_def)

lemma digit_not_space: "is_digit b \<Longrightarrow> \<not> is_space b"
  by (auto simp: is_digit_def is_space_def word_le_nat_alt)

lemma scan_u_decimal:
  assumes "n < 2 ^ 32" and "r = [] \<or> \<not> is_digit (hd r)"
  shows "scan_u (decimal n @ r) = Scanned (of_nat n) r"
proof -
  note d = decimal_props [of n]
  obtain b ds where b: "decimal n = b # ds" using d by (cases "decimal n") auto
  with d have "is_digit b" by simp
  then have sign: "scan_sign (dropWhile is_space (decimal n @ r)) = (False, decimal n @ r)"
    using b by (simp add: digit_not_space scan_sign_digit)
  have "takeWhile is_digit (decimal n @ r) = decimal n" "dropWhile is_digit (decimal n @ r) = r"
    using d assms(2) by (cases r; simp add: takeWhile_append dropWhile_append)+
  with sign d assms(1) show ?thesis by (simp add: scan_u_def Let_def)
qed

end
