(* ===== verification/Posix.thy ===== *)
theory Posix
  imports C_Strings Kernel_Api
begin

text \<open>
  The environment of the user programs. A program's result is a \<open>'a prog\<close>: \<open>None\<close> when it
  runs for ever, and otherwise \<open>Undefined\<close> when it leaves defined behaviour, \<open>Blocked\<close> when
  it sleeps on a lock that nobody releases, or \<open>Returned\<close> with its value.

  The system calls on files are the fields of a record over the state \<open>'d\<close> of the file
  system; an integer result of \<open>-1\<close>, or \<open>None\<close> for a read, is a failure, and \<open>Undefined\<close>
  is a fault inside the kernel. Memory allocation is a record as well;
  an allocation gives the contents of the new block, or \<open>None\<close> for \<open>NULL\<close>.
\<close>

section \<open>Results of programs\<close>

datatype 'a outcome = Undefined | Blocked | Returned 'a

type_synonym 'a prog = "'a outcome option"

definition ret :: "'a \<Rightarrow> 'a prog" where
  "ret x = Some (Returned x)"

definition seq :: "'a prog \<Rightarrow> ('a \<Rightarrow> 'b prog) \<Rightarrow> 'b prog" where
  "seq m f =
     (case m of
        None \<Rightarrow> None
      | Some Undefined \<Rightarrow> Some Undefined
      | Some Blocked \<Rightarrow> Some Blocked
      | Some (Returned x) \<Rightarrow> f x)"

text \<open>A computation whose \<open>None\<close> is an access out of bounds.\<close>

definition of_option :: "'a option \<Rightarrow> 'a prog" where
  "of_option r = (case r of None \<Rightarrow> Some Undefined | Some x \<Rightarrow> ret x)"

lemma seq_simps [simp]:
  "seq (ret x) f = f x" "seq None f = None" "seq (Some Undefined) f = Some Undefined"
  "seq (Some Blocked) f = Some Blocked" "seq (Some (Returned x)) f = f x"
  by (simp_all add: seq_def ret_def)

lemma of_simps [simp]:
  "of_option None = Some Undefined" "of_option (Some x) = ret x"
  by (simp_all add: of_option_def)

lemma ret_eq [simp]: "ret x = ret y \<longleftrightarrow> x = y" "Some (Returned x) = ret y \<longleftrightarrow> x = y"
  "ret x \<noteq> None" "ret x \<noteq> Some Undefined" "ret x \<noteq> Some Blocked"
  "None \<noteq> ret x" "Some Undefined \<noteq> ret x" "Some Blocked \<noteq> ret x"
  by (simp_all add: ret_def)

lemma seq_eq_ret: "seq m f = ret y \<longleftrightarrow> (\<exists>x. m = ret x \<and> f x = ret y)"
  by (auto simp: seq_def ret_def split: option.split outcome.split)

section \<open>Files\<close>

datatype oflag = O_RDONLY | O_WRONLY | O_RDWR | O_CREAT | O_APPEND | O_TRUNC

record 'd file_ops =
  fs_open :: "'d \<Rightarrow> string \<Rightarrow> oflag list \<Rightarrow> 'd \<times> int"
  fs_write :: "'d \<Rightarrow> int \<Rightarrow> byte list \<Rightarrow> ('d \<times> int) outcome"
  fs_read :: "'d \<Rightarrow> int \<Rightarrow> nat \<Rightarrow> ('d \<times> byte list option) outcome"
  fs_ioctl :: "'d \<Rightarrow> int \<Rightarrow> aesd_seekto \<Rightarrow> ('d \<times> int) outcome"
  fs_fsync :: "'d \<Rightarrow> int \<Rightarrow> 'd"
  fs_close :: "'d \<Rightarrow> int \<Rightarrow> 'd"

section \<open>Memory\<close>

record alloc =
  malloc :: "nat \<Rightarrow> byte list option"
  realloc :: "byte list \<Rightarrow> nat \<Rightarrow> byte list option"

text \<open>
  An allocation that succeeds gives a block of the size asked for, below the limit
  \<open>PTRDIFF_MAX\<close>, and growing a block keeps its contents.
\<close>

definition alloc_ok :: "alloc \<Rightarrow> bool" where
  "alloc_ok A \<longleftrightarrow>
     (\<forall>n b. malloc A n = Some b \<longrightarrow> length b = n \<and> n < 2 ^ 63) \<and>
     (\<forall>old n b. realloc A old n = Some b \<longrightarrow> length old \<le> n \<longrightarrow>
        length b = n \<and> take (length old) b = old \<and> n < 2 ^ 63)"

lemma realloc_law:
  assumes "alloc_ok A" and "realloc A old n = Some b" and "length old \<le> n"
  shows "length b = n" and "take (length old) b = old" and "n < 2 ^ 63"
  using assms unfolding alloc_ok_def by blast+

lemma malloc_law: "alloc_ok A \<Longrightarrow> malloc A n = Some b \<Longrightarrow> length b = n"
  unfolding alloc_ok_def by blast

definition zero_alloc :: alloc where
  "zero_alloc = \<lparr>malloc = (\<lambda>n. if n < 2 ^ 20 then Some (replicate n 0) else None),
     realloc = (\<lambda>old n. if n < 2 ^ 20 then Some (old @ replicate (n - length old) 0) else None)\<rparr>"

lemma zero_alloc_ok: "alloc_ok zero_alloc"
  by (auto simp: alloc_ok_def zero_alloc_def split: if_splits)

text \<open>Subtraction of \<open>size_t\<close> values, which wraps.\<close>

definition usub :: "nat \<Rightarrow> nat \<Rightarrow> nat" where
  "usub a b = (if b \<le> a then a - b else 2 ^ 64 + a - b)"

lemma usub_le [simp]: "b \<le> a \<Longrightarrow> usub a b = a - b"
  by (simp add: usub_def)

section \<open>Sockets\<close>

text \<open>
  The data still to arrive on a connection is a list of pieces: \<open>recv\<close> delivers at most
  \<open>n\<close> bytes of the first piece and leaves the rest of it. An empty delivery, at the end
  of the list or for an empty piece, stands for a result of 0 or -1. Every finite
  sequence of results of \<open>recv\<close> is given by some list of pieces.
\<close>

fun recv :: "byte list list \<Rightarrow> nat \<Rightarrow> byte list \<times> byte list list" where
  "recv [] n = ([], [])"
| "recv (c # cs) n = (take n c, if length c \<le> n then cs else drop n c # cs)"

lemma recv_concat: "recv rx n = (bs, rx') \<Longrightarrow> concat rx = bs @ concat rx'"
  by (cases rx) (auto split: if_splits simp: append_assoc [symmetric] simp del: append_assoc)

lemma recv_length: "recv rx n = (bs, rx') \<Longrightarrow> length bs \<le> n"
  by (cases rx) auto

end
