(* ===== verification/Aesdsocket.thy ===== *)
theory Aesdsocket
  imports Posix
begin

text \<open>
  The server, \<open>src/server/aesdsocket.c\<close>: the function a connection's thread runs, from
  \<open>recv\<close> to the reply. The receive buffer is the list of its bytes, so its length is the
  size of the block; the variable \<open>buffer_size\<close> is kept apart from it, since the code
  doubles it before it knows whether \<open>realloc\<close> succeeds.

  The state a thread sees: the mutex and the file system it shares with the other
  threads, the data still to be received, the pieces handed to \<open>send\<close>, the number of
  times the socket was closed, the number of buffers allocated and not freed, and the
  flag that tells \<open>main\<close> that the thread may be joined.
\<close>

section \<open>State\<close>

record 'd tstate =
  aesdsocket_mutex :: bool
  fsys :: 'd
  rx :: "byte list list"
  tx :: "byte list list"
  closes :: nat
  live_bufs :: nat
  status :: bool

text \<open>
  Locking a mutex that is held blocks; unlocking a default mutex that the thread does not
  hold, and freeing memory twice, are undefined.
\<close>

definition pthread_mutex_lock :: "'d tstate \<Rightarrow> 'd tstate prog" where
  "pthread_mutex_lock t = (if aesdsocket_mutex t then Some Blocked else ret (t\<lparr>aesdsocket_mutex := True\<rparr>))"

definition pthread_mutex_unlock :: "'d tstate \<Rightarrow> 'd tstate prog" where
  "pthread_mutex_unlock t =
     (if aesdsocket_mutex t then ret (t\<lparr>aesdsocket_mutex := False\<rparr>) else Some Undefined)"

definition free_buffer :: "'d tstate \<Rightarrow> 'd tstate prog" where
  "free_buffer t = (if live_bufs t = 0 then Some Undefined else ret (t\<lparr>live_bufs := live_bufs t - 1\<rparr>))"

definition close_sock :: "'d tstate \<Rightarrow> 'd tstate" where
  "close_sock t = t\<lparr>closes := closes t + 1\<rparr>"

definition set_status :: "'d tstate \<Rightarrow> 'd tstate" where
  "set_status t = t\<lparr>status := True\<rparr>"

section \<open>Configuration\<close>

definition FILE_PATH :: "bool \<Rightarrow> string" where
  "FILE_PATH use_aesd_char_device = (if use_aesd_char_device then ''/dev/aesdchar'' else ''/var/tmp/aesdsocketdata'')"

definition IOCTL_CMD_STR :: "byte list" where
  "IOCTL_CMD_STR = bytes_of ''AESDCHAR_IOCSEEKTO:''"

section \<open>Receiving\<close>

text \<open>The two tests on the buffer.\<close>

definition is_ioctl_cmd :: "byte list \<Rightarrow> bool option" where
  "is_ioctl_cmd buffer = strncmp_eq buffer (IOCTL_CMD_STR @ [0]) (length IOCTL_CMD_STR)"

definition message_complete :: "byte list \<Rightarrow> bool option" where
  "message_complete buffer =
     do {
       found \<leftarrow> strchr buffer newline;
       if found then Some True else is_ioctl_cmd buffer
     }"

text \<open>Doubling the buffer once it is full; \<open>False\<close> when \<open>realloc\<close> failed.\<close>

definition grow_buffer :: "alloc \<Rightarrow> byte list \<Rightarrow> nat \<Rightarrow> nat \<Rightarrow> bool \<times> byte list \<times> nat" where
  "grow_buffer A buffer buffer_size total_received =
     (if usub buffer_size 1 \<le> total_received then
        (let buffer_size = (2 * buffer_size) mod 2 ^ 64
         in case realloc A buffer buffer_size of
              None \<Rightarrow> (False, buffer, buffer_size)
            | Some new_buffer \<Rightarrow> (True, new_buffer, buffer_size))
      else (True, buffer, buffer_size))"

function recv_loop ::
  "alloc \<Rightarrow> byte list \<Rightarrow> nat \<Rightarrow> nat \<Rightarrow> byte list list \<Rightarrow> (byte list \<times> nat \<times> nat \<times> byte list list) option"
where
  "recv_loop A buffer buffer_size total_received input =
     (case recv input (usub (usub buffer_size total_received) 1) of
        (bytes, input') \<Rightarrow>
          if bytes = [] then Some (buffer, buffer_size, total_received, input')
          else if length buffer \<le> total_received + length bytes then None
          else
            (let buffer = overwrite total_received (bytes @ [0]) buffer;
                 total_received = total_received + length bytes
             in case grow_buffer A buffer buffer_size total_received of
                  (grown, buffer, buffer_size) \<Rightarrow>
                    if \<not> grown then Some (buffer, buffer_size, total_received, input')
                    else
                      do {
                        complete \<leftarrow> message_complete buffer;
                        if complete then Some (buffer, buffer_size, total_received, input')
                        else recv_loop A buffer buffer_size total_received input'
                      }))"
  by pat_completeness auto
termination
  by (relation "measure (\<lambda>(A, b, s, t, input). length (concat input))")
    (auto simp: recv_concat dest!: sym [THEN recv_concat])

declare recv_loop.simps [simp del]

section \<open>Sending back\<close>

text \<open>
  \<open>while ((n = read(fd, buf, size)) > 0) send(...)\<close>, into a block of \<open>room\<close> bytes. The loop
  ends when the file system says so; if it never does, the result is \<open>None\<close>.
\<close>

partial_function (option) drain_loop ::
  "'d file_ops \<Rightarrow> 'd \<Rightarrow> int \<Rightarrow> nat \<Rightarrow> nat \<Rightarrow> byte list list \<Rightarrow> ('d \<times> byte list list) prog" where
  "drain_loop fs d fd room n sent =
     (case fs_read fs d fd n of
        Undefined \<Rightarrow> Some Undefined
      | Blocked \<Rightarrow> Some Blocked
      | Returned (d', r) \<Rightarrow>
          (case r of
             None \<Rightarrow> Some (Returned (d', sent))
           | Some bs \<Rightarrow>
               if bs = [] then Some (Returned (d', sent))
               else if room < length bs then Some Undefined
               else drain_loop fs d' fd room n (sent @ [bs])))"

section \<open>The thread\<close>

text \<open>
  A request \<open>AESDCHAR_IOCSEEKTO:cmd,offset\<close>. The exit after a failing ioctl closes the
  device, unlocks, frees, unlocks again and sets the flag, without closing the socket.
\<close>

definition ioctl_request :: "'d file_ops \<Rightarrow> 'd tstate \<Rightarrow> byte list \<Rightarrow> nat \<Rightarrow> 'd tstate prog" where
  "ioctl_request fs t buffer buffer_size =
     (let finish = (\<lambda>t. seq (free_buffer (close_sock t)) (\<lambda>t. pthread_mutex_unlock (set_status t)))
      in seq (of_option (c_string (drop (length IOCTL_CMD_STR) buffer))) (\<lambda>args.
           case sscanf_u_u args of
             Out_of_range \<Rightarrow> Some Undefined
           | No_match \<Rightarrow> finish t
           | Scanned (cmd, cmd_offset) rest \<Rightarrow>
               (case fs_open fs (fsys t) ''/dev/aesdchar'' [O_RDWR] of
                  (d, file_fd) \<Rightarrow>
                    if file_fd < 0 then finish (t\<lparr>fsys := d\<rparr>)
                    else
                      seq (Some (fs_ioctl fs d file_fd
                             \<lparr>write_cmd = cmd, write_cmd_offset = cmd_offset\<rparr>)) (\<lambda>(d, r).
                        if r = -1 then
                          seq (pthread_mutex_unlock (t\<lparr>fsys := fs_close fs d file_fd\<rparr>)) (\<lambda>t.
                          seq (free_buffer t) (\<lambda>t.
                          seq (pthread_mutex_unlock t) (\<lambda>t.
                          ret (set_status t))))
                        else
                          seq (drain_loop fs d file_fd buffer_size buffer_size (tx t)) (\<lambda>(d, sent).
                          finish (t\<lparr>fsys := fs_close fs d file_fd, tx := sent\<rparr>))))))"

text \<open>Writing the message to the file; \<open>False\<close> when the file cannot be opened, which ends the thread.\<close>

definition store_message ::
  "'d file_ops \<Rightarrow> bool \<Rightarrow> 'd tstate \<Rightarrow> byte list \<Rightarrow> nat \<Rightarrow> ('d tstate \<times> bool) prog" where
  "store_message fs use_dev t buffer total_received =
     (case fs_open fs (fsys t) (FILE_PATH use_dev) [O_CREAT, O_WRONLY, O_APPEND] of
        (d, file_fd) \<Rightarrow>
          if file_fd = -1 then
            seq (free_buffer (close_sock (t\<lparr>fsys := d\<rparr>))) (\<lambda>t.
            seq (pthread_mutex_unlock t) (\<lambda>t.
            ret (t, False)))
          else if length buffer < total_received then Some Undefined
          else
            seq (Some (fs_write fs d file_fd (take total_received buffer))) (\<lambda>(d, r).
            seq (pthread_mutex_unlock (t\<lparr>fsys := fs_close fs (fs_fsync fs d file_fd) file_fd\<rparr>)) (\<lambda>t.
            ret (t, True))))"

text \<open>The whole file is sent back, read in pieces of \<open>buffer_size\<close> into the receive buffer.\<close>

definition send_back :: "'d file_ops \<Rightarrow> 'd tstate \<Rightarrow> byte list \<Rightarrow> nat \<Rightarrow> 'd tstate prog" where
  "send_back fs t buffer buffer_size =
     seq (pthread_mutex_lock t) (\<lambda>t.
       case fs_open fs (fsys t) ''/dev/aesdchar'' [O_RDONLY] of
         (d, file_fd) \<Rightarrow>
           if file_fd \<noteq> -1 then
             seq (drain_loop fs d file_fd (length buffer) buffer_size (tx t)) (\<lambda>(d, sent).
             pthread_mutex_unlock (t\<lparr>fsys := fs_close fs d file_fd, tx := sent\<rparr>))
           else pthread_mutex_unlock (t\<lparr>fsys := d\<rparr>))"

definition thread_exit :: "'d tstate \<Rightarrow> 'd tstate prog" where
  "thread_exit t = seq (free_buffer (close_sock t)) (\<lambda>t. ret (set_status t))"

definition threadfunc :: "alloc \<Rightarrow> 'd file_ops \<Rightarrow> bool \<Rightarrow> 'd tstate \<Rightarrow> 'd tstate prog" where
  "threadfunc A fs use_dev t =
     (case malloc A 1024 of
        None \<Rightarrow> ret (close_sock t)
      | Some buffer \<Rightarrow>
          seq (pthread_mutex_lock (t\<lparr>live_bufs := live_bufs t + 1\<rparr>)) (\<lambda>t.
          seq (of_option (recv_loop A buffer 1024 0 (rx t))) (\<lambda>(buffer, buffer_size, total_received, input).
            let t = t\<lparr>rx := input\<rparr> in
            if 0 < total_received then
              seq (of_option (is_ioctl_cmd buffer)) (\<lambda>cmd.
                if cmd then ioctl_request fs t buffer buffer_size
                else
                  seq (store_message fs use_dev t buffer total_received) (\<lambda>(t, stored).
                    if stored then seq (send_back fs t buffer buffer_size) thread_exit
                    else ret t))
            else thread_exit t)))"

end
