(* ===== verification/Server_Receive.thy ===== *)
theory Server_Receive
  imports Aesdsocket
begin

text \<open>
  The receive loop of the server: it never leaves its buffer, whatever pieces the data
  arrives in and however far the buffer has to grow, and the buffer then holds exactly
  the bytes received, followed by a NUL.
\<close>

text \<open>The buffer holds the message, terminated once anything was received.\<close>

definition holds :: "byte list \<Rightarrow> byte list \<Rightarrow> bool" where
  "holds buffer m \<longleftrightarrow> length m < length buffer \<and> take (length m) buffer = m \<and>
     (m \<noteq> [] \<longrightarrow> buffer ! length m = 0)"

text \<open>The message up to its first NUL, which is what the string functions see.\<close>

abbreviation text_of :: "byte list \<Rightarrow> byte list" where
  "text_of m \<equiv> takeWhile (\<lambda>b. b \<noteq> 0) m"

definition is_command :: "byte list \<Rightarrow> bool" where
  "is_command m \<longleftrightarrow> take (length IOCTL_CMD_STR) (text_of m) = IOCTL_CMD_STR"

definition complete :: "byte list \<Rightarrow> bool" where
  "complete m \<longleftrightarrow> newline \<in> set (text_of m) \<or> is_command m"

lemma holds_split:
  assumes "holds buffer m" and "m \<noteq> []"
  obtains rest where "buffer = m @ 0 # rest"
proof -
  from assms have "buffer = m @ drop (length m) buffer" "drop (length m) buffer = 0 # drop (Suc (length m)) buffer"
    unfolding holds_def by (metis append_take_drop_id, metis Cons_nth_drop_Suc)
  with that show thesis by metis
qed

lemma c_string_text: "c_string (m @ 0 # rest) = Some (text_of m)"
  by (induction m) auto

lemma IOCTL_CMD_STR_bytes:
  "IOCTL_CMD_STR = [65, 69, 83, 68, 67, 72, 65, 82, 95, 73, 79, 67, 83, 69, 69, 75, 84, 79, 58]"
  by (simp add: IOCTL_CMD_STR_def bytes_of_def)

lemma IOCTL_CMD_STR_no_nul: "0 \<notin> set IOCTL_CMD_STR"
  by (simp add: IOCTL_CMD_STR_bytes)

lemma is_ioctl_cmd_eq:
  assumes "holds buffer m" and "m \<noteq> []"
  shows "is_ioctl_cmd buffer = Some (is_command m)"
proof -
  obtain rest where "buffer = m @ 0 # rest" using assms by (rule holds_split)
  then have "c_string buffer = Some (text_of m)" by (simp only: c_string_text)
  from strncmp_literal [OF this IOCTL_CMD_STR_no_nul] show ?thesis
    by (simp add: is_ioctl_cmd_def is_command_def)
qed

lemma message_complete_eq:
  assumes "holds buffer m" and "m \<noteq> []"
  shows "message_complete buffer = Some (complete m)"
proof -
  obtain rest where "buffer = m @ 0 # rest" using assms by (rule holds_split)
  then have "c_string buffer = Some (text_of m)" by (simp only: c_string_text)
  from strchr_eq [OF this, of newline] is_ioctl_cmd_eq [OF assms] show ?thesis
    by (simp add: message_complete_def complete_def)
qed

text \<open>Storing a piece after the bytes already held.\<close>

lemma holds_store:
  assumes "holds buffer m" and "length m + length bytes < length buffer"
  shows "holds (overwrite (length m) (bytes @ [0]) buffer) (m @ bytes)"
    and "length (overwrite (length m) (bytes @ [0]) buffer) = length buffer"
  using assms by (simp_all add: holds_def overwrite_def nth_append)

lemma holds_grow:
  assumes "holds old m" and "take (length old) new = old" and "length old \<le> length new"
  shows "holds new m"
proof -
  have "take (length m) new = take (length m) old" "\<And>i. i < length old \<Longrightarrow> new ! i = old ! i"
    using assms unfolding holds_def by (metis min.strict_order_iff take_take less_imp_le, metis nth_take)
  with assms show ?thesis by (simp add: holds_def)
qed

lemma grow_buffer_correct:
  assumes A: "alloc_ok A" and h: "holds buffer m" and sz: "length buffer = n" "n < 2 ^ 63"
    and r: "grow_buffer A buffer n (length m) = (grown, buffer', n')"
  shows "holds buffer' m"
    and "grown \<Longrightarrow> length buffer' = n' \<and> length m + 1 < n' \<and> n' < 2 ^ 63 \<and> n \<le> n'"
    and "\<not> grown \<Longrightarrow> buffer' = buffer \<and> n' = 2 * n \<and> realloc A buffer n' = None"
    and "n' = n \<or> n' \<le> 2 * (length m + 1)"
proof -
  have m: "length m < n" using h sz by (simp add: holds_def)
  have "holds buffer' m \<and> (grown \<longrightarrow> length buffer' = n' \<and> length m + 1 < n' \<and> n' < 2 ^ 63 \<and> n \<le> n') \<and>
    (\<not> grown \<longrightarrow> buffer' = buffer \<and> n' = 2 * n \<and> realloc A buffer n' = None) \<and>
    (n' = n \<or> n' \<le> 2 * (length m + 1))"
  proof (cases "n - 1 \<le> length m")
    case True
    have two: "2 * n mod 2 ^ 64 = 2 * n" using sz(2) by simp
    show ?thesis
    proof (cases "realloc A buffer (2 * n)")
      case None
      with r True m two have "buffer' = buffer" "n' = 2 * n" "\<not> grown"
        by (simp_all add: grow_buffer_def)
      then show ?thesis using None h True m by simp
    next
      case (Some nb)
      with r True m two have eq: "buffer' = nb" "n' = 2 * n" "grown"
        by (simp_all add: grow_buffer_def)
      have "length buffer \<le> 2 * n" using sz by simp
      note nb = realloc_law [OF A Some this]
      then have "holds nb m" using holds_grow [OF h] sz by simp
      then show ?thesis using eq nb m True by simp
    qed
  next
    case False
    with r m have "buffer' = buffer" "n' = n" "grown" by (simp_all add: grow_buffer_def)
    with False h sz show ?thesis by simp
  qed
  then show "holds buffer' m"
    and "grown \<Longrightarrow> length buffer' = n' \<and> length m + 1 < n' \<and> n' < 2 ^ 63 \<and> n \<le> n'"
    and "\<not> grown \<Longrightarrow> buffer' = buffer \<and> n' = 2 * n \<and> realloc A buffer n' = None"
    and "n' = n \<or> n' \<le> 2 * (length m + 1)"
    by blast+
qed

text \<open>
  How the loop ends: with a complete message, because \<open>realloc\<close> failed, which leaves the
  size variable at twice the block, or because nothing more was delivered.
\<close>

definition received :: "alloc \<Rightarrow> byte list list \<Rightarrow> byte list \<Rightarrow> byte list \<Rightarrow> nat \<Rightarrow> byte list list \<Rightarrow> bool" where
  "received A input m buffer buffer_size rest \<longleftrightarrow>
     holds buffer m \<and>
     (if length buffer = buffer_size then complete m \<or> [] \<in> set input \<or> rest = []
      else buffer_size = 2 * length buffer \<and> realloc A buffer buffer_size = None) \<and>
     (buffer_size = 1024 \<or> buffer_size \<le> 2 * (length m + 1))"

lemma recv_rest: "recv input k = (bytes, rest) \<Longrightarrow> 0 < k \<Longrightarrow> [] \<notin> set input \<Longrightarrow> [] \<notin> set rest \<and> (bytes = [] \<longrightarrow> rest = [])"
  by (cases input) (auto split: if_splits)

lemma recv_loop_correct:
  assumes "alloc_ok A" and "holds buffer m" and "length buffer = n" and "length m + 1 < n" and "n < 2 ^ 63"
    and "n = 1024 \<or> n \<le> 2 * (length m + 1)"
  shows "\<exists>buffer' n' more rest. recv_loop A buffer n (length m) input = Some (buffer', n', length (m @ more), rest) \<and>
    concat input = more @ concat rest \<and> received A input (m @ more) buffer' n' rest"
  using assms
proof (induction "length (concat input)" arbitrary: buffer n m input rule: less_induct)
  case less
  let ?k = "n - length m - 1"
  obtain bytes rest where rc: "recv input ?k = (bytes, rest)" by fastforce
  have k: "0 < ?k" "usub (usub n (length m)) 1 = ?k" using less.prems(4) by simp_all
  have cc: "concat input = bytes @ concat rest" using rc by (rule recv_concat)
  show ?case
  proof (cases "bytes = []")
    case True
    then have "recv_loop A buffer n (length m) input = Some (buffer, n, length (m @ []), rest)"
      using rc k by (simp add: recv_loop.simps)
    moreover have "received A input (m @ []) buffer n rest"
      using less.prems recv_rest [OF rc k(1)] True by (auto simp: received_def)
    ultimately show ?thesis using cc True by (metis append_Nil)
  next
    case False
    let ?b = "overwrite (length m) (bytes @ [0]) buffer" and ?m = "m @ bytes"
    have fit: "length m + length bytes < length buffer"
      using recv_length [OF rc] less.prems(3,4) by simp
    note st = holds_store [OF less.prems(2) fit]
    obtain grown b' n' where gr: "grow_buffer A ?b n (length ?m) = (grown, b', n')"
      by (metis prod_cases3)
    have len: "length ?b = n" using st(2) less.prems(3) by simp
    note g = grow_buffer_correct [OF less.prems(1) st(1) len less.prems(5) gr]
    have ne: "?m \<noteq> []" using False by simp
    have step: "recv_loop A buffer n (length m) input =
        (if \<not> grown then Some (b', n', length ?m, rest)
         else if complete ?m then Some (b', n', length ?m, rest)
         else recv_loop A b' n' (length ?m) rest)"
      using rc k(2) False fit gr message_complete_eq [OF g(1) ne]
      by (subst recv_loop.simps) (simp add: Let_def)
    have bnd: "n' = 1024 \<or> n' \<le> 2 * (length ?m + 1)"
      using g(4) less.prems(6) by auto
    show ?thesis
    proof (cases "grown \<and> \<not> complete ?m")
      case True
      have "length (concat rest) < length (concat input)" using cc False by simp
      from less.hyps [OF this less.prems(1) g(1)] g(2) True bnd
      obtain b'' n'' more rest' where rec:
        "recv_loop A b' n' (length ?m) rest = Some (b'', n'', length (?m @ more), rest')"
        "concat rest = more @ concat rest'" "received A rest (?m @ more) b'' n'' rest'" by blast
      have "received A input (?m @ more) b'' n'' rest'"
        using rec(3) recv_rest [OF rc k(1)] by (auto simp: received_def split: if_splits)
      then show ?thesis using step True rec(1,2) cc
        by (intro exI [of _ b''] exI [of _ n''] exI [of _ "bytes @ more"] exI [of _ rest']) simp
    next
      case False
      have "received A input ?m b' n' rest"
      proof (cases grown)
        case True
        then show ?thesis using g(1,2) bnd \<open>\<not> (grown \<and> \<not> complete ?m)\<close> by (simp add: received_def)
      next
        case ng: False
        then show ?thesis using g(1,3) bnd len less.prems(4) by (auto simp: received_def)
      qed
      then show ?thesis using step False cc
        by (intro exI [of _ b'] exI [of _ n'] exI [of _ bytes] exI [of _ rest]) auto
    qed
  qed
qed

text \<open>The loop as the thread starts it, on a fresh block of 1024 bytes.\<close>

lemma recv_start:
  assumes "alloc_ok A" and "malloc A 1024 = Some buffer"
  obtains buffer' n' m rest where
    "recv_loop A buffer 1024 0 input = Some (buffer', n', length m, rest)"
    "concat input = m @ concat rest" "received A input m buffer' n' rest"
proof -
  have "length buffer = 1024" using assms by (rule malloc_law)
  then have "holds buffer []" by (simp add: holds_def)
  from recv_loop_correct [OF assms(1) this, of 1024 input] \<open>length buffer = 1024\<close> that
  show thesis by auto
qed

text \<open>The bytes a thread receives, and an allocator that serves every size up to a limit.\<close>

definition received_message :: "alloc \<Rightarrow> byte list list \<Rightarrow> byte list" where
  "received_message A input =
     (case malloc A 1024 of
        None \<Rightarrow> []
      | Some buffer \<Rightarrow>
          (case recv_loop A buffer 1024 0 input of
             None \<Rightarrow> []
           | Some (buffer', n, k, rest) \<Rightarrow> take k buffer'))"

definition alloc_serves :: "alloc \<Rightarrow> nat \<Rightarrow> bool" where
  "alloc_serves A limit \<longleftrightarrow> 1024 \<le> limit \<and> malloc A 1024 \<noteq> None \<and>
     (\<forall>old n. length old \<le> n \<longrightarrow> n \<le> limit \<longrightarrow> realloc A old n \<noteq> None)"

lemma zero_alloc_serves: "alloc_serves zero_alloc 1048575"
  by (simp add: alloc_serves_def zero_alloc_def)

lemma receive_facts:
  assumes A: "alloc_ok A" and serves: "alloc_serves A limit" and limit: "2 * (length (concat input) + 1) \<le> limit"
  obtains b0 buffer n rest where "malloc A 1024 = Some b0"
    "recv_loop A b0 1024 0 input = Some (buffer, n, length (received_message A input), rest)"
    "holds buffer (received_message A input)" "length buffer = n" "n \<le> limit"
    "concat input = received_message A input @ concat rest"
    "complete (received_message A input) \<or> [] \<in> set input \<or> rest = []"
proof -
  obtain b0 where b0: "malloc A 1024 = Some b0" using serves by (auto simp: alloc_serves_def)
  obtain buffer n m rest where rl: "recv_loop A b0 1024 0 input = Some (buffer, n, length m, rest)"
      and cc: "concat input = m @ concat rest" and rv: "received A input m buffer n rest"
    using recv_start [OF A b0] by metis
  have m: "received_message A input = m"
    using b0 rl rv by (simp add: received_message_def received_def holds_def)
  have n: "n \<le> limit" using rv cc limit serves by (auto simp: received_def alloc_serves_def)
  have "length buffer = n"
  proof (rule ccontr)
    assume "length buffer \<noteq> n"
    with rv have "n = 2 * length buffer" "realloc A buffer n = None" by (auto simp: received_def)
    moreover from serves have "length buffer \<le> n \<Longrightarrow> n \<le> limit \<Longrightarrow> realloc A buffer n \<noteq> None"
      unfolding alloc_serves_def by blast
    ultimately show False using n by simp
  qed
  with that b0 rl cc rv n m show thesis by (auto simp: received_def)
qed

text \<open>The text after the command word, as \<open>sscanf\<close> sees it.\<close>

definition command_args :: "byte list \<Rightarrow> byte list" where
  "command_args m = text_of (drop (length IOCTL_CMD_STR) m)"

lemma command_length: "is_command m \<Longrightarrow> length IOCTL_CMD_STR \<le> length m \<and> m \<noteq> []"
  using length_takeWhile_le [of "\<lambda>b. b \<noteq> 0" m]
  by (auto simp: is_command_def IOCTL_CMD_STR_bytes dest!: arg_cong [where f = length])

lemma command_args_eq:
  assumes "holds buffer m" and "is_command m"
  shows "c_string (drop (length IOCTL_CMD_STR) buffer) = Some (command_args m)"
proof -
  obtain rest where "buffer = m @ 0 # rest" using holds_split [OF assms(1)] command_length [OF assms(2)] by blast
  with command_length [OF assms(2)] show ?thesis by (simp add: c_string_text command_args_def)
qed

end
