(* ===== verification/Server_Session.thy ===== *)
theory Server_Session
  imports Server_Receive Driver_Read
begin

text \<open>
  What the server promises to a client. The locale \<open>log_file\<close> is the contract of the file
  the server works on, in terms of the log of commands, the bytes of an unfinished
  command and the positions of the open files; the server's lemmas are proved in it. It is
  interpreted on the character driver in \<open>Device_File\<close>.
\<close>

text \<open>The specification of accepting bytes.\<close>

definition accepts :: "byte list list \<Rightarrow> byte list \<Rightarrow> byte list \<Rightarrow> byte list list \<Rightarrow> byte list \<Rightarrow> bool" where
  "accepts cs p bs cs' p' \<longleftrightarrow>
     (if newline \<in> set (p @ bs) then cs' = push MAXOPS cs (p @ bs) \<and> p' = []
      else cs' = cs \<and> p' = p @ bs)"

text \<open>A write that fails keeps the log; the bytes may have become part of the unfinished command.\<close>

definition refuses :: "byte list list \<Rightarrow> byte list \<Rightarrow> byte list \<Rightarrow> byte list list \<Rightarrow> byte list \<Rightarrow> bool" where
  "refuses cs p bs cs' p' \<longleftrightarrow> cs' = cs \<and> (p' = p \<or> p' = p @ bs)"

text \<open>
  What a client that sends the seek command \<open>m\<close> is sent back when the log is \<open>cs\<close>: nothing for a
  malformed command; \<open>None\<close> when a number does not fit or the device rejects the request.
\<close>

definition command_reply :: "byte list list \<Rightarrow> byte list \<Rightarrow> byte list option" where
  "command_reply cs m =
     (case sscanf_u_u (command_args m) of
        Out_of_range \<Rightarrow> None
      | No_match \<Rightarrow> Some []
      | Scanned (c, off) r \<Rightarrow>
          (let sk = \<lparr>write_cmd = c, write_cmd_offset = off\<rparr>
           in if seek_valid cs sk then Some (drop (seek_pos cs sk) (concat cs)) else None))"

text \<open>The file refuses the message when it is opened for appending and written.\<close>

definition write_failed :: "'d file_ops \<Rightarrow> 'd \<Rightarrow> string \<Rightarrow> byte list \<Rightarrow> bool" where
  "write_failed fs d path m \<longleftrightarrow>
     (case fs_open fs d path [O_CREAT, O_WRONLY, O_APPEND] of
        (d1, fd) \<Rightarrow> \<exists>d2. fs_write fs d1 fd m = Returned (d2, -1))"

text \<open>How a thread that receives a seek command, or nothing, goes on.\<close>

lemma threadfunc_command:
  assumes "malloc A 1024 = Some b0" and "recv_loop A b0 1024 0 (rx t) = Some (buffer, n, length m, rest)"
    and "holds buffer m" and "is_command m" and "\<not> aesdsocket_mutex t"
  shows "threadfunc A fs use_dev t =
    ioctl_request fs (t\<lparr>live_bufs := live_bufs t + 1, aesdsocket_mutex := True, rx := rest\<rparr>) buffer n"
  using assms command_length [OF assms(4)] is_ioctl_cmd_eq [OF assms(3)]
  by (simp add: threadfunc_def pthread_mutex_lock_def)

lemma threadfunc_blocked: "malloc A 1024 \<noteq> None \<Longrightarrow> aesdsocket_mutex t \<Longrightarrow> threadfunc A fs use_dev t = Some Blocked"
  by (auto simp: threadfunc_def pthread_mutex_lock_def)

lemma session_empty:
  assumes "alloc_ok A" and "malloc A 1024 \<noteq> None" and "\<not> aesdsocket_mutex t" and "concat (rx t) = []"
  shows "\<exists>t'. threadfunc A fs use_dev t = ret t' \<and> aesdsocket_mutex t' \<and> fsys t' = fsys t \<and> tx t' = tx t \<and>
    closes t' = closes t + 1 \<and> live_bufs t' = live_bufs t \<and> status t'"
proof -
  obtain b0 where b0: "malloc A 1024 = Some b0" using assms(2) by blast
  obtain buffer n m rest where "recv_loop A b0 1024 0 (rx t) = Some (buffer, n, length m, rest)"
      "concat (rx t) = m @ concat rest" "received A (rx t) m buffer n rest"
    by (rule recv_start [OF assms(1) b0])
  with assms(4) have "recv_loop A b0 1024 0 (rx t) = Some (buffer, n, 0, rest)" by simp
  then show ?thesis using b0 assms(3)
    by (simp add: threadfunc_def pthread_mutex_lock_def thread_exit_def free_buffer_def close_sock_def set_status_def)
qed

locale log_file =
  fixes fs :: "'d file_ops"
    and path :: string
    and good :: "'d \<Rightarrow> bool"
    and content :: "'d \<Rightarrow> byte list list"
    and part :: "'d \<Rightarrow> byte list"
    and fpos :: "'d \<Rightarrow> int \<Rightarrow> nat option"
  assumes open_law: "good d \<Longrightarrow> fs_open fs d path flags = (d', fd) \<Longrightarrow>
      good d' \<and> content d' = content d \<and> part d' = part d \<and> (fd = -1 \<or> 0 \<le> fd \<and> fpos d' fd = Some 0)"
    and write_law: "good d \<Longrightarrow> fpos d fd = Some p \<Longrightarrow> length bs < 2 ^ 63 \<Longrightarrow>
      \<exists>d' r. fs_write fs d fd bs = Returned (d', r) \<and> good d' \<and> fpos d' fd \<noteq> None \<and>
        (if r = -1 then refuses (content d) (part d) bs (content d') (part d')
         else r = int (length bs) \<and> accepts (content d) (part d) bs (content d') (part d'))"
    and read_law: "good d \<Longrightarrow> fpos d fd = Some p \<Longrightarrow> 0 < n \<Longrightarrow> n < 2 ^ 64 \<Longrightarrow>
      \<exists>d' bs. fs_read fs d fd n = Returned (d', Some bs) \<and> good d' \<and> content d' = content d \<and> part d' = part d \<and>
        length bs \<le> n \<and> (bs = [] \<longleftrightarrow> length (concat (content d)) \<le> p) \<and>
        take (length bs) (drop p (concat (content d))) = bs \<and> fpos d' fd = Some (p + length bs)"
    and ioctl_law: "good d \<Longrightarrow> fpos d fd = Some p \<Longrightarrow> seek_valid (content d) sk \<Longrightarrow>
      \<exists>d' r. fs_ioctl fs d fd sk = Returned (d', r) \<and> r \<noteq> -1 \<and> good d' \<and> content d' = content d \<and>
        part d' = part d \<and> fpos d' fd = Some (seek_pos (content d) sk)"
    and ioctl_error: "good d \<Longrightarrow> fpos d fd = Some p \<Longrightarrow> \<not> seek_valid (content d) sk \<Longrightarrow>
      \<exists>d'. fs_ioctl fs d fd sk = Returned (d', -1)"
    and fsync_law: "good d \<Longrightarrow> good (fs_fsync fs d fd) \<and> content (fs_fsync fs d fd) = content d \<and>
      part (fs_fsync fs d fd) = part d"
    and close_law: "good d \<Longrightarrow> good (fs_close fs d fd) \<and> content (fs_close fs d fd) = content d \<and>
      part (fs_close fs d fd) = part d"
begin

text \<open>
  The read-and-send loop ends and has sent everything from the position on, in pieces
  that fit the buffer.
\<close>

lemma drain_correct:
  assumes "good d" and "fpos d fd = Some p" and "0 < n" and "n < 2 ^ 64" and "n \<le> room"
  shows "\<exists>d' pieces. drain_loop fs d fd room n sent = ret (d', sent @ pieces) \<and>
    concat pieces = drop p (concat (content d)) \<and> good d' \<and> content d' = content d \<and> part d' = part d"
  using assms(1,2)
proof (induction "length (concat (content d)) - p" arbitrary: d p sent rule: less_induct)
  case less
  obtain d' bs where rd: "fs_read fs d fd n = Returned (d', Some bs)" "good d'" "content d' = content d"
      "part d' = part d" "length bs \<le> n" "bs = [] \<longleftrightarrow> length (concat (content d)) \<le> p"
      "take (length bs) (drop p (concat (content d))) = bs" "fpos d' fd = Some (p + length bs)"
    using read_law [OF less.prems assms(3,4)] by blast
  show ?case
  proof (cases "bs = []")
    case True
    then have "drain_loop fs d fd room n sent = ret (d', sent @ [])"
      using rd(1) by (subst drain_loop.simps) (simp add: ret_def)
    then show ?thesis using rd True by (intro exI [of _ d'] exI [of _ "[]"]) simp
  next
    case False
    then have step: "drain_loop fs d fd room n sent = drain_loop fs d' fd room n (sent @ [bs])"
      using rd(1,5) assms(5) by (subst drain_loop.simps) simp
    have "length (concat (content d')) - (p + length bs) < length (concat (content d)) - p"
      using False rd(3,6) by (simp add: diff_less_mono2 not_le)
    from less.hyps [OF this rd(2,8), of "sent @ [bs]"]
    obtain d'' pieces where rest: "drain_loop fs d' fd room n (sent @ [bs]) = ret (d'', (sent @ [bs]) @ pieces)"
      "concat pieces = drop (p + length bs) (concat (content d'))" "good d''" "content d'' = content d'" "part d'' = part d'"
      by blast
    have "concat (bs # pieces) = drop p (concat (content d))"
      using rest(2) rd(3,7) append_take_drop_id [of "length bs" "drop p (concat (content d))"]
      by (simp add: add.commute)
    then show ?thesis using step rest rd(3,4)
      by (intro exI [of _ d''] exI [of _ "bs # pieces"]) simp
  qed
qed

text \<open>Storing a message with the mutex held, when the file can be opened.\<close>

lemma store_correct:
  assumes "good (fsys t)" and "aesdsocket_mutex t" and "holds buffer m" and "length m < 2 ^ 63"
    and "FILE_PATH use_dev = path"
    and "snd (fs_open fs (fsys t) path [O_CREAT, O_WRONLY, O_APPEND]) \<noteq> -1"
  shows "\<exists>d. store_message fs use_dev t buffer (length m) = ret (t\<lparr>fsys := d, aesdsocket_mutex := False\<rparr>, True) \<and>
    good d \<and> (if write_failed fs (fsys t) path m then refuses (content (fsys t)) (part (fsys t)) m (content d) (part d)
      else accepts (content (fsys t)) (part (fsys t)) m (content d) (part d))"
proof -
  obtain d1 fd where op: "fs_open fs (fsys t) path [O_CREAT, O_WRONLY, O_APPEND] = (d1, fd)" by fastforce
  with assms(6) open_law [OF assms(1) op] have d1: "good d1" "content d1 = content (fsys t)"
      "part d1 = part (fsys t)" "fd \<noteq> -1" "fpos d1 fd = Some 0" by simp_all
  obtain d2 r where wr: "fs_write fs d1 fd m = Returned (d2, r)" "good d2"
      "if r = -1 then refuses (content d1) (part d1) m (content d2) (part d2) else r = int (length m) \<and> accepts (content d1) (part d1) m (content d2) (part d2)"
    using write_law [OF d1(1,5) assms(4)] by blast
  let ?d = "fs_close fs (fs_fsync fs d2 fd) fd"
  have d: "good ?d" "content ?d = content d2" "part ?d = part d2"
    using fsync_law [OF wr(2)] close_law by auto
  have "take (length m) buffer = m" "length m < length buffer" using assms(3) by (simp_all add: holds_def)
  with op d1(4) wr(1) assms(2,5)
  have "store_message fs use_dev t buffer (length m) = ret (t\<lparr>fsys := ?d, aesdsocket_mutex := False\<rparr>, True)"
    by (simp add: store_message_def pthread_mutex_unlock_def)
  moreover have "write_failed fs (fsys t) path m \<longleftrightarrow> r = -1" using op wr(1) by (simp add: write_failed_def)
  ultimately show ?thesis using d wr(3) d1(2,3) by auto
qed

text \<open>The reply: the whole log, when the file can be opened.\<close>

lemma reply_correct:
  assumes "good (fsys t)" and "\<not> aesdsocket_mutex t" and "path = ''/dev/aesdchar''"
    and "0 < n" and "n < 2 ^ 64" and "n \<le> length buffer"
    and "snd (fs_open fs (fsys t) path [O_RDONLY]) \<noteq> -1"
  shows "\<exists>d pieces. send_back fs t buffer n = ret (t\<lparr>fsys := d, tx := tx t @ pieces\<rparr>) \<and>
    good d \<and> content d = content (fsys t) \<and> part d = part (fsys t) \<and> concat pieces = concat (content (fsys t))"
proof -
  obtain d1 fd where op: "fs_open fs (fsys t) path [O_RDONLY] = (d1, fd)" by fastforce
  with assms(7) open_law [OF assms(1) op] have d1: "good d1" "content d1 = content (fsys t)"
      "part d1 = part (fsys t)" "fd \<noteq> -1" "fpos d1 fd = Some 0" by simp_all
  obtain d2 pieces where dr: "drain_loop fs d1 fd (length buffer) n (tx t) = ret (d2, tx t @ pieces)"
      "concat pieces = concat (content d1)" "good d2" "content d2 = content d1" "part d2 = part d1"
    using drain_correct [OF d1(1,5) assms(4-6), of "tx t"] by auto
  let ?d = "fs_close fs d2 fd"
  have "send_back fs t buffer n = ret (t\<lparr>fsys := ?d, tx := tx t @ pieces\<rparr>)"
    using op d1(4) dr(1) assms(2,3)
    by (simp add: send_back_def pthread_mutex_lock_def pthread_mutex_unlock_def)
  with close_law [OF dr(3), of fd] dr d1 show ?thesis by auto
qed

text \<open>A connection that sends a message which is not a seek command.\<close>

lemma session_message:
  assumes "alloc_ok A" and "alloc_serves A limit" and "2 * (length (concat (rx t)) + 1) \<le> limit" and "limit < 2 ^ 63"
    and "good (fsys t)" and "\<not> aesdsocket_mutex t" and path: "path = ''/dev/aesdchar''"
    and opens: "\<And>d flags. good d \<Longrightarrow> snd (fs_open fs d path flags) \<noteq> -1"
    and m: "m = received_message A (rx t)" "m \<noteq> []" "\<not> is_command m"
  shows "\<exists>t'. threadfunc A fs True t = ret t' \<and> \<not> aesdsocket_mutex t' \<and> good (fsys t') \<and>
    closes t' = closes t + 1 \<and> live_bufs t' = live_bufs t \<and> status t' \<and>
    (if write_failed fs (fsys t) path m then refuses (content (fsys t)) (part (fsys t)) m (content (fsys t')) (part (fsys t'))
     else accepts (content (fsys t)) (part (fsys t)) m (content (fsys t')) (part (fsys t'))) \<and>
    concat (tx t') = concat (tx t) @ concat (content (fsys t'))"
proof -
  obtain b0 buffer n rest where rc: "malloc A 1024 = Some b0"
      "recv_loop A b0 1024 0 (rx t) = Some (buffer, n, length m, rest)" "holds buffer m" "length buffer = n"
      "n \<le> limit" "concat (rx t) = m @ concat rest"
    using receive_facts [OF assms(1-3)] m(1) by metis
  have len: "0 < n" "n < 2 ^ 64" using rc(3-5) assms(4) by (auto simp: holds_def)
  have lm: "length m < 2 ^ 63" using rc(3-5) assms(4) by (simp add: holds_def)
  let ?t1 = "t\<lparr>live_bufs := live_bufs t + 1, aesdsocket_mutex := True, rx := rest\<rparr>"
  have fp: "FILE_PATH True = path" by (simp add: FILE_PATH_def path)
  obtain d where st: "store_message fs True ?t1 buffer (length m) = ret (?t1\<lparr>fsys := d, aesdsocket_mutex := False\<rparr>, True)"
      and d: "good d" "if write_failed fs (fsys t) path m then refuses (content (fsys t)) (part (fsys t)) m (content d) (part d)
        else accepts (content (fsys t)) (part (fsys t)) m (content d) (part d)"
    using store_correct [of ?t1, OF _ _ rc(3) lm fp] opens assms(5) by (auto cong: if_cong)
  let ?t2 = "?t1\<lparr>fsys := d, aesdsocket_mutex := False\<rparr>"
  obtain d' pieces where re: "send_back fs ?t2 buffer n = ret (?t2\<lparr>fsys := d', tx := tx ?t2 @ pieces\<rparr>)"
      and d': "good d'" "content d' = content d" "part d' = part d" "concat pieces = concat (content d)"
    using reply_correct [of ?t2 n buffer, OF _ _ path len] opens d(1) rc(4) by auto
  have "threadfunc A fs True t = thread_exit (?t2\<lparr>fsys := d', tx := tx ?t2 @ pieces\<rparr>)"
    using rc(1,2) assms(6) m(2,3) is_ioctl_cmd_eq [OF rc(3) m(2)] st re
    by (simp add: threadfunc_def pthread_mutex_lock_def)
  then show ?thesis using d d'
    by (simp add: thread_exit_def free_buffer_def close_sock_def set_status_def)
qed

text \<open>A seek command with the mutex held: the exits of \<open>ioctl_request\<close>.\<close>

lemma request_correct:
  assumes good: "good (fsys t)" and "aesdsocket_mutex t" and "live_bufs t \<noteq> 0" and path: "path = ''/dev/aesdchar''"
    and opens: "snd (fs_open fs (fsys t) path [O_RDWR]) \<noteq> -1"
    and m: "holds buffer m" "is_command m" and len: "0 < n" "n < 2 ^ 64"
  shows "case command_reply (content (fsys t)) m of
      None \<Rightarrow> ioctl_request fs t buffer n = Some Undefined
    | Some bs \<Rightarrow> \<exists>d pieces. ioctl_request fs t buffer n =
          ret (t\<lparr>fsys := d, tx := tx t @ pieces, closes := closes t + 1, live_bufs := live_bufs t - 1,
            status := True, aesdsocket_mutex := False\<rparr>) \<and>
        good d \<and> content d = content (fsys t) \<and> part d = part (fsys t) \<and> concat pieces = bs"
proof (cases "sscanf_u_u (command_args m)")
  case Out_of_range
  then show ?thesis using command_args_eq [OF m] by (simp add: command_reply_def ioctl_request_def)
next
  case No_match
  then have "ioctl_request fs t buffer n = ret (t\<lparr>fsys := fsys t, tx := tx t @ [], closes := closes t + 1,
      live_bufs := live_bufs t - 1, status := True, aesdsocket_mutex := False\<rparr>)"
    using command_args_eq [OF m] assms(2,3)
    by (simp add: ioctl_request_def free_buffer_def close_sock_def set_status_def pthread_mutex_unlock_def)
  then show ?thesis using No_match good by (auto simp: command_reply_def intro!: exI [of _ "fsys t"] exI [of _ "[]"])
next
  case (Scanned p r)
  obtain c off where p: "p = (c, off)" by fastforce
  let ?sk = "\<lparr>write_cmd = c, write_cmd_offset = off\<rparr>"
  obtain d fd where op: "fs_open fs (fsys t) path [O_RDWR] = (d, fd)" by fastforce
  have d: "good d" "content d = content (fsys t)" "part d = part (fsys t)" "0 \<le> fd" "fpos d fd = Some 0"
    using open_law [OF good op] opens op by auto
  show ?thesis
  proof (cases "seek_valid (content (fsys t)) ?sk")
    case True
    then obtain d1 r' where io: "fs_ioctl fs d fd ?sk = Returned (d1, r')" "r' \<noteq> -1" "good d1" "content d1 = content d"
        "part d1 = part d" "fpos d1 fd = Some (seek_pos (content d) ?sk)"
      using ioctl_law [OF d(1,5)] d(2) by metis
    obtain d2 pieces where dr: "drain_loop fs d1 fd n n (tx t) = ret (d2, tx t @ pieces)"
        "concat pieces = drop (seek_pos (content d) ?sk) (concat (content d1))" "good d2" "content d2 = content d1" "part d2 = part d1"
      using drain_correct [OF io(3,6) len order_refl, of "tx t"] by blast
    have "ioctl_request fs t buffer n = ret (t\<lparr>fsys := fs_close fs d2 fd, tx := tx t @ pieces, closes := closes t + 1,
        live_bufs := live_bufs t - 1, status := True, aesdsocket_mutex := False\<rparr>)"
      using command_args_eq [OF m] Scanned p op d io dr path assms(2,3)
      by (simp add: ioctl_request_def free_buffer_def close_sock_def set_status_def pthread_mutex_unlock_def)
    then show ?thesis using True Scanned p d io dr close_law [OF dr(3), of fd]
      by (simp add: command_reply_def) blast
  next
    case False
    then obtain d1 where "fs_ioctl fs d fd ?sk = Returned (d1, -1)" using ioctl_error [OF d(1,5)] d(2) by metis
    then show ?thesis using False Scanned p command_args_eq [OF m] op d path assms(2,3)
      by (simp add: command_reply_def ioctl_request_def free_buffer_def pthread_mutex_unlock_def)
  qed
qed

text \<open>A connection that sends a seek command.\<close>

lemma session_command:
  assumes "alloc_ok A" and "alloc_serves A limit" and "2 * (length (concat (rx t)) + 1) \<le> limit" and "limit < 2 ^ 63"
    and "good (fsys t)" and "\<not> aesdsocket_mutex t" and path: "path = ''/dev/aesdchar''"
    and opens: "\<And>d flags. good d \<Longrightarrow> snd (fs_open fs d path flags) \<noteq> -1"
    and m: "is_command (received_message A (rx t))"
  shows "case command_reply (content (fsys t)) (received_message A (rx t)) of
      None \<Rightarrow> threadfunc A fs True t = Some Undefined
    | Some bs \<Rightarrow> \<exists>t'. threadfunc A fs True t = ret t' \<and> \<not> aesdsocket_mutex t' \<and> good (fsys t') \<and>
        closes t' = closes t + 1 \<and> live_bufs t' = live_bufs t \<and> status t' \<and>
        content (fsys t') = content (fsys t) \<and> part (fsys t') = part (fsys t) \<and> concat (tx t') = concat (tx t) @ bs"
proof -
  let ?m = "received_message A (rx t)"
  obtain b0 buffer n rest where rc: "malloc A 1024 = Some b0"
      "recv_loop A b0 1024 0 (rx t) = Some (buffer, n, length ?m, rest)" "holds buffer ?m" "length buffer = n" "n \<le> limit"
    using receive_facts [OF assms(1-3)] by metis
  have len: "0 < n" "n < 2 ^ 64" using rc(3-5) assms(4) by (auto simp: holds_def)
  let ?t = "t\<lparr>live_bufs := live_bufs t + 1, aesdsocket_mutex := True, rx := rest\<rparr>"
  note thread = threadfunc_command [OF rc(1,2,3) m assms(6), of fs True]
  show ?thesis
    using request_correct [of ?t, OF _ _ _ path _ rc(3) m len] thread assms(5) opens
    by (auto split: option.splits)
qed

end

end
