(* ===== verification/Device_File.thy ===== *)
theory Device_File
  imports Server_Session Driver_Properties
begin

text \<open>
  The character driver behind the system calls: the open files of a process on top of the
  driver's handlers, as the kernel dispatches \<open>open\<close>, \<open>read\<close>, \<open>write\<close>, \<open>ioctl\<close> and \<open>close\<close> on
  \<open>/dev/aesdchar\<close>. It satisfies the contract \<open>log_file\<close> the server is proved against, so the
  server's lemmas hold for the server running on the driver of this repository.
\<close>

section \<open>System calls on the driver\<close>

text \<open>The part of the caller's memory a call uses: a buffer of bytes or a seek request.\<close>

datatype umem = Bytes "byte list" | Seek aesd_seekto

fun user_bytes :: "umem \<Rightarrow> byte list" where
  "user_bytes (Bytes bs) = bs"
| "user_bytes (Seek sk) = []"

text \<open>The copy functions on valid user memory.\<close>

definition user_ok :: "umem kernel \<Rightarrow> bool" where
  "user_ok K \<longleftrightarrow>
     (\<forall>bs buf. length bs < 2 ^ 63 \<longrightarrow> copy_from_user K (Bytes bs) buf (of_nat (length bs)) = (bs, 0)) \<and>
     (\<forall>u buf bs. copy_to_user K u buf bs = (Bytes bs, 0)) \<and>
     (\<forall>sk arg. copy_seekto_from_user K (Seek sk) arg = (sk, 0))"

text \<open>
  \<open>vnext\<close> counts the calls of \<open>open\<close> and is the next descriptor. The kernel may refuse a call before it reaches
  the driver (no descriptor left, no memory, the node is gone): \<open>vfails\<close> says which ones.
\<close>

record vfs =
  vdrv :: drv
  vfiles :: "int \<Rightarrow> struct_file option"
  vnext :: nat
  vfails :: "nat \<Rightarrow> bool"

definition vfs_open :: "vfs \<Rightarrow> string \<Rightarrow> oflag list \<Rightarrow> vfs \<times> int" where
  "vfs_open d path flags =
     (if path = ''/dev/aesdchar'' then
        if vfails d (vnext d) then (d\<lparr>vnext := vnext d + 1\<rparr>, -1)
        else (case aesd_open \<lparr>i_cdev = Aesd_device\<rparr> \<lparr>private_data = None, f_pos = 0\<rparr> of
           (filp, r) \<Rightarrow>
             if r \<noteq> 0 then (d, -1)
             else (d\<lparr>vfiles := (vfiles d)(int (vnext d) \<mapsto> filp), vnext := vnext d + 1\<rparr>, int (vnext d)))
      else (d, -1))"

definition vfs_write :: "umem kernel \<Rightarrow> vfs \<Rightarrow> int \<Rightarrow> byte list \<Rightarrow> (vfs \<times> int) outcome" where
  "vfs_write K d fd bs =
     (case vfiles d fd of
        None \<Rightarrow> Returned (d, -1)
      | Some filp \<Rightarrow>
          (case aesd_write K (Bytes bs) (vdrv d) filp 0 (of_nat (length bs)) (f_pos filp) of
             None \<Rightarrow> Undefined
           | Some Blocks \<Rightarrow> Blocked
           | Some (Done (s, pos, r)) \<Rightarrow>
               Returned (d\<lparr>vdrv := s, vfiles := (vfiles d)(fd \<mapsto> filp\<lparr>f_pos := pos\<rparr>)\<rparr>,
                 case r of Inl e \<Rightarrow> -1 | Inr n \<Rightarrow> int (unat n))))"

definition vfs_read :: "umem kernel \<Rightarrow> vfs \<Rightarrow> int \<Rightarrow> nat \<Rightarrow> (vfs \<times> byte list option) outcome" where
  "vfs_read K d fd n =
     (case vfiles d fd of
        None \<Rightarrow> Returned (d, None)
      | Some filp \<Rightarrow>
          (case aesd_read K (Bytes []) (vdrv d) filp 0 (of_nat n) (f_pos filp) of
             None \<Rightarrow> Undefined
           | Some Blocks \<Rightarrow> Blocked
           | Some (Done (u, s, pos, r)) \<Rightarrow>
               Returned (d\<lparr>vdrv := s, vfiles := (vfiles d)(fd \<mapsto> filp\<lparr>f_pos := pos\<rparr>)\<rparr>,
                 case r of Inl e \<Rightarrow> None | Inr k \<Rightarrow> Some (take (unat k) (user_bytes u)))))"

definition vfs_ioctl :: "umem kernel \<Rightarrow> vfs \<Rightarrow> int \<Rightarrow> aesd_seekto \<Rightarrow> (vfs \<times> int) outcome" where
  "vfs_ioctl K d fd sk =
     (case vfiles d fd of
        None \<Rightarrow> Returned (d, -1)
      | Some filp \<Rightarrow>
          (case aesd_unlocked_ioctl K (Seek sk) (vdrv d) filp (AESDCHAR_IOCSEEKTO K) 0 of
             None \<Rightarrow> Undefined
           | Some Blocks \<Rightarrow> Blocked
           | Some (Done (s, filp', r)) \<Rightarrow>
               Returned (d\<lparr>vdrv := s, vfiles := (vfiles d)(fd \<mapsto> filp')\<rparr>,
                 case r of Inl e \<Rightarrow> -1 | Inr n \<Rightarrow> int (unat n))))"

definition vfs_ops :: "umem kernel \<Rightarrow> vfs file_ops" where
  "vfs_ops K = \<lparr>fs_open = vfs_open, fs_write = vfs_write K, fs_read = vfs_read K, fs_ioctl = vfs_ioctl K,
     fs_fsync = (\<lambda>d fd. d), fs_close = (\<lambda>d fd. d\<lparr>vfiles := (vfiles d)(fd := None)\<rparr>)\<rparr>"

lemma vfs_ops_sel [simp]:
  "fs_open (vfs_ops K) = vfs_open" "fs_write (vfs_ops K) = vfs_write K" "fs_read (vfs_ops K) = vfs_read K"
  "fs_ioctl (vfs_ops K) = vfs_ioctl K" "fs_fsync (vfs_ops K) = (\<lambda>d fd. d)"
  "fs_close (vfs_ops K) = (\<lambda>d fd. d\<lparr>vfiles := (vfiles d)(fd := None)\<rparr>)"
  by (simp_all add: vfs_ops_def)

section \<open>The contract\<close>

text \<open>The device is in order, and none of the calls of \<open>open\<close> is refused by the kernel.\<close>

definition vfs_good :: "umem kernel \<Rightarrow> heap \<Rightarrow> vfs \<Rightarrow> bool" where
  "vfs_good K F d \<longleftrightarrow> memory_ok K \<and> user_ok K \<and> drv_inv F (vdrv d) \<and> \<not> locked (vdrv d) \<and>
     (\<forall>fd f. vfiles d fd = Some f \<longrightarrow> private_data f \<noteq> None) \<and> (\<forall>n. \<not> vfails d n)"

definition vfs_pos :: "vfs \<Rightarrow> int \<Rightarrow> nat option" where
  "vfs_pos d fd = map_option (\<lambda>f. unat (f_pos f)) (vfiles d fd)"

abbreviation vfs_log :: "vfs \<Rightarrow> byte list list" where
  "vfs_log d \<equiv> drv_cmds (vdrv d)"

abbreviation vfs_part :: "vfs \<Rightarrow> byte list" where
  "vfs_part d \<equiv> drv_pend (vdrv d)"

lemma vfs_goodD:
  assumes "vfs_good K F d" and "vfs_pos d fd = Some p"
  obtains filp dev where "vfiles d fd = Some filp" "private_data filp = Some dev" "unat (f_pos filp) = p"
    "memory_ok K" "user_ok K" "drv_inv F (vdrv d)" "\<not> locked (vdrv d)"
proof -
  obtain filp where f: "vfiles d fd = Some filp" "unat (f_pos filp) = p"
    using assms(2) by (auto simp: vfs_pos_def)
  then obtain dev where "private_data filp = Some dev" using assms(1) unfolding vfs_good_def by blast
  with f assms(1) that show thesis by (simp add: vfs_good_def)
qed

lemma vfs_good_update:
  "vfs_good K F d \<Longrightarrow> drv_inv F s \<Longrightarrow> \<not> locked s \<Longrightarrow> private_data f \<noteq> None \<Longrightarrow>
     vfs_good K F (d\<lparr>vdrv := s, vfiles := (vfiles d)(fd \<mapsto> f)\<rparr>)"
  by (auto simp: vfs_good_def)

lemma vfs_open_good:
  assumes "vfs_good K F d" and "vfs_open d ''/dev/aesdchar'' flags = (d', fd)"
  shows "vfs_good K F d' \<and> vdrv d' = vdrv d \<and> 0 \<le> fd \<and> vfs_pos d' fd = Some 0"
  using assms by (auto simp: vfs_open_def aesd_open_def vfs_good_def vfs_pos_def split: if_splits)

lemma vfs_write_good:
  assumes good: "vfs_good K F d" and pos: "vfs_pos d fd = Some p" and len: "length bs < 2 ^ 63"
  shows "\<exists>d' r. vfs_write K d fd bs = Returned (d', r) \<and> vfs_good K F d' \<and> vfs_pos d' fd \<noteq> None \<and>
    (if r = -1 then refuses (vfs_log d) (vfs_part d) bs (vfs_log d') (vfs_part d')
     else r = int (length bs) \<and> accepts (vfs_log d) (vfs_part d) bs (vfs_log d') (vfs_part d'))"
proof -
  obtain filp dev where f: "vfiles d fd = Some filp" "private_data filp = Some dev" "memory_ok K" "user_ok K"
      "drv_inv F (vdrv d)" "\<not> locked (vdrv d)"
    using vfs_goodD [OF good pos] by metis
  have cnt: "unat (of_nat (length bs) :: size_t) = length bs" using len by (simp add: unat_of_nat64)
  then have small: "unat (of_nat (length bs) :: size_t) < 2 ^ 63" using len by simp
  have cfu: "copy_from_user K (Bytes bs) 0 (of_nat (length bs)) = (bs, 0)"
    using f(4) len unfolding user_ok_def by blast
  let ?res = "\<lambda>s pos. d\<lparr>vdrv := s, vfiles := (vfiles d)(fd \<mapsto> filp\<lparr>f_pos := pos\<rparr>)\<rparr>"
  have keep: "vfs_good K F (?res s pos) \<and> vfs_pos (?res s pos) fd \<noteq> None" if "drv_inv F s" "\<not> locked s" for s pos
    using vfs_good_update [OF good that] f(2) by (simp add: vfs_pos_def)
  from f(3,5,6,2) small cfu show ?thesis
  proof (cases rule: aesd_write_cases [where pos = "f_pos filp"])
    case (nomem_reserve s')
    then show ?thesis using f(1) keep [of s' "f_pos filp"] by (simp add: vfs_write_def refuses_def)
  next
    case (fault s')
    then show ?thesis by simp
  next
    case (nomem_commit s')
    then show ?thesis using f(1) keep [of s' "f_pos filp"] by (simp add: vfs_write_def refuses_def)
  next
    case (pending s')
    then show ?thesis using f(1) cnt keep [of s' "f_pos filp + of_nat (length bs)"]
      by (simp add: vfs_write_def accepts_def)
  next
    case (committed s')
    then show ?thesis using f(1) cnt keep [of s' "f_pos filp + of_nat (length bs)"]
      by (simp add: vfs_write_def accepts_def)
  qed
qed

lemma vfs_read_chunk:
  assumes good: "vfs_good K F d" and pos: "vfs_pos d fd = Some p" and n: "0 < n" "n < 2 ^ 64"
  shows "\<exists>d'. vfs_read K d fd n = Returned (d', Some (read_chunk (vfs_log d) p n)) \<and> vfs_good K F d' \<and>
    vdrv d' = vdrv d \<and> vfs_pos d' fd = Some (p + length (read_chunk (vfs_log d) p n))"
proof -
  obtain filp dev where f: "vfiles d fd = Some filp" "private_data filp = Some dev" "unat (f_pos filp) = p"
      "user_ok K" "drv_inv F (vdrv d)" "\<not> locked (vdrv d)"
    using vfs_goodD [OF good pos] by metis
  let ?cs = "vfs_log d" and ?chunk = "read_chunk (vfs_log d) p n"
  let ?d' = "d\<lparr>vfiles := (vfiles d)(fd \<mapsto> filp\<lparr>f_pos := f_pos filp + of_nat (length ?chunk)\<rparr>)\<rparr>"
  have un: "unat (of_nat n :: size_t) = n" using n by (simp add: unat_of_nat64)
  have bound: "length (concat ?cs) < 2 ^ 62" using length_contents_bound f(5) by (auto simp: drv_inv_def)
  have len: "length ?chunk \<le> length (drop p (concat ?cs))"
    using read_chunk_prefix [of p ?cs n] by (metis length_append le_add1)
  have small: "length ?chunk < 2 ^ 64" using len bound by simp
  have empty: "?chunk = [] \<longleftrightarrow> length (concat ?cs) \<le> p" using n by (simp add: read_chunk_empty_iff)
  have cp: "copy_to_user K (Bytes []) 0 ?chunk = (Bytes ?chunk, 0)" using f(4) by (simp add: user_ok_def)
  have pos': "unat (f_pos filp + of_nat (length ?chunk)) = p + length ?chunk"
  proof (cases "?chunk = []")
    case True
    then show ?thesis using f(3) by simp
  next
    case False
    with empty len bound have "p + length ?chunk < 2 ^ 64" by simp
    with f(3) small show ?thesis by (simp add: unat_add_less unat_of_nat64)
  qed
  have "vfs_read K d fd n = Returned (?d', Some ?chunk)"
  proof (cases "?chunk = []")
    case True
    then show ?thesis
      using empty aesd_read_eq [OF f(5,6,2), of K "Bytes []" 0 "of_nat n" "f_pos filp"] f(1,3)
      by (simp add: vfs_read_def read_outcome_def fun_upd_idem)
  next
    case False
    then show ?thesis
      using empty aesd_read_eq [OF f(5,6,2), of K "Bytes []" 0 "of_nat n" "f_pos filp"] f(1,3) un cp small
      by (simp add: vfs_read_def read_outcome_def Let_def unat_of_nat64)
  qed
  moreover have "vfs_good K F ?d'" using vfs_good_update [OF good f(5,6), of _ fd] f(2) by simp
  moreover have "vfs_pos ?d' fd = Some (p + length ?chunk)" using pos' by (simp add: vfs_pos_def)
  ultimately show ?thesis by (intro exI [of _ ?d']) simp
qed

lemma vfs_read_good:
  assumes "vfs_good K F d" and "vfs_pos d fd = Some p" and "0 < n" and "n < 2 ^ 64"
  shows "\<exists>d' bs. vfs_read K d fd n = Returned (d', Some bs) \<and> vfs_good K F d' \<and> vfs_log d' = vfs_log d \<and>
    vfs_part d' = vfs_part d \<and> length bs \<le> n \<and> (bs = [] \<longleftrightarrow> length (concat (vfs_log d)) \<le> p) \<and>
    take (length bs) (drop p (concat (vfs_log d))) = bs \<and> vfs_pos d' fd = Some (p + length bs)"
  using vfs_read_chunk [OF assms] length_read_chunk [of "vfs_log d" p n] take_read_chunk [of "vfs_log d" p n]
    read_chunk_empty_iff [of "vfs_log d" p n] assms(3) by auto

text \<open>
  What the driver makes of a message that is written to a file opened for it: the state after \<open>aesd_write\<close>. When the
  call succeeds the log has accepted all bytes, and only when it returns an error it has refused them.
\<close>

definition driver_takes :: "umem kernel \<Rightarrow> drv \<Rightarrow> byte list \<Rightarrow> drv \<Rightarrow> bool" where
  "driver_takes K s m s' \<longleftrightarrow>
     (\<exists>pos r. aesd_write K (Bytes m) s \<lparr>private_data = Some Aesd_device, f_pos = 0\<rparr> 0 (of_nat (length m)) 0 = Some (Done (s', pos, r)) \<and>
        (case r of
           Inr n \<Rightarrow> unat n = length m \<and> accepts (drv_cmds s) (drv_pend s) m (drv_cmds s') (drv_pend s')
         | Inl e \<Rightarrow> refuses (drv_cmds s) (drv_pend s) m (drv_cmds s') (drv_pend s')))"

lemma vfs_write_driver:
  assumes "vfs_good K F d" and f: "vfiles d fd = Some \<lparr>private_data = Some Aesd_device, f_pos = 0\<rparr>" and "length m < 2 ^ 63"
    and w: "vfs_write K d fd m = Returned (d', r)"
  shows "driver_takes K (vdrv d) m (vdrv d')"
proof -
  have "vfs_pos d fd = Some 0" using f by (simp add: vfs_pos_def)
  from vfs_write_good [OF assms(1) this assms(3)] w
  have "if r = -1 then refuses (vfs_log d) (vfs_part d) m (vfs_log d') (vfs_part d')
     else r = int (length m) \<and> accepts (vfs_log d) (vfs_part d) m (vfs_log d') (vfs_part d')" by auto
  moreover have "uint x = int k \<Longrightarrow> unat x = k" for x :: size_t and k by (metis nat_int unat_eq_nat_uint)
  ultimately show ?thesis using w f
    by (auto simp: vfs_write_def driver_takes_def split: option.splits run.splits prod.splits sum.splits if_splits)
qed

text \<open>The other calls leave the driver as it is, or locked.\<close>

lemma read_same_device: "aesd_read K u s filp buf cnt pos = Some (Done (u', s', pos', r)) \<Longrightarrow> s' = s"
  by (auto simp: aesd_read_def Let_def split: if_splits bind_splits option.splits prod.splits)

lemma ioctl_same_device:
  "aesd_unlocked_ioctl K u s filp cmd arg = Some (Done (s', filp', r)) \<Longrightarrow> s' = s \<or> s' = lock_dev s"
  by (auto simp: aesd_unlocked_ioctl_def Let_def split: if_splits bind_splits prod.splits)

lemma vfs_calls_drv:
  "vfs_open d path flags = (d', fd) \<Longrightarrow> vdrv d' = vdrv d"
  "vfs_read K d fd n = Returned (d', bs) \<Longrightarrow> vdrv d' = vdrv d"
  "vfs_ioctl K d fd sk = Returned (d', r) \<Longrightarrow> vdrv d' = vdrv d \<or> vdrv d' = lock_dev (vdrv d)"
proof -
  show "vfs_open d path flags = (d', fd) \<Longrightarrow> vdrv d' = vdrv d"
    by (auto simp: vfs_open_def aesd_open_def split: if_splits)
  show "vfs_read K d fd n = Returned (d', bs) \<Longrightarrow> vdrv d' = vdrv d"
    by (auto simp: vfs_read_def dest!: read_same_device split: option.splits run.splits prod.splits)
  show "vfs_ioctl K d fd sk = Returned (d', r) \<Longrightarrow> vdrv d' = vdrv d \<or> vdrv d' = lock_dev (vdrv d)"
    by (auto simp: vfs_ioctl_def dest!: ioctl_same_device split: option.splits run.splits prod.splits)
qed

lemma seek_pos_less:
  assumes "seek_valid cs sk"
  shows "seek_pos cs sk < length (concat cs)"
proof -
  let ?k = "unat (write_cmd sk)" and ?o = "unat (write_cmd_offset sk)"
  have "locate (map length cs) (seek_pos cs sk) = Some (?k, ?o)"
    using assms by (simp add: seek_valid_def locate_Some_iff seek_pos_def length_concat take_map)
  then show ?thesis using locate_eq_None [of "map length cs" "seek_pos cs sk"] by (simp add: length_concat)
qed

lemma vfs_ioctl_good:
  assumes good: "vfs_good K F d" and pos: "vfs_pos d fd = Some p"
  shows "if seek_valid (vfs_log d) sk
    then \<exists>d'. vfs_ioctl K d fd sk = Returned (d', 0) \<and> vfs_good K F d' \<and> vdrv d' = vdrv d \<and>
      vfs_pos d' fd = Some (seek_pos (vfs_log d) sk)
    else \<exists>d'. vfs_ioctl K d fd sk = Returned (d', -1) \<and> vdrv d' = lock_dev (vdrv d)"
proof -
  obtain filp dev where f: "vfiles d fd = Some filp" "private_data filp = Some dev"
      "user_ok K" "drv_inv F (vdrv d)" "\<not> locked (vdrv d)"
    using vfs_goodD [OF good pos] by metis
  have sk: "copy_seekto_from_user K (Seek sk) 0 = (sk, 0)" using f(3) by (simp add: user_ok_def)
  note io = aesd_ioctl_eq [OF f(4,5,2) refl sk]
  show ?thesis
  proof (cases "seek_valid (vfs_log d) sk")
    case True
    let ?d' = "d\<lparr>vfiles := (vfiles d)(fd \<mapsto> filp\<lparr>f_pos := of_nat (seek_pos (vfs_log d) sk)\<rparr>)\<rparr>"
    have "length (concat (vfs_log d)) < 2 ^ 62" using length_contents_bound f(4) by (auto simp: drv_inv_def)
    then have "vfs_pos ?d' fd = Some (seek_pos (vfs_log d) sk)"
      using seek_pos_less [OF True] by (simp add: vfs_pos_def unat_of_nat64)
    moreover have "vfs_good K F ?d'" using vfs_good_update [OF good f(4,5), of _ fd] f(2) by simp
    moreover have "vfs_ioctl K d fd sk = Returned (?d', 0)" using True io f(1) by (simp add: vfs_ioctl_def)
    ultimately show ?thesis using True by auto
  next
    case False
    then show ?thesis using io f(1) by (simp add: vfs_ioctl_def)
  qed
qed

interpretation aesdchar: log_file "vfs_ops K" "''/dev/aesdchar''" "vfs_good K F" vfs_log vfs_part vfs_pos
  for K :: "umem kernel" and F :: heap
proof (unfold_locales, goal_cases)
  case (1 d flags d' fd)
  then show ?case using vfs_open_good [of K F d flags d' fd] by simp
next
  case (2 d fd p bs)
  then show ?case using vfs_write_good by simp
next
  case (3 d fd p n)
  then show ?case using vfs_read_good by simp
next
  case (4 d fd p sk)
  then show ?case using vfs_ioctl_good [OF 4(1,2), of sk] by auto
next
  case (5 d fd p sk)
  then show ?case using vfs_ioctl_good [OF 5(1,2), of sk] by auto
next
  case (6 d fd)
  then show ?case by simp
next
  case (7 d fd)
  then show ?case by (simp add: vfs_good_def)
qed

end
