(* ===== verification/Server_Claims.thy ===== *)
theory Server_Claims
  imports Device_File
begin

text \<open>
  The properties of the server's connection threads, on the character driver of this
  repository where they touch the device, with witnesses on a concrete device.
\<close>

section \<open>A concrete server\<close>

text \<open>The reference kernel for callers whose memory is \<open>umem\<close>.\<close>

definition srv_kernel :: "umem kernel" where
  "srv_kernel = \<lparr>kmalloc = ref_kmalloc, krealloc = ref_krealloc, kfree = (\<lambda>h p. h(p := None)),
     copy_to_user = (\<lambda>u buf bs. (Bytes bs, 0)),
     copy_from_user = (\<lambda>u buf n. if unat n \<le> length (user_bytes u) then (take (unat n) (user_bytes u), 0) else ([], n)),
     copy_seekto_from_user = (\<lambda>u arg. case u of Seek sk \<Rightarrow> (sk, 0) | Bytes bs \<Rightarrow> (\<lparr>write_cmd = 0, write_cmd_offset = 0\<rparr>, 8)),
     fixed_size_llseek = ref_llseek,
     IOWR = (\<lambda>t nr sz. 0xC0000000 + sz * 65536 + t * 256 + nr),
     MKDEV = (\<lambda>ma mi. ma), MAJOR = (\<lambda>d. d),
     alloc_chrdev_region = ref_alloc_chrdev, unregister_chrdev_region = (\<lambda>R d. R - {d}),
     cdev_init = (\<lambda>c ops. \<lparr>cdev_owned = False, cdev_ops = Some ops, cdev_live = False\<rparr>),
     cdev_add = (\<lambda>c d. (c\<lparr>cdev_live := True\<rparr>, 0)),
     cdev_del = (\<lambda>c. c\<lparr>cdev_live := False\<rparr>)\<rparr>"

lemma srv_kernel_sel:
  "kmalloc srv_kernel = ref_kmalloc" "krealloc srv_kernel = ref_krealloc" "kfree srv_kernel = (\<lambda>h p. h(p := None))"
  "copy_from_user srv_kernel = (\<lambda>u buf n. if unat n \<le> length (user_bytes u) then (take (unat n) (user_bytes u), 0) else ([], n))"
  by (simp_all add: srv_kernel_def)

lemma srv_memory_ok: "memory_ok srv_kernel"
proof -
  have "kmalloc_ok srv_kernel = kmalloc_ok ref_kernel" "krealloc_ok srv_kernel = krealloc_ok ref_kernel"
      "kfree_ok srv_kernel = kfree_ok ref_kernel"
    by (simp_all only: kmalloc_ok_def krealloc_ok_def kfree_ok_def srv_kernel_sel ref_kernel_sel)
  moreover have "copy_from_user_ok srv_kernel"
    by (auto simp: copy_from_user_ok_def srv_kernel_sel unat_eq_zero)
  ultimately show ?thesis using ref_memory_ok by (simp add: memory_ok_def)
qed

lemma srv_user_ok: "user_ok srv_kernel"
  by (simp add: user_ok_def srv_kernel_def unat_of_nat64)

definition demo_vfs :: vfs where
  "demo_vfs = \<lparr>vdrv = demo, vfiles = (\<lambda>fd. None), vnext = 3, vfails = (\<lambda>n. False)\<rparr>"

lemma demo_vfs_good: "vfs_good srv_kernel Map.empty demo_vfs"
  using srv_memory_ok srv_user_ok demo_inv by (simp add: vfs_good_def demo_vfs_def)

lemma demo_vfs_sel [simp]: "vdrv demo_vfs = demo"
  by (simp add: demo_vfs_def)

text \<open>A thread that starts on this device, with the data its client sends.\<close>

definition demo_thread :: "byte list list \<Rightarrow> vfs tstate" where
  "demo_thread input = \<lparr>aesdsocket_mutex = False, fsys = demo_vfs, rx = input, tx = [], closes = 0,
     live_bufs = 0, status = False\<rparr>"

lemma demo_thread_sel [simp]:
  "\<not> aesdsocket_mutex (demo_thread i)" "fsys (demo_thread i) = demo_vfs" "rx (demo_thread i) = i"
  "tx (demo_thread i) = []" "closes (demo_thread i) = 0" "live_bufs (demo_thread i) = 0"
  by (simp_all add: demo_thread_def)

lemma vfs_opens: "vfs_good K F d \<Longrightarrow> snd (vfs_open d ''/dev/aesdchar'' flags) \<noteq> -1"
  by (simp add: vfs_open_def aesd_open_def vfs_good_def)

text \<open>A first piece that is complete and fits the buffer is the message.\<close>

lemma receive_one_piece:
  assumes A: "alloc_ok A" "malloc A 1024 \<noteq> None" and c: "c \<noteq> []" "length c < 1023" "complete c"
  shows "received_message A (c # cs) = c"
proof -
  obtain b0 where b0: "malloc A 1024 = Some b0" using A(2) by blast
  have len: "length b0 = 1024" using A(1) b0 by (rule malloc_law)
  have fit: "length ([] :: byte list) + length c < length b0" using len c by simp
  have h0: "holds b0 []" using len by (simp add: holds_def)
  note st = holds_store [OF h0 fit]
  then have "holds (overwrite 0 (c @ [0]) b0) c" by simp
  with c have "recv_loop A b0 1024 0 (c # cs) = Some (overwrite 0 (c @ [0]) b0, 1024, length c, cs)"
    using message_complete_eq [of "overwrite 0 (c @ [0]) b0" c] len
    by (subst recv_loop.simps) (simp add: grow_buffer_def)
  then show ?thesis using b0 by (simp add: received_message_def overwrite_def)
qed

section \<open>Messages\<close>

text \<open>
  (C3) Messages: a connection whose data is not a seek command, on an allocator that serves
  buffers up to twice the data and with a device that can be opened, ends its thread with the mutex free, the socket closed once,
  the buffer freed and the thread marked as finished. The device has accepted the received bytes as its
  driver specifies, unless the driver's write of them fails, and then the log is unchanged and the bytes were
  dropped or kept in the unfinished command;
  the client is sent exactly the whole log.
\<close>

theorem server_message:
  assumes "alloc_ok A" and "alloc_serves A limit" and "2 * (length (concat (rx t)) + 1) \<le> limit" and "limit < 2 ^ 63"
    and "vfs_good K F (fsys t)" and "\<not> aesdsocket_mutex t"
    and "m = received_message A (rx t)" and "m \<noteq> []" and "\<not> is_command m"
  shows "\<exists>t'. threadfunc A (vfs_ops K) True t = ret t' \<and> \<not> aesdsocket_mutex t' \<and> vfs_good K F (fsys t') \<and>
    closes t' = closes t + 1 \<and> live_bufs t' = live_bufs t \<and> status t' \<and>
    (if write_failed (vfs_ops K) (fsys t) ''/dev/aesdchar'' m then
       refuses (vfs_log (fsys t)) (vfs_part (fsys t)) m (vfs_log (fsys t')) (vfs_part (fsys t'))
     else accepts (vfs_log (fsys t)) (vfs_part (fsys t)) m (vfs_log (fsys t')) (vfs_part (fsys t'))) \<and>
    concat (tx t') = concat (tx t) @ concat (vfs_log (fsys t'))"
  using aesdchar.session_message [OF assms(1-6) refl _ assms(7-9)] vfs_opens [of K F] by simp

theorem server_message_witness:
  "\<exists>t'. threadfunc zero_alloc (vfs_ops srv_kernel) True (demo_thread [[97, 10]]) = ret t' \<and>
     \<not> aesdsocket_mutex t' \<and> closes t' = 1 \<and> live_bufs t' = 0 \<and> status t' \<and>
     concat (tx t') = concat (vfs_log (fsys t'))"
proof -
  have "complete [97, 10]" by (simp add: complete_def)
  then have m: "received_message zero_alloc [[97, 10]] = [97, 10]"
    using receive_one_piece [OF zero_alloc_ok, of "[97, 10]"] zero_alloc_serves by (simp add: alloc_serves_def)
  have "\<not> is_command [97, 10]" by (simp add: is_command_def IOCTL_CMD_STR_bytes)
  with server_message [OF zero_alloc_ok zero_alloc_serves, of "demo_thread [[97, 10]]" srv_kernel Map.empty "[97, 10]"]
    m demo_vfs_good show ?thesis by auto
qed

section \<open>Seek commands\<close>

text \<open>
  Parsing: \<open>sscanf\<close> with \<open>%u,%u\<close> gives back any two 32-bit numbers printed in decimal with
  a comma between them, whatever follows that is not a digit.
\<close>

theorem sscanf_decimal:
  assumes "rest = [] \<or> \<not> is_digit (hd rest)"
  shows "sscanf_u_u (decimal (unat a) @ [44] @ decimal (unat b) @ rest) = Scanned (a, b) rest"
proof -
  have "unat a < 2 ^ 32" "unat b < 2 ^ 32" using unat_less_pow [of a] unat_less_pow [of b] by simp_all
  moreover have "\<not> is_digit (hd ([44] @ decimal (unat b) @ rest))" by (simp add: is_digit_def)
  ultimately have "scan_u (decimal (unat a) @ [44] @ decimal (unat b) @ rest) = Scanned a ([44] @ decimal (unat b) @ rest)"
      "scan_u (decimal (unat b) @ rest) = Scanned b rest"
    using scan_u_decimal [of "unat a" "[44] @ decimal (unat b) @ rest"] scan_u_decimal [of "unat b" rest] assms by simp_all
  then show ?thesis by (simp add: sscanf_u_u_def)
qed

theorem sscanf_decimal_witness:
  "sscanf_u_u (decimal (unat (7 :: u32)) @ [44] @ decimal (unat (4294967295 :: u32)) @ [10]) = Scanned (7, 4294967295) [10]"
  by (rule sscanf_decimal) (simp add: is_digit_def)

text \<open>
  (C17) Seek and send: a connection that sends a seek command for an existing command and an
  offset inside it, when allocations and \<open>open\<close> succeed, is sent the log from that byte on; the log is unchanged, and the thread ends
  with the mutex free, the socket closed once and the buffer freed. If the device rejects the
  request, the thread unlocks the mutex twice, which is undefined.
\<close>

theorem server_seek:
  assumes "alloc_ok A" and "alloc_serves A limit" and "2 * (length (concat (rx t)) + 1) \<le> limit" and "limit < 2 ^ 63"
    and "vfs_good K F (fsys t)" and "\<not> aesdsocket_mutex t"
    and "is_command (received_message A (rx t))"
    and "sscanf_u_u (command_args (received_message A (rx t))) = Scanned (c, off) r"
    and "sk = \<lparr>write_cmd = c, write_cmd_offset = off\<rparr>"
  shows "if seek_valid (vfs_log (fsys t)) sk
    then \<exists>t'. threadfunc A (vfs_ops K) True t = ret t' \<and> \<not> aesdsocket_mutex t' \<and> vfs_good K F (fsys t') \<and>
      closes t' = closes t + 1 \<and> live_bufs t' = live_bufs t \<and> status t' \<and>
      vfs_log (fsys t') = vfs_log (fsys t) \<and> vfs_part (fsys t') = vfs_part (fsys t) \<and>
      concat (tx t') = concat (tx t) @ drop (seek_pos (vfs_log (fsys t)) sk) (concat (vfs_log (fsys t)))
    else threadfunc A (vfs_ops K) True t = Some Undefined"
  using aesdchar.session_command [OF assms(1-6) refl _ assms(7)] vfs_opens [of K F] assms(8,9)
  by (cases "seek_valid (vfs_log (fsys t)) sk") (simp_all add: command_reply_def Let_def)

text \<open>The command for byte 1 of the second command, and one for a command that does not exist.\<close>

definition seek_input :: "byte list \<Rightarrow> byte list" where
  "seek_input digits = IOCTL_CMD_STR @ digits @ [10]"

lemma seek_input_received:
  assumes "0 \<notin> set digits" and "length digits < 1000"
  shows "received_message zero_alloc [seek_input digits] = seek_input digits"
    and "is_command (seek_input digits)" and "command_args (seek_input digits) = digits @ [10]"
proof -
  have t: "text_of (seek_input digits) = seek_input digits"
    using assms(1) IOCTL_CMD_STR_no_nul by (auto simp: seek_input_def takeWhile_eq_all_conv)
  then show c: "is_command (seek_input digits)" by (simp add: is_command_def seek_input_def)
  then have "complete (seek_input digits)" by (simp add: complete_def)
  with assms(2) zero_alloc_serves show "received_message zero_alloc [seek_input digits] = seek_input digits"
    by (intro receive_one_piece [OF zero_alloc_ok]) (auto simp: alloc_serves_def seek_input_def IOCTL_CMD_STR_bytes)
  have "text_of (digits @ [10]) = digits @ [10]"
    using assms(1) by (auto simp: takeWhile_eq_all_conv)
  then show "command_args (seek_input digits) = digits @ [10]"
    by (simp add: command_args_def seek_input_def)
qed

lemma scan_demo: "sscanf_u_u [49, 44, 49, 10] = Scanned (1, 1) [10]" "sscanf_u_u [57, 44, 48, 10] = Scanned (9, 0) [10]"
  by (simp_all add: sscanf_u_u_def scan_u_def scan_sign_def is_space_def is_digit_def digits_val_def digit_val_def)

theorem server_seek_witness:
  "(\<exists>t'. threadfunc zero_alloc (vfs_ops srv_kernel) True (demo_thread [seek_input [49, 44, 49]]) = ret t' \<and>
      \<not> aesdsocket_mutex t' \<and> status t' \<and> concat (tx t') = [107, 10]) \<and>
   threadfunc zero_alloc (vfs_ops srv_kernel) True (demo_thread [seek_input [57, 44, 48]]) = Some Undefined"
proof
  have good: "vfs_good srv_kernel Map.empty (fsys (demo_thread i))" for i using demo_vfs_good by simp
  have log: "vfs_log (fsys (demo_thread i)) = [[104, 105, 10], [111, 107, 10]]" for i using demo_contents by simp
  note s = server_seek [OF zero_alloc_ok zero_alloc_serves _ _ good _ _ _ refl]
  have len: "length (concat [seek_input [a, b, c]]) = 23" for a b c
    by (simp add: seek_input_def IOCTL_CMD_STR_bytes)
  show "\<exists>t'. threadfunc zero_alloc (vfs_ops srv_kernel) True (demo_thread [seek_input [49, 44, 49]]) = ret t' \<and>
      \<not> aesdsocket_mutex t' \<and> status t' \<and> concat (tx t') = [107, 10]"
    using s [of "[seek_input [49, 44, 49]]" 1 1 "[10]"] seek_input_received [of "[49, 44, 49]"] scan_demo(1) len
    unfolding log by (auto simp: seek_valid_def seek_pos_def)
  show "threadfunc zero_alloc (vfs_ops srv_kernel) True (demo_thread [seek_input [57, 44, 48]]) = Some Undefined"
    using s [of "[seek_input [57, 44, 48]]" 9 0 "[10]"] seek_input_received [of "[57, 44, 48]"] scan_demo(2) len
    unfolding log by (auto simp: seek_valid_def seek_pos_def)
qed

text \<open>
  A seek command in two pieces is lost: the receive loop stops as soon as the buffer starts
  with the command word, so when the numbers arrive in a later piece the thread ends
  without parsing them, sends nothing and leaves them unread.
\<close>

theorem split_seek_lost:
  assumes "alloc_ok A" and "malloc A 1024 \<noteq> None" and "\<not> aesdsocket_mutex t" and "rx t = IOCTL_CMD_STR # pieces"
  shows "\<exists>t'. threadfunc A fs True t = ret t' \<and> tx t' = tx t \<and> fsys t' = fsys t \<and> status t' \<and> \<not> aesdsocket_mutex t'"
proof -
  obtain b0 where b0: "malloc A 1024 = Some b0" using assms(2) by blast
  have t: "text_of IOCTL_CMD_STR = IOCTL_CMD_STR"
    using IOCTL_CMD_STR_no_nul by (auto simp: takeWhile_eq_all_conv)
  have c: "is_command IOCTL_CMD_STR" "complete IOCTL_CMD_STR"
    unfolding complete_def is_command_def t by simp_all
  have m: "received_message A (rx t) = IOCTL_CMD_STR"
    using assms c(2) by (simp add: receive_one_piece IOCTL_CMD_STR_bytes)
  obtain buffer n k rest where rl: "recv_loop A b0 1024 0 (rx t) = Some (buffer, n, length k, rest)"
      "concat (rx t) = k @ concat rest" "received A (rx t) k buffer n rest"
    by (rule recv_start [OF assms(1) b0])
  then have h: "holds buffer k" "k = IOCTL_CMD_STR"
    using m b0 by (simp_all add: received_def received_message_def holds_def)
  have "sscanf_u_u (command_args IOCTL_CMD_STR) = No_match"
    by (simp add: command_args_def sscanf_u_u_def scan_u_def scan_sign_def)
  with threadfunc_command [OF b0 rl(1) h(1) _ assms(3), of fs True] c(1) h(2) command_args_eq [OF h(1)]
  show ?thesis
    by (simp add: ioctl_request_def free_buffer_def close_sock_def set_status_def pthread_mutex_unlock_def)
qed

theorem split_seek_lost_witness:
  "\<exists>t'. threadfunc zero_alloc (vfs_ops srv_kernel) True (demo_thread [IOCTL_CMD_STR, [49, 44, 49, 10]]) = ret t' \<and> tx t' = []"
  using split_seek_lost [OF zero_alloc_ok, of "demo_thread [IOCTL_CMD_STR, [49, 44, 49, 10]]" "[[49, 44, 49, 10]]" "vfs_ops srv_kernel"]
    zero_alloc_serves by (auto simp: alloc_serves_def)

section \<open>Receiving\<close>

text \<open>
  (C19) The receive loop: it ends for every finite input and never writes outside its buffer,
  even when growing it fails. The buffer then starts with the bytes taken from the connection,
  in order and none lost, followed by a NUL. It stops because the message is complete, because
  growing failed (and then the size variable is twice the block) or because nothing
  more arrived.
\<close>

theorem recv_loop_safe:
  assumes "alloc_ok A" and "malloc A 1024 = Some buffer"
  shows "\<exists>buffer' n m rest. recv_loop A buffer 1024 0 input = Some (buffer', n, length m, rest) \<and>
    concat input = m @ concat rest \<and> received A input m buffer' n rest"
proof -
  obtain buffer' n m rest where "recv_loop A buffer 1024 0 input = Some (buffer', n, length m, rest)"
    "concat input = m @ concat rest" "received A input m buffer' n rest"
    by (rule recv_start [OF assms])
  then show ?thesis by blast
qed

theorem recv_loop_safe_witness:
  "\<exists>buffer' n m rest. recv_loop zero_alloc (replicate 1024 0) 1024 0 [replicate 3000 97, [10]] = Some (buffer', n, length m, rest) \<and>
    received zero_alloc [replicate 3000 97, [10]] m buffer' n rest"
  using recv_loop_safe [OF zero_alloc_ok, of "replicate 1024 0" "[replicate 3000 97, [10]]"]
  by (auto simp: zero_alloc_def)

section \<open>Failing calls\<close>

text \<open>A reply into a block that is half as long as its size variable says.\<close>

lemma short_block_overflows:
  assumes "vfs_good K F (fsys t)" and "\<not> aesdsocket_mutex t" and "n < 2 ^ 63"
    and "vfs_log (fsys t) = c # cs" and "length buffer < length c" and "length c \<le> n"
  shows "send_back (vfs_ops K) t buffer n = Some Undefined"
proof -
  obtain d fd where op: "vfs_open (fsys t) ''/dev/aesdchar'' [O_RDONLY] = (d, fd)" by fastforce
  have d: "vfs_good K F d" "vdrv d = vdrv (fsys t)" "0 \<le> fd" "vfs_pos d fd = Some 0"
    using vfs_open_good [OF assms(1) op] by simp_all
  obtain d' where rd: "vfs_read K d fd n = Returned (d', Some (read_chunk (vfs_log d) 0 n))"
    using vfs_read_chunk [OF d(1,4), of n] assms(3,5,6) by auto
  have "read_chunk (vfs_log d) 0 n = c"
    using assms(4-6) d(2) by (auto simp: read_chunk_def)
  with rd have "drain_loop (vfs_ops K) d fd (length buffer) n (tx t) = Some Undefined"
    using assms(5) by (subst drain_loop.simps) auto
  then show ?thesis using op d(3) assms(2) by (simp add: send_back_def pthread_mutex_lock_def)
qed

text \<open>What a thread receives when its buffer is full after the first piece and cannot grow.\<close>

lemma recv_no_growth:
  assumes "alloc_ok A" and "malloc A 1024 = Some b0" and "\<And>b. realloc A b 2048 = None" and "1023 \<le> length c"
  shows "recv_loop A b0 1024 0 (c # cs) = Some (overwrite 0 (take 1023 c @ [0]) b0, 2048, 1023, snd (recv (c # cs) 1023))"
proof -
  have "take 1023 c \<noteq> []" using assms(4) by (cases c) auto
  then show ?thesis using assms malloc_law [OF assms(1,2)]
    by (subst recv_loop.simps) (simp add: grow_buffer_def)
qed

text \<open>
  (C35) A failed growth overflows the reply buffer: a client sends at least 1023 bytes that do not begin with a
  seek command, \<open>realloc\<close> fails, and the oldest command of the log, which has room for one more, is longer than the
  block of 1024 bytes but not longer than 2048. Then the thread stores what it received and reads the oldest
  command back into the block with the doubled size variable, past its end.
\<close>

theorem failed_growth_overflows:
  assumes "alloc_ok A" and "malloc A 1024 \<noteq> None" and "\<forall>b. realloc A b 2048 = None"
    and "rx t = c # pieces" and "1023 \<le> length c" and "\<not> is_command (take 1023 c)"
    and "vfs_good K F (fsys t)" and "\<not> aesdsocket_mutex t"
    and "vfs_log (fsys t) = old # newer" and "Suc (length newer) < MAXOPS" and "1024 < length old" and "length old \<le> 2048"
  shows "threadfunc A (vfs_ops K) True t = Some Undefined"
proof -
  obtain b0 where b0: "malloc A 1024 = Some b0" using assms(2) by blast
  let ?m = "take 1023 c" and ?b = "overwrite 0 (take 1023 c @ [0]) b0"
  have len: "length b0 = 1024" "length ?m = 1023" "?m \<noteq> []" using malloc_law [OF assms(1) b0] assms(5) by (auto simp: min_def)
  have h: "holds ?b ?m" using holds_store [of b0 "[]" ?m] len by (simp add: holds_def)
  obtain rest where rl: "recv_loop A b0 1024 0 (rx t) = Some (?b, 2048, length ?m, rest)"
    using recv_no_growth [OF assms(1) b0 _ assms(5)] assms(3,4) len(2) by simp
  let ?t = "t\<lparr>live_bufs := live_bufs t + 1, aesdsocket_mutex := True, rx := rest\<rparr>"
  obtain d where st: "store_message (vfs_ops K) True ?t ?b (length ?m) = ret (?t\<lparr>fsys := d, aesdsocket_mutex := False\<rparr>, True)"
      and d: "vfs_good K F d" "if write_failed (vfs_ops K) (fsys t) ''/dev/aesdchar'' ?m
        then refuses (vfs_log (fsys t)) (vfs_part (fsys t)) ?m (vfs_log d) (vfs_part d)
        else accepts (vfs_log (fsys t)) (vfs_part (fsys t)) ?m (vfs_log d) (vfs_part d)"
    using aesdchar.store_correct [of K F ?t ?b ?m True] assms(7) h len(2) vfs_opens [OF assms(7)]
    by (auto simp: FILE_PATH_def cong: if_cong)
  have "\<exists>cs. vfs_log d = old # cs"
    using d(2) assms(9,10) by (auto simp: refuses_def accepts_def push_def split: if_splits)
  then obtain cs where "vfs_log d = old # cs" by blast
  then have "send_back (vfs_ops K) (?t\<lparr>fsys := d, aesdsocket_mutex := False\<rparr>) ?b 2048 = Some Undefined"
    using short_block_overflows [of K F "?t\<lparr>fsys := d, aesdsocket_mutex := False\<rparr>" 2048 old cs ?b] d(1) assms(11,12) len
    by (simp add: overwrite_def)
  then show ?thesis
    using b0 rl st assms(6,8) len(2) is_ioctl_cmd_eq [OF h len(3)] by (simp add: threadfunc_def pthread_mutex_lock_def)
qed

text \<open>A device that holds one command of 1101 bytes, and an allocator that cannot grow blocks.\<close>

definition long_command :: "byte list" where
  "long_command = replicate 1100 97 @ [10]"

definition long_ring :: aesd_circular_buffer where
  "long_ring = \<lparr>entry = \<lparr>buffptr = 1, esize = 1101\<rparr> # replicate 9 zero_entry, in_offs = 1, out_offs = 0, full = False\<rparr>"

definition long_vfs :: vfs where
  "long_vfs = demo_vfs\<lparr>vdrv := \<lparr>kheap = [1 \<mapsto> long_command],
     aesd_device = fresh_device\<lparr>aesd_write_buffer := long_ring\<rparr>, aesd_major = 240, aesd_minor = 0, chrdevs = {240}\<rparr>\<rparr>"

definition stiff_alloc :: alloc where
  "stiff_alloc = \<lparr>malloc = malloc zero_alloc, realloc = (\<lambda>old n. None)\<rparr>"

lemma long_ring_facts: "cb_wf long_ring" "cb_entries long_ring = [\<lparr>buffptr = 1, esize = 1101\<rparr>]"
  by (simp_all add: cb_wf_def long_ring_def maxops cb_entries_def cb_count_def cb_idx_def)

lemma long_ring_clean: "cb_clean long_ring"
  unfolding cb_clean_def long_ring_facts
  by (auto simp: long_ring_def cb_count_def maxops nth_Cons' nth_replicate)

lemma long_vfs_sel [simp]:
  "ring_of (vdrv long_vfs) = long_ring" "temp_of (vdrv long_vfs) = \<lparr>tdata = NULL, tsize = 0, tcapacity = 0\<rparr>"
  "kheap (vdrv long_vfs) = [1 \<mapsto> long_command]" "\<not> locked (vdrv long_vfs)"
  by (simp_all add: long_vfs_def locked_def fresh_device_def)

lemma long_vfs_good: "vfs_good srv_kernel Map.empty long_vfs" "vfs_log long_vfs = [long_command]"
proof -
  have "drv_inv Map.empty (vdrv long_vfs)"
    using long_ring_facts long_ring_clean
    by (auto simp: drv_inv_def mem_inv_def entry_ok_def temp_ok_def temp_ptrs_def restrict_map_def long_command_def fresh_device_def)
  then show "vfs_good srv_kernel Map.empty long_vfs"
    using srv_memory_ok srv_user_ok by (simp add: vfs_good_def) (simp add: long_vfs_def demo_vfs_def)
  show "vfs_log long_vfs = [long_command]" by (simp add: cmds_def long_ring_facts long_command_def)
qed

theorem failed_growth_overflows_witness:
  "threadfunc stiff_alloc (vfs_ops srv_kernel) True ((demo_thread [replicate 1023 97])\<lparr>fsys := long_vfs\<rparr>) = Some Undefined"
proof (rule failed_growth_overflows)
  show "alloc_ok stiff_alloc" using zero_alloc_ok by (simp add: alloc_ok_def stiff_alloc_def)
  show "malloc stiff_alloc 1024 \<noteq> None" using zero_alloc_serves by (simp add: alloc_serves_def stiff_alloc_def)
  show "\<not> is_command (take 1023 (replicate 1023 97))" by (simp add: is_command_def IOCTL_CMD_STR_bytes)
  show "vfs_good srv_kernel Map.empty (fsys ((demo_thread [replicate 1023 97])\<lparr>fsys := long_vfs\<rparr>))" using long_vfs_good(1) by simp
  show "vfs_log (fsys ((demo_thread [replicate 1023 97])\<lparr>fsys := long_vfs\<rparr>)) = long_command # []" using long_vfs_good(2) by simp
qed (simp_all add: stiff_alloc_def demo_thread_def long_command_def maxops)

text \<open>
  (C39) A refused \<open>open\<close>: when a thread has received a message and the kernel refuses to open the device for it, the
  thread closes the socket, frees the buffer and gives the mutex back without having stored or sent
  anything, and it returns without setting its flag.
\<close>

theorem open_failure_exit:
  assumes "alloc_ok A" and "malloc A 1024 \<noteq> None" and "\<not> aesdsocket_mutex t"
    and "received_message A (rx t) \<noteq> []" and "\<not> is_command (received_message A (rx t))"
    and "vfails (fsys t) (vnext (fsys t))"
  shows "\<exists>t'. threadfunc A (vfs_ops K) True t = ret t' \<and> \<not> aesdsocket_mutex t' \<and> closes t' = closes t + 1 \<and>
    live_bufs t' = live_bufs t \<and> status t' = status t \<and> tx t' = tx t \<and>
    vdrv (fsys t') = vdrv (fsys t) \<and> vfiles (fsys t') = vfiles (fsys t)"
proof -
  obtain b0 where b0: "malloc A 1024 = Some b0" using assms(2) by blast
  obtain buffer n m rest where rl: "recv_loop A b0 1024 0 (rx t) = Some (buffer, n, length m, rest)"
      "concat (rx t) = m @ concat rest" "received A (rx t) m buffer n rest"
    by (rule recv_start [OF assms(1) b0])
  then have h: "holds buffer m" "m = received_message A (rx t)"
    using b0 by (simp_all add: received_def received_message_def holds_def)
  then show ?thesis
    using b0 rl(1) assms(3-6) is_ioctl_cmd_eq [OF h(1)]
    by (simp add: threadfunc_def store_message_def pthread_mutex_lock_def pthread_mutex_unlock_def free_buffer_def
        close_sock_def vfs_open_def FILE_PATH_def)
qed

theorem open_failure_exit_witness:
  "\<exists>t'. threadfunc zero_alloc (vfs_ops srv_kernel) True ((demo_thread [[97, 10]])\<lparr>fsys := demo_vfs\<lparr>vfails := (\<lambda>n. True)\<rparr>\<rparr>) = ret t' \<and>
     closes t' = 1 \<and> \<not> status t' \<and> tx t' = []"
proof -
  have "complete [97, 10]" by (simp add: complete_def)
  then have "received_message zero_alloc [[97, 10]] = [97, 10]"
    using receive_one_piece [OF zero_alloc_ok, of "[97, 10]"] zero_alloc_serves by (simp add: alloc_serves_def)
  moreover have "\<not> is_command [97, 10]" by (simp add: is_command_def IOCTL_CMD_STR_bytes)
  moreover have "malloc zero_alloc 1024 \<noteq> None" using zero_alloc_serves by (simp add: alloc_serves_def)
  ultimately show ?thesis
    using open_failure_exit [OF zero_alloc_ok, of "(demo_thread [[97, 10]])\<lparr>fsys := demo_vfs\<lparr>vfails := (\<lambda>n. True)\<rparr>\<rparr>" srv_kernel]
    by (auto simp: demo_thread_def)
qed

section \<open>Empty connections\<close>

text \<open>
  (C34) An empty connection stops the server: when a client connects and closes without
  sending anything, its thread ends with the mutex still held, and every later thread blocks
  for ever on its first lock.
\<close>

theorem empty_connection_blocks:
  assumes "alloc_ok A" and "malloc A 1024 \<noteq> None" and "\<not> aesdsocket_mutex t" and "concat (rx t) = []"
  shows "\<exists>t'. threadfunc A fs use_dev t = ret t' \<and> status t' \<and> aesdsocket_mutex t' \<and>
    (\<forall>t2. aesdsocket_mutex t2 = aesdsocket_mutex t' \<longrightarrow> threadfunc A fs use_dev t2 = Some Blocked)"
  using session_empty [OF assms] threadfunc_blocked [OF assms(2)] by blast

theorem empty_connection_blocks_witness:
  "\<exists>t'. threadfunc zero_alloc (vfs_ops srv_kernel) True (demo_thread []) = ret t' \<and> aesdsocket_mutex t' \<and>
     threadfunc zero_alloc (vfs_ops srv_kernel) True ((demo_thread [[97, 10]])\<lparr>aesdsocket_mutex := aesdsocket_mutex t'\<rparr>) =
       Some Blocked"
proof -
  have "malloc zero_alloc 1024 \<noteq> None" using zero_alloc_serves by (simp add: alloc_serves_def)
  from empty_connection_blocks [OF zero_alloc_ok this, of "demo_thread []" "vfs_ops srv_kernel" True]
  show ?thesis by auto
qed

end
