(* ===== verification/Concurrent_Claims.thy ===== *)
theory Concurrent_Claims
  imports Driver_Interleave Driver_Claims Server_Claims
begin

text \<open>
  The properties of the driver under any number of processes that call it at the same time, with a
  witness for each on a concrete device and concrete processes.
\<close>

definition idle :: "'u users \<Rightarrow> bool" where
  "idle U \<longleftrightarrow> (\<forall>t \<in> set (tasks U). tpoint t = None)"

lemma idle_implements: "idle U \<Longrightarrow> implements K plan U U"
  by (auto simp: idle_def implements_def task_ok_def within_def)

lemma concurrent_run:
  assumes "(user_step K plan)\<^sup>*\<^sup>* U U'" and "implements K plan U S"
  obtains S' where "(atomic_step K plan)\<^sup>*\<^sup>* S S'" "implements K plan U' S'"
  using callers.runs [OF assms] by blast

section \<open>Processes on a concrete device\<close>

text \<open>Process \<open>i\<close> writes the strings \<open>ws i\<close>, one after the other.\<close>

definition writers :: "(nat \<Rightarrow> byte list list) \<Rightarrow> umem plan" where
  "writers ws i as u =
     (if length as < length (ws i)
      then Some (Bytes (ws i ! length as), Sys_write 0 (of_nat (length (ws i ! length as)))) else None)"

lemma writers_ok:
  assumes "\<forall>i. \<forall>bs \<in> set (ws i). length bs < 2 ^ 63"
  shows "plan_ok (writers ws)"
  unfolding plan_ok_def
proof (intro allI impI)
  fix i as u u' buf cnt assume "writers ws i as u = Some (u', Sys_write buf cnt)"
  then have c: "length as < length (ws i)" "cnt = of_nat (length (ws i ! length as))" by (simp_all add: writers_def split: if_splits)
  then have "length (ws i ! length as) < 2 ^ 63" using assms nth_mem by blast
  then show "unat cnt < 2 ^ 63" using c(2) by (simp add: unat_of_nat64)
qed

definition demo_task :: "umem task" where
  "demo_task = \<lparr>tcaller = \<lparr>cfile = demo_file, cmem = Bytes []\<rparr>, tpoint = None, answers = []\<rparr>"

definition demo_users :: "umem users" where
  "demo_users = \<lparr>udev = demo, tasks = [demo_task, demo_task]\<rparr>"

definition demo_words :: "nat \<Rightarrow> byte list list" where
  "demo_words i = (if i = 0 then [[97, 10]] else if i = 1 then [[98, 10]] else [])"

abbreviation demo_plan :: "umem plan" where
  "demo_plan \<equiv> writers demo_words"

lemma demo_users_ok: "users_ok Map.empty demo_users" "\<not> locked (udev demo_users)" "idle demo_users"
  using demo_inv by (simp_all add: users_ok_def demo_users_def demo_task_def idle_def)

lemma demo_plan_ok: "plan_ok demo_plan"
  by (rule writers_ok) (simp add: demo_words_def)

lemma srv_seek_keeps_file: "seek_keeps_file srv_kernel"
  by (simp add: seek_keeps_file_def srv_kernel_def ref_llseek_def Let_def)

text \<open>Both processes have entered \<open>aesd_write\<close>, and the first has taken the mutex.\<close>

definition demo_busy :: "umem users" where
  "demo_busy = \<lparr>udev = lock_dev demo,
     tasks = [demo_task\<lparr>tcaller := \<lparr>cfile = demo_file, cmem = Bytes [97, 10]\<rparr>, tpoint := Some (Write_reserve 0 2)\<rparr>,
              demo_task\<lparr>tcaller := \<lparr>cfile = demo_file, cmem = Bytes [98, 10]\<rparr>, tpoint := Some (Write_lock 0 2)\<rparr>]\<rparr>"

lemma demo_busy_reachable: "(user_step srv_kernel demo_plan)\<^sup>*\<^sup>* demo_users demo_busy"
proof -
  let ?U1 = "set_task demo_users 0 (arrive demo_task (tcaller demo_task\<lparr>cmem := Bytes [97, 10]\<rparr>) (enter (Sys_write 0 2))) demo"
  let ?U2 = "set_task ?U1 1 (arrive demo_task (tcaller demo_task\<lparr>cmem := Bytes [98, 10]\<rparr>) (enter (Sys_write 0 2))) demo"
  have 1: "user_step srv_kernel demo_plan demo_users ?U1"
    using user_step.call [of 0 demo_users demo_plan "Bytes [97, 10]" "Sys_write 0 2" srv_kernel]
    by (simp add: demo_users_def demo_task_def writers_def demo_words_def)
  have 2: "user_step srv_kernel demo_plan ?U1 ?U2"
    using user_step.call [of 1 ?U1 demo_plan "Bytes [98, 10]" "Sys_write 0 2" srv_kernel]
    by (simp add: demo_users_def demo_task_def writers_def demo_words_def set_task_def)
  have 3: "user_step srv_kernel demo_plan ?U2 demo_busy"
    using user_step.run [of 0 ?U2 "Write_lock 0 2" srv_kernel "tcaller demo_task\<lparr>cmem := Bytes [97, 10]\<rparr>" "lock_dev demo" "Write_reserve 0 2" demo_plan]
    by (simp add: demo_users_def demo_task_def set_task_def demo_busy_def arrive_def take_lock_def)
  note also_to = converse_rtranclp_into_rtranclp [of "user_step srv_kernel demo_plan"]
  show ?thesis by (rule also_to [OF 1 also_to [OF 2 also_to [OF 3 rtranclp.rtrancl_refl]]])
qed

section \<open>Linearizability\<close>

text \<open>
  The state \<open>U\<close> of the interleaved system and the state \<open>S\<close> of the system with atomic calls: a process in user
  space is the same in both; the call of one that is in a handler has taken effect in \<open>S\<close> or not; the
  device is the same when no process is within its section.
\<close>

definition agrees :: "'u users \<Rightarrow> 'u users \<Rightarrow> bool" where
  "agrees U S \<longleftrightarrow> length (tasks S) = length (tasks U) \<and>
     (\<forall>i < length (tasks U).
        if tpoint (tasks U ! i) = None then tasks S ! i = tasks U ! i
        else answers (tasks S ! i) = answers (tasks U ! i) \<or> (\<exists>r. answers (tasks S ! i) = answers (tasks U ! i) @ [r])) \<and>
     ((\<forall>t \<in> set (tasks U). \<not> within t) \<longrightarrow> udev S = udev U)"

lemma implements_agrees:
  assumes "implements K plan U S"
  shows "agrees U S"
proof -
  have "if tpoint (tasks U ! i) = None then tasks S ! i = tasks U ! i
        else answers (tasks S ! i) = answers (tasks U ! i) \<or> (\<exists>r. answers (tasks S ! i) = answers (tasks U ! i) @ [r])"
    if "i < length (tasks U)" for i
    using implementsD(2) [OF assms that] by (cases "tpoint (tasks U ! i)") (auto simp: task_ok_def split: if_splits)
  then show ?thesis using assms by (auto simp: agrees_def implements_def)
qed

text \<open>
  (C5) The driver is linearizable: however the steps of the handlers are interleaved, the processes see what
  they would see if every call were executed at one moment between its entry and its return. A call that has
  returned at some point of the run (\<open>U1\<close>) has taken effect in the sequence of atomic calls up to there
  (\<open>S1\<close>), with the answer it has there; a call that has not been entered takes effect later; and
  in between the device is that of the sequence whenever no process is within its section.
\<close>

theorem driver_linearizable:
  assumes "idle U0" and "(user_step K plan)\<^sup>*\<^sup>* U0 U1" and "(user_step K plan)\<^sup>*\<^sup>* U1 U2"
  shows "\<exists>S1 S2. (atomic_step K plan)\<^sup>*\<^sup>* U0 S1 \<and> (atomic_step K plan)\<^sup>*\<^sup>* S1 S2 \<and> agrees U1 S1 \<and> agrees U2 S2"
proof -
  obtain S1 where S1: "(atomic_step K plan)\<^sup>*\<^sup>* U0 S1" "implements K plan U1 S1"
    by (rule concurrent_run [OF assms(2) idle_implements [OF assms(1)]])
  obtain S2 where "(atomic_step K plan)\<^sup>*\<^sup>* S1 S2" "implements K plan U2 S2"
    by (rule concurrent_run [OF assms(3) S1(2)])
  then show ?thesis using S1 implements_agrees by metis
qed

theorem driver_linearizable_witness:
  "\<exists>S1. (atomic_step srv_kernel demo_plan)\<^sup>*\<^sup>* demo_users S1 \<and> agrees demo_busy S1"
  using driver_linearizable [OF demo_users_ok(3) demo_busy_reachable rtranclp.rtrancl_refl] by blast

section \<open>Safety\<close>

text \<open>
  (C11) Concurrent calls are safe: however the steps are interleaved, no step of a handler is undefined; a process
  sleeps only at \<open>mutex_lock\<close> while the mutex is locked; at most one process is within its section; and
  whenever none is, the device satisfies the memory invariant.
\<close>

theorem concurrent_calls_safe:
  assumes "memory_ok K" and "seek_keeps_file K" and "plan_ok plan" and "users_ok F U0" and "\<not> locked (udev U0)" and "idle U0"
    and "(user_step K plan)\<^sup>*\<^sup>* U0 U"
  shows "(\<forall>i < length (tasks U). \<forall>pc. tpoint (tasks U ! i) = Some pc \<longrightarrow>
      dev_step K pc (tcaller (tasks U ! i)) (udev U) \<noteq> None \<and>
      (dev_step K pc (tcaller (tasks U ! i)) (udev U) = Some Blocks \<longrightarrow> part_of pc = Before \<and> locked (udev U))) \<and>
    (\<forall>i < length (tasks U). \<forall>j < length (tasks U). within (tasks U ! i) \<and> within (tasks U ! j) \<longrightarrow> i = j) \<and>
    ((\<forall>t \<in> set (tasks U). \<not> within t) \<longrightarrow> drv_inv F (udev U))"
proof -
  obtain S where S: "(atomic_step K plan)\<^sup>*\<^sup>* U0 S" and m: "implements K plan U S"
    by (rule concurrent_run [OF assms(7) idle_implements [OF assms(6)]])
  have ok: "users_ok F S" using atomic_run_ok [OF assms(1-3) S assms(4,5)] by blast
  show ?thesis
  proof (intro conjI)
    show "\<forall>i < length (tasks U). \<forall>pc. tpoint (tasks U ! i) = Some pc \<longrightarrow>
      dev_step K pc (tcaller (tasks U ! i)) (udev U) \<noteq> None \<and>
      (dev_step K pc (tcaller (tasks U ! i)) (udev U) = Some Blocks \<longrightarrow> part_of pc = Before \<and> locked (udev U))"
      using step_defined(1) [OF assms(1,3) m ok] blocked_step by blast
    show "\<forall>i < length (tasks U). \<forall>j < length (tasks U). within (tasks U ! i) \<and> within (tasks U ! j) \<longrightarrow> i = j"
      using m by (simp add: implements_def)
    show "(\<forall>t \<in> set (tasks U). \<not> within t) \<longrightarrow> drv_inv F (udev U)"
      using m ok by (auto simp: implements_def users_ok_def)
  qed
qed

theorem concurrent_calls_safe_witness:
  "dev_step srv_kernel (Write_reserve 0 2) \<lparr>cfile = demo_file, cmem = Bytes [97, 10]\<rparr> (lock_dev demo) \<noteq> None"
  using concurrent_calls_safe [OF srv_memory_ok srv_seek_keeps_file demo_plan_ok demo_users_ok demo_busy_reachable,
      THEN conjunct1, rule_format, of 0 "Write_reserve 0 2"]
  by (simp add: demo_busy_def demo_task_def del: dev_step.simps)

section \<open>Termination\<close>

text \<open>
  (C12) Concurrent calls finish: when no process makes more than \<open>N\<close> calls there is no infinite interleaving; and
  where no step is possible any more, every process has returned from all its calls, or the mutex was left
  locked by a call that was answered with \<open>-EINVAL\<close>.
\<close>

theorem concurrent_calls_finish:
  assumes "memory_ok K" and "seek_keeps_file K" and "plan_ok plan" and "users_ok F U0" and "\<not> locked (udev U0)" and "idle U0"
    and "\<And>i as u. N \<le> length as \<Longrightarrow> plan i as u = None"
  shows "\<not> (\<exists>f. f 0 = U0 \<and> (\<forall>n. user_step K plan (f n) (f (Suc n)))) \<and>
    (\<forall>U. (user_step K plan)\<^sup>*\<^sup>* U0 U \<and> \<not> (\<exists>U'. user_step K plan U U') \<longrightarrow>
       (\<forall>i < length (tasks U). tpoint (tasks U ! i) = None \<and> next_call plan i (tasks U ! i) = None) \<or>
       locked (udev U) \<and> (\<exists>t \<in> set (tasks U). Inl EINVAL \<in> set (answers t)))"
proof (intro conjI allI impI)
  show "\<not> (\<exists>f. f 0 = U0 \<and> (\<forall>n. user_step K plan (f n) (f (Suc n))))"
  proof
    assume "\<exists>f. f 0 = U0 \<and> (\<forall>n. user_step K plan (f n) (f (Suc n)))"
    then obtain f where f: "\<And>n. user_step K plan (f n) (f (Suc n))" by blast
    have "users_left N (f (Suc n)) < users_left N (f n)" for n using user_step_left [of N plan K, OF assms(7) f] .
    then show False using wf_measure [of "users_left N"] unfolding wf_iff_no_infinite_down_chain by auto
  qed
  fix U assume U: "(user_step K plan)\<^sup>*\<^sup>* U0 U \<and> \<not> (\<exists>U'. user_step K plan U U')"
  obtain S where S: "(atomic_step K plan)\<^sup>*\<^sup>* U0 S" and m: "implements K plan U S"
    by (rule concurrent_run [OF conjunct1 [OF U] idle_implements [OF assms(6)]])
  note ok = atomic_run_ok [OF assms(1-3) S assms(4,5)]
  have einval: "\<exists>t \<in> set (tasks U). Inl EINVAL \<in> set (answers t)"
    if l: "locked (udev S)" and same: "\<forall>i < length (tasks U). answers (tasks U ! i) = answers (tasks S ! i)"
  proof -
    obtain t where "t \<in> set (tasks S)" "Inl EINVAL \<in> set (answers t)" using ok l by blast
    moreover have "length (tasks S) = length (tasks U)" using m by (simp add: implements_def)
    ultimately obtain i where "i < length (tasks U)" "Inl EINVAL \<in> set (answers (tasks S ! i))" by (metis in_set_conv_nth)
    then have "Inl EINVAL \<in> set (answers (tasks U ! i))" "tasks U ! i \<in> set (tasks U)" using same by simp_all
    then show ?thesis by blast
  qed
  from stuck_users [OF assms(1,3) m conjunct1 [OF ok] conjunct2 [OF U]]
  show "(\<forall>i < length (tasks U). tpoint (tasks U ! i) = None \<and> next_call plan i (tasks U ! i) = None) \<or>
       locked (udev U) \<and> (\<exists>t \<in> set (tasks U). Inl EINVAL \<in> set (answers t))"
    by (rule disj_forward) (use einval in simp_all)
qed

theorem concurrent_calls_finish_witness:
  "\<not> (\<exists>f. f 0 = demo_users \<and> (\<forall>n. user_step srv_kernel demo_plan (f n) (f (Suc n))))"
proof -
  have "\<And>i as u. 1 \<le> length as \<Longrightarrow> demo_plan i as u = None" by (auto simp: writers_def demo_words_def)
  from concurrent_calls_finish [OF srv_memory_ok srv_seek_keeps_file demo_plan_ok demo_users_ok this] show ?thesis by simp
qed

section \<open>Writers\<close>

text \<open>The strings that the processes have written, in the order in which the driver has taken them.\<close>

definition order_of :: "(nat \<Rightarrow> byte list list) \<Rightarrow> 'u users \<Rightarrow> (nat \<times> byte list) list \<Rightarrow> bool" where
  "order_of ws S h \<longleftrightarrow> (\<forall>x \<in> set h. fst x < length (tasks S)) \<and>
     (\<forall>i < length (tasks S). map snd (filter (\<lambda>x. fst x = i) h) = take (length (answers (tasks S ! i))) (ws i))"

definition all_taken :: "'u users \<Rightarrow> bool" where
  "all_taken S \<longleftrightarrow> (\<forall>t \<in> set (tasks S). \<forall>r \<in> set (answers t). r \<noteq> Inl EFAULT \<and> r \<noteq> Inl ENOMEM)"

lemma write_answer:
  "aesd_write K u s filp buf cnt pos = Some (Done (s', pos', r)) \<Longrightarrow> r = Inr cnt \<or> r = Inl EFAULT \<or> r = Inl ENOMEM"
  by (auto simp: aesd_write_def Let_def split: if_splits prod.splits bind_splits)

lemma all_taken_before:
  assumes "atomic_step K plan S S'" and "all_taken S'"
  shows "all_taken S"
proof -
  obtain i c s r where S': "S' = set_task S i (arrive (tasks S ! i) c (Return r)) s" using assms(1) by (auto elim!: atomic_step_cases)
  have "set (answers (tasks S ! j)) \<subseteq> set (answers (tasks S' ! j))" if "j < length (tasks S)" for j
    using S' that by (cases "j = i") auto
  moreover have "tasks S' ! j \<in> set (tasks S')" if "j < length (tasks S)" for j using S' that by (intro nth_mem) simp
  ultimately have "\<forall>r \<in> set (answers (tasks S ! j)). r \<noteq> Inl EFAULT \<and> r \<noteq> Inl ENOMEM" if "j < length (tasks S)" for j
    using assms(2) that unfolding all_taken_def by blast
  then show ?thesis unfolding all_taken_def by (metis in_set_conv_nth)
qed

lemma writers_step:
  assumes K: "memory_ok K" "user_ok K" and small: "\<forall>i. \<forall>bs \<in> set (ws i). length bs < 2 ^ 63" and ok: "users_ok F S"
    and st: "atomic_step K (writers ws) S S'" and h: "order_of ws S h" and taken: "all_taken S'"
  shows "\<exists>i bs. write_step K (udev S) bs (udev S') \<and> order_of ws S' (h @ [(i, bs)])"
proof -
  obtain i u call c s r where i: "i < length (tasks S)" "next_call (writers ws) i (tasks S ! i) = Some (u, call)"
      and run: "whole_call K call ((tcaller (tasks S ! i))\<lparr>cmem := u\<rparr>) (udev S) = Some (Done (c, s, r))"
      and S': "S' = set_task S i (arrive (tasks S ! i) c (Return r)) s"
    using st by (auto elim!: atomic_step_cases)
  let ?n = "length (answers (tasks S ! i))" let ?bs = "ws i ! ?n" let ?f = "cfile (tcaller (tasks S ! i))"
  have n: "?n < length (ws i)" "u = Bytes ?bs" "call = Sys_write 0 (of_nat (length ?bs))"
    using i(2) by (simp_all add: writers_def split: if_splits)
  have len: "length ?bs < 2 ^ 63" using small n(1) nth_mem by blast
  obtain pos where w: "aesd_write K (Bytes ?bs) (udev S) ?f 0 (of_nat (length ?bs)) (f_pos ?f) = Some (Done (s, pos, r))"
    using run n by (auto simp: whole_call_def map_run_eq_Done)
  have "tasks S' ! i \<in> set (tasks S')" using i(1) S' by (intro nth_mem) simp
  then have "r \<noteq> Inl EFAULT \<and> r \<noteq> Inl ENOMEM" using taken i(1) S' by (auto simp: all_taken_def)
  then have r: "r = Inr (of_nat (length ?bs))" using write_answer [OF w] by blast
  have "private_data ?f \<noteq> None" using ok i(1) by (auto simp: users_ok_def)
  then obtain d where d: "private_data ?f = Some d" by blast
  have "copy_from_user K (Bytes ?bs) 0 (of_nat (length ?bs)) = (?bs, 0)" using K(2) len by (simp add: user_ok_def)
  then have ws: "write_step K (udev S) ?bs s"
    using K(1) d w r len unfolding write_step_def by (auto simp: unat_of_nat64 intro!: exI)
  have "order_of ws S' (h @ [(i, ?bs)])"
  proof -
    have "map snd (filter (\<lambda>x. fst x = j) (h @ [(i, ?bs)])) = take (length (answers (tasks S' ! j))) (ws j)" if "j < length (tasks S)" for j
      using h that S' i(1) n(1) by (cases "j = i") (simp_all add: order_of_def take_Suc_conv_app_nth)
    then show ?thesis using h S' i(1) by (auto simp: order_of_def)
  qed
  then show ?thesis using ws S' by (intro exI [of _ i] exI [of _ ?bs]) simp
qed

lemma writers_run:
  assumes K: "memory_ok K" "seek_keeps_file K" "user_ok K" and small: "\<forall>i. \<forall>bs \<in> set (ws i). length bs < 2 ^ 63"
    and ok: "users_ok F S0" "\<not> locked (udev S0)" and fresh: "\<forall>t \<in> set (tasks S0). answers t = []"
    and "(atomic_step K (writers ws))\<^sup>*\<^sup>* S0 S" and "all_taken S"
  shows "\<exists>h. order_of ws S h \<and> chain (write_step K) (udev S0) (map snd h) (udev S)"
  using assms(8,9)
proof (induction rule: rtranclp_induct)
  case base
  have "order_of ws S0 []" using fresh by (auto simp: order_of_def)
  then show ?case by (intro exI [of _ "[]"]) simp
next
  case (step S S')
  have "users_ok F S" using atomic_run_ok [OF K(1,2) writers_ok [OF small] step(1) ok] by blast
  note ok' = this
  obtain h where "order_of ws S h" "chain (write_step K) (udev S0) (map snd h) (udev S)"
    using step(3) all_taken_before [OF step(2,4)] by blast
  moreover from writers_step [OF K(1,3) small ok' step(2) this(1) step(4)]
  obtain i bs where "write_step K (udev S) bs (udev S')" "order_of ws S' (h @ [(i, bs)])" by blast
  ultimately show ?case by (intro exI [of _ "h @ [(i, bs)]"]) (auto simp: chain_append)
qed

text \<open>
  (C10) Concurrent writers: when any number of processes write strings to the device at the same time and the driver
  refuses none of them, then, whenever all processes are in user space, the device holds what the strings written so far
  leave when they are written one after the other, in an order that keeps the strings of each process in order:
  the newest ten commands, and the bytes after the last command. The pending bytes are shared: a command may
  be made of strings of several processes.
\<close>

theorem concurrent_writers:
  assumes "memory_ok K" and "seek_keeps_file K" and "user_ok K" and "\<forall>i. \<forall>bs \<in> set (ws i). length bs < 2 ^ 63"
    and "users_ok F U0" and "\<not> locked (udev U0)" and "idle U0" and "\<forall>t \<in> set (tasks U0). answers t = []"
    and "(user_step K (writers ws))\<^sup>*\<^sup>* U0 U" and "idle U" and "all_taken U"
  shows "\<exists>h. order_of ws U h \<and>
    (case segment (drv_pend (udev U0)) (map snd h) of
       (commands, rest) \<Rightarrow> drv_cmds (udev U) = newest MAXOPS (drv_cmds (udev U0) @ commands) \<and> drv_pend (udev U) = rest)"
proof -
  obtain S where S: "(atomic_step K (writers ws))\<^sup>*\<^sup>* U0 S" and m: "implements K (writers ws) U S"
    by (rule concurrent_run [OF assms(9) idle_implements [OF assms(7)]])
  have "S = U"
  proof -
    have "tasks S ! i = tasks U ! i" if "i < length (tasks U)" for i
      using implements_agrees [OF m] that assms(10) by (simp add: agrees_def idle_def)
    moreover have "udev S = udev U" "length (tasks S) = length (tasks U)"
      using implements_agrees [OF m] assms(10) by (auto simp: agrees_def idle_def within_def)
    ultimately show ?thesis by (intro users.equality nth_equalityI) simp_all
  qed
  then obtain h where h: "order_of ws U h" "chain (write_step K) (udev U0) (map snd h) (udev U)"
    using writers_run [OF assms(1-6,8) S] assms(11) by blast
  obtain commands rest where seg: "segment (drv_pend (udev U0)) (map snd h) = (commands, rest)" by fastforce
  have "drv_inv F (udev U0) \<and> \<not> locked (udev U0)" using assms(5,6) by (simp add: users_ok_def)
  from driver_log.chain_newest [OF h(2) this seg] h(1) seg show ?thesis by (intro exI [of _ h]) simp
qed

text \<open>The first process has written its string.\<close>

lemma demo_first_written:
  "\<exists>U. (user_step srv_kernel demo_plan)\<^sup>*\<^sup>* demo_users U \<and> length (tasks U) = 2 \<and> idle U \<and>
     answers (tasks U ! 0) = [Inr 2] \<and> answers (tasks U ! 1) = []"
proof -
  let ?c = "(tcaller demo_task)\<lparr>cmem := Bytes [97, 10]\<rparr>"
  have "\<exists>s pos. aesd_write srv_kernel (Bytes [97, 10]) demo demo_file 0 2 (f_pos demo_file) = Some (Done (s, pos, Inr 2))"
    by (simp add: write_defs srv_kernel_sel ref_kmalloc_demo aesd_circular_buffer_add_entry_def demo_ring_def
      set_entry_def next_offs_def maxops)
  then obtain s pos where "whole_call srv_kernel (Sys_write 0 2) ?c demo = Some (Done (set_pos pos ?c, s, Inr 2))"
    by (auto simp: whole_call_def demo_task_def)
  then have "atomic_step srv_kernel demo_plan demo_users (set_task demo_users 0 (arrive demo_task (set_pos pos ?c) (Return (Inr 2))) s)"
    using atomic_step.intros [of 0 demo_users demo_plan "Bytes [97, 10]" "Sys_write 0 2" srv_kernel "set_pos pos ?c" s "Inr 2"]
    by (simp add: demo_users_def demo_task_def writers_def demo_words_def)
  then show ?thesis
    by (intro exI conjI) (rule atomic_run_steps, assumption, simp_all add: demo_users_def set_task_def demo_task_def idle_def)
qed

theorem concurrent_writers_witness:
  "\<exists>(U :: umem users) h. answers (tasks U ! 0) = [Inr 2] \<and> order_of demo_words U h \<and>
    (case segment (drv_pend demo) (map snd h) of
       (commands, rest) \<Rightarrow> drv_cmds (udev U) = newest MAXOPS (drv_cmds demo @ commands) \<and> drv_pend (udev U) = rest)"
proof -
  obtain U where U: "(user_step srv_kernel demo_plan)\<^sup>*\<^sup>* demo_users U" "length (tasks U) = 2" "idle U"
      "answers (tasks U ! 0) = [Inr 2]" "answers (tasks U ! 1) = []" using demo_first_written by blast
  have "tasks U = [tasks U ! 0, tasks U ! 1]" using U(2) by (intro nth_equalityI) (auto simp: less_Suc_eq numeral_2_eq_2)
  then have "set (tasks U) = {tasks U ! 0, tasks U ! 1}" by (metis list.simps(15) set_empty2 empty_set)
  then have "all_taken U" using U(4,5) by (simp add: all_taken_def)
  moreover have "\<forall>i. \<forall>bs \<in> set (demo_words i). length bs < 2 ^ 63" by (simp add: demo_words_def)
  moreover have "\<forall>t \<in> set (tasks demo_users). answers t = []" "udev demo_users = demo"
    by (simp_all add: demo_users_def demo_task_def)
  ultimately have "\<exists>h. order_of demo_words U h \<and>
    (case segment (drv_pend demo) (map snd h) of
       (commands, rest) \<Rightarrow> drv_cmds (udev U) = newest MAXOPS (drv_cmds demo @ commands) \<and> drv_pend (udev U) = rest)"
    using concurrent_writers [OF srv_memory_ok srv_seek_keeps_file srv_user_ok _ demo_users_ok _ U(1,3)] by simp
  then show ?thesis using U(4) by (elim exE, intro exI) (rule conjI)
qed

end
