(* ===== verification/Queue_Cells.thy ===== *)
theory Queue_Cells
  imports Posix
begin

text \<open>
  What the linked structures of \<open>src/server/queue.h\<close> have in common. A link that the
  macros take the address of (\<open>&head->xxh_first\<close>, \<open>&elm->field.xxe_next\<close>) is a
  \<open>cell\<close>; \<open>run\<close> relates the links reachable from a cell to the list of elements, and
  \<open>backs\<close> the back pointers, which are addresses of cells.

  \<open>qop\<close> lists the operations of the macros and \<open>spec_op\<close> their meaning on a list. The locale
  \<open>list_macros\<close> is the contract of one kind of list: each of its operations implements
  \<open>spec_op\<close>; \<open>shared_macros\<close> adds that an operation leaves the other lists of the
  same memory alone. Every kind of list of the header is shown to meet the contract, and
  the lemmas on sequences of operations, proved here, hold for each.
\<close>

section \<open>Cells and the lists behind them\<close>

datatype cell = First ptr | Next ptr

fun lastc :: "cell \<Rightarrow> ptr list \<Rightarrow> cell" where
  "lastc c [] = c"
| "lastc c (x # xs) = lastc (Next x) xs"

fun seg :: "(cell \<Rightarrow> ptr option) \<Rightarrow> ptr \<Rightarrow> cell \<Rightarrow> ptr list \<Rightarrow> bool" where
  "seg ld fin c [] \<longleftrightarrow> True"
| "seg ld fin c (x # xs) \<longleftrightarrow> ld c = Some x \<and> x \<noteq> fin \<and> seg ld fin (Next x) xs"

definition run :: "(cell \<Rightarrow> ptr option) \<Rightarrow> ptr \<Rightarrow> cell \<Rightarrow> ptr list \<Rightarrow> bool" where
  "run ld fin c xs \<longleftrightarrow> seg ld fin c xs \<and> ld (lastc c xs) = Some fin"

fun backs :: "(ptr \<Rightarrow> cell option) \<Rightarrow> cell \<Rightarrow> ptr list \<Rightarrow> bool" where
  "backs bk c [] \<longleftrightarrow> True"
| "backs bk c (x # xs) \<longleftrightarrow> bk x = Some c \<and> backs bk (Next x) xs"

lemma run_simps [simp]:
  "run ld fin c [] \<longleftrightarrow> ld c = Some fin"
  "run ld fin c (x # xs) \<longleftrightarrow> ld c = Some x \<and> x \<noteq> fin \<and> run ld fin (Next x) xs"
  by (auto simp: run_def)

lemma lastc_append [simp]: "lastc c (as @ bs) = lastc (lastc c as) bs"
  by (induction as arbitrary: c) auto

lemma lastc_last: "lastc c xs = (if xs = [] then c else Next (last xs))"
  by (induction xs arbitrary: c) auto

lemma lastc_in: "lastc c xs \<in> set (c # map Next xs)"
  by (auto simp: lastc_last)

lemma lastc_cases: "lastc (First h) xs = First h \<or> lastc (First h) xs \<in> Next ` set xs"
  by (auto simp: lastc_last)

lemma seg_append [simp]: "seg ld fin c (as @ bs) \<longleftrightarrow> seg ld fin c as \<and> seg ld fin (lastc c as) bs"
  by (induction as arbitrary: c) auto

lemma run_append: "run ld fin c (as @ bs) \<longleftrightarrow> seg ld fin c as \<and> run ld fin (lastc c as) bs"
  by (simp add: run_def)

lemma backs_append [simp]: "backs bk c (as @ bs) \<longleftrightarrow> backs bk c as \<and> backs bk (lastc c as) bs"
  by (induction as arbitrary: c) auto

lemma backs_upd [simp]: "x \<notin> set xs \<Longrightarrow> backs (bk(x := v)) c xs = backs bk c xs"
  by (induction xs arbitrary: c) auto

lemma backs_cong: "(\<And>x. x \<in> set xs \<Longrightarrow> bk x = bk' x) \<Longrightarrow> backs bk c xs = backs bk' c xs"
  by (induction xs arbitrary: c) auto

lemma run_unique: "run ld fin c xs \<Longrightarrow> run ld fin c ys \<Longrightarrow> xs = ys"
proof (induction xs arbitrary: c ys)
  case Nil
  then show ?case by (cases ys) auto
next
  case (Cons x xs)
  then show ?case by (cases ys) auto
qed

lemma run_no_loop: "run ld fin (Next x) xs \<Longrightarrow> x \<notin> set xs"
proof
  assume r: "run ld fin (Next x) xs" and "x \<in> set xs"
  then obtain as bs where xs: "xs = as @ x # bs" by (meson split_list)
  with r have "run ld fin (Next x) bs" by (simp add: run_append)
  from run_unique [OF this r] xs show False by simp
qed

lemma run_distinct: "run ld fin c xs \<Longrightarrow> distinct xs"
  by (induction xs arbitrary: c) (auto dest: run_no_loop)

lemma run_distinct_cells: "run ld fin c xs \<Longrightarrow> distinct (c # map Next xs)"
  by (cases c) (auto simp: distinct_map run_distinct dest: run_no_loop intro: inj_onI)

lemma run_fin: "run ld fin c xs \<Longrightarrow> fin \<notin> set xs"
  by (induction xs arbitrary: c) auto

lemma run_live: "run ld fin c xs \<Longrightarrow> x \<in> set xs \<Longrightarrow> ld (Next x) \<noteq> None"
proof (induction xs arbitrary: c)
  case (Cons y xs)
  then show ?case by (cases xs) auto
qed simp

text \<open>The cells that hold the elements of a segment.\<close>

fun srcs :: "cell \<Rightarrow> ptr list \<Rightarrow> cell list" where
  "srcs c [] = []"
| "srcs c (x # xs) = c # srcs (Next x) xs"

lemma srcs_lastc: "srcs c xs @ [lastc c xs] = c # map Next xs"
  by (induction xs arbitrary: c) auto

lemma srcs_subset: "set (srcs c xs) \<subseteq> set (c # map Next xs)"
  by (metis srcs_lastc set_append Un_upper1)

lemma seg_cong: "(\<And>d. d \<in> set (srcs c xs) \<Longrightarrow> ld d = ld' d) \<Longrightarrow> seg ld fin c xs = seg ld' fin c xs"
  by (induction xs arbitrary: c) auto

lemma run_cong:
  assumes "\<And>d. d \<in> set (c # map Next xs) \<Longrightarrow> ld d = ld' d"
  shows "run ld fin c xs = run ld' fin c xs"
  unfolding run_def using assms lastc_in [of c xs] srcs_subset [of c xs]
  by (metis seg_cong subsetD)

lemma Next_image [simp]: "Next x \<in> Next ` A \<longleftrightarrow> x \<in> A" "First h \<notin> Next ` A"
  by auto

lemma run_upd [simp]: "c' \<noteq> c \<Longrightarrow> c' \<notin> Next ` set xs \<Longrightarrow> run (ld(c' := v)) fin c xs = run ld fin c xs"
  by (rule run_cong) auto

lemma run_lastc_fresh: "run ld fin c (as @ bs) \<Longrightarrow> lastc c as \<notin> set (srcs c as)"
  using run_distinct_cells [of ld fin c "as @ bs"] srcs_lastc [of c as]
  by (metis distinct_append append_Cons map_append not_distinct_conv_prefix)

section \<open>Changing a run\<close>

text \<open>
  Storing into the last cell of a segment, in a memory that holds the segment:
  the end mark, or an element with a run behind it.
\<close>

lemma run_store:
  assumes r: "run ld fin c (as @ bs)" and same: "\<And>d. d \<in> set (srcs c as) \<Longrightarrow> ld' d = ld d"
    and y: "y \<noteq> fin" and r': "run ld' fin (Next y) cs" and c: "lastc c as \<notin> Next ` set (y # cs)"
  shows "run (ld'(lastc c as \<mapsto> y)) fin c (as @ y # cs)"
proof -
  have "seg (ld'(lastc c as \<mapsto> y)) fin c as = seg ld fin c as"
    using run_lastc_fresh [OF r] same by (intro seg_cong) auto
  moreover have "run (ld'(lastc c as \<mapsto> y)) fin (Next y) cs" using r' c by (subst run_upd) auto
  ultimately show ?thesis using y r by (simp add: run_append)
qed

lemma run_store_end:
  assumes r: "run ld fin c (as @ bs)"
  shows "run (ld(lastc c as \<mapsto> fin)) fin c as"
proof -
  have "seg (ld(lastc c as \<mapsto> fin)) fin c as = seg ld fin c as"
    using run_lastc_fresh [OF r] by (intro seg_cong) auto
  then show ?thesis using r by (simp add: run_def)
qed

lemma lastc_not_in: "run ld fin c (as @ bs) \<Longrightarrow> lastc c as \<notin> Next ` set bs"
  using run_distinct_cells [of ld fin c "as @ bs"] lastc_in [of c as] by auto

lemma lastc_not_new: "c \<noteq> Next x \<Longrightarrow> x \<notin> set as \<Longrightarrow> lastc c as \<noteq> Next x"
  by (auto simp: lastc_last)

lemma run_insert:
  assumes r: "run ld fin c (as @ bs)" and x: "x \<noteq> fin" "x \<notin> set (as @ bs)" "c \<noteq> Next x"
  shows "run (ld(Next x := ld (lastc c as), lastc c as \<mapsto> x)) fin c (as @ x # bs)"
proof (rule run_store [OF r])
  have ne: "lastc c as \<noteq> Next x" using x by (intro lastc_not_new) auto
  show "(ld(Next x := ld (lastc c as))) d = ld d" if "d \<in> set (srcs c as)" for d
    using that srcs_subset [of c as] x by auto
  show "run (ld(Next x := ld (lastc c as))) fin (Next x) bs"
    using r [unfolded run_append] x by (cases bs) simp_all
  show "lastc c as \<notin> Next ` set (x # bs)" using lastc_not_in [OF r] ne by auto
qed (use x in simp)

lemma run_remove:
  assumes r: "run ld fin c (as @ x # bs)"
  shows "run (ld(lastc c as := ld (Next x))) fin c (as @ bs)"
proof (cases bs)
  case Nil
  then show ?thesis using run_store_end [OF r] r by (simp add: run_append)
next
  case (Cons y cs)
  have "run (ld(lastc c as \<mapsto> y)) fin c (as @ y # cs)"
    using r Cons lastc_not_in [OF r] by (intro run_store [OF r]) (auto simp: run_append)
  then show ?thesis using r Cons by (simp add: run_append)
qed

lemma run_replace:
  assumes r: "run ld fin c (as @ x # bs)" and y: "y \<noteq> fin" "y \<notin> set (as @ x # bs)" "c \<noteq> Next y"
  shows "run (ld(Next y := ld (Next x), lastc c as \<mapsto> y)) fin c (as @ y # bs)"
proof -
  have "run (ld(lastc c as := ld (Next x))) fin c (as @ bs)" by (rule run_remove [OF r])
  then have "run (ld(lastc c as := ld (Next x), Next y := ld (Next x), lastc c as \<mapsto> y)) fin c (as @ y # bs)"
    using run_insert [of "ld(lastc c as := ld (Next x))" fin c as bs y] y by simp
  moreover have "lastc c as \<noteq> Next y" using y by (intro lastc_not_new) auto
  ultimately show ?thesis by (simp add: fun_upd_twist [of "lastc c as" "Next y"])
qed

lemma run_move:
  assumes "run ld fin c xs" and "ld' c' = ld c" and "\<And>x. x \<in> set xs \<Longrightarrow> ld' (Next x) = ld (Next x)"
  shows "run ld' fin c' xs"
proof (cases xs)
  case Nil
  then show ?thesis using assms by simp
next
  case (Cons x ys)
  have "run ld' fin (Next x) ys = run ld fin (Next x) ys" by (rule run_cong) (use assms(3) Cons in auto)
  then show ?thesis using assms(1,2) Cons by simp
qed

text \<open>The same for the back pointers.\<close>

definition set_back :: "(ptr \<Rightarrow> cell option) \<Rightarrow> ptr list \<Rightarrow> cell \<Rightarrow> ptr \<Rightarrow> cell option" where
  "set_back bk bs c = (case bs of [] \<Rightarrow> bk | y # _ \<Rightarrow> bk(y \<mapsto> c))"

lemma set_back_simps [simp]: "set_back bk [] c = bk" "set_back bk (y # ys) c = bk(y \<mapsto> c)"
  by (simp_all add: set_back_def)

lemma backs_set_back:
  assumes "backs bk c' bs" and "distinct bs"
  shows "backs (set_back bk bs c) c bs"
  using assms by (cases bs) auto

lemma backs_insert:
  assumes "backs bk c (as @ bs)" and "distinct (as @ bs)" and "x \<notin> set (as @ bs)"
  shows "backs ((set_back bk bs (Next x))(x \<mapsto> lastc c as)) c (as @ x # bs)"
  using assms by (cases bs) auto

lemma backs_remove:
  assumes "backs bk c (as @ x # bs)" and "distinct (as @ x # bs)"
  shows "backs (set_back bk bs (lastc c as)) c (as @ bs)"
  using assms by (cases bs) auto

lemma backs_replace:
  assumes "backs bk c (as @ x # bs)" and "distinct (as @ x # bs)" and "y \<notin> set (as @ x # bs)"
  shows "backs ((set_back bk bs (Next y))(y \<mapsto> lastc c as)) c (as @ y # bs)"
  using assms by (cases bs) auto

section \<open>Objects in memory\<close>

definition deref :: "(ptr \<Rightarrow> 'a option) \<Rightarrow> ptr \<Rightarrow> 'a option" where
  "deref f p = (if p = NULL then None else f p)"

definition change :: "(ptr \<Rightarrow> 'a option) \<Rightarrow> ptr \<Rightarrow> ('a \<Rightarrow> 'a) \<Rightarrow> ptr \<Rightarrow> 'a option" where
  "change f p g = f(p := map_option g (f p))"

lemma deref_change: "deref (change f p g) q = (if q = p then map_option g (deref f q) else deref f q)"
  by (simp add: deref_def change_def)

section \<open>Loops over the elements\<close>

text \<open>
  \<open>for (var = p; var != fin; var = nxt(var)) body\<close>, where the body may change the memory, and the
  variant that reads the successor before the body runs.
\<close>

partial_function (option) for_loop ::
  "('m \<Rightarrow> ptr \<Rightarrow> ptr option) \<Rightarrow> ptr \<Rightarrow> (ptr \<Rightarrow> 'm \<Rightarrow> 's \<Rightarrow> ('m \<times> 's) prog) \<Rightarrow> ptr \<Rightarrow> 'm \<Rightarrow> 's \<Rightarrow> ('m \<times> 's) prog" where
  "for_loop nxt fin body var m s =
     (if var = fin then Some (Returned (m, s))
      else
        (case body var m s of
           None \<Rightarrow> None
         | Some Undefined \<Rightarrow> Some Undefined
         | Some Blocked \<Rightarrow> Some Blocked
         | Some (Returned (m', s')) \<Rightarrow>
             (case nxt m' var of None \<Rightarrow> Some Undefined | Some q \<Rightarrow> for_loop nxt fin body q m' s')))"

partial_function (option) for_safe_loop ::
  "('m \<Rightarrow> ptr \<Rightarrow> ptr option) \<Rightarrow> ptr \<Rightarrow> (ptr \<Rightarrow> 'm \<Rightarrow> 's \<Rightarrow> ('m \<times> 's) prog) \<Rightarrow> ptr \<Rightarrow> 'm \<Rightarrow> 's \<Rightarrow> ('m \<times> 's) prog" where
  "for_safe_loop nxt fin body var m s =
     (if var = fin then Some (Returned (m, s))
      else
        (case nxt m var of
           None \<Rightarrow> Some Undefined
         | Some tvar \<Rightarrow>
             (case body var m s of
                None \<Rightarrow> None
              | Some Undefined \<Rightarrow> Some Undefined
              | Some Blocked \<Rightarrow> Some Blocked
              | Some (Returned (m', s')) \<Rightarrow> for_safe_loop nxt fin body tvar m' s')))"

text \<open>The search \<open>while (curelm->next != elm) curelm = curelm->next\<close>.\<close>

partial_function (option) search_loop :: "(ptr \<Rightarrow> ptr option) \<Rightarrow> ptr \<Rightarrow> ptr \<Rightarrow> ptr prog" where
  "search_loop nx elm curelm =
     (case nx curelm of
        None \<Rightarrow> Some Undefined
      | Some q \<Rightarrow> if q \<noteq> elm then search_loop nx elm q else Some (Returned curelm))"

text \<open>The successors met from \<open>p\<close> on.\<close>

fun walk :: "(ptr \<Rightarrow> ptr option) \<Rightarrow> ptr \<Rightarrow> ptr \<Rightarrow> ptr list \<Rightarrow> bool" where
  "walk nx fin p [] \<longleftrightarrow> p = fin"
| "walk nx fin p (x # xs) \<longleftrightarrow> p = x \<and> x \<noteq> fin \<and> (\<exists>q. nx x = Some q \<and> walk nx fin q xs)"

lemma run_walk: "run ld fin c xs \<Longrightarrow> \<exists>p. ld c = Some p \<and> walk (\<lambda>x. ld (Next x)) fin p xs"
  by (induction xs arbitrary: c) fastforce+

lemma walk_cong: "(\<And>x. x \<in> set xs \<Longrightarrow> nx x = nx' x) \<Longrightarrow> walk nx fin p xs = walk nx' fin p xs"
  by (induction xs arbitrary: p) auto

lemma search_loop_finds:
  assumes "run ld fin (Next c) (as @ x # bs)"
  shows "search_loop (\<lambda>p. ld (Next p)) x c = ret (last (c # as))"
  using assms
proof (induction as arbitrary: c)
  case Nil
  then show ?case by (subst search_loop.simps) (simp add: ret_def)
next
  case (Cons a as)
  then have "ld (Next c) = Some a" "run ld fin (Next a) (as @ x # bs)" by simp_all
  moreover from this(2) have "a \<noteq> x" using run_no_loop by fastforce
  ultimately show ?case using Cons.IH [of a] by (subst search_loop.simps) simp
qed

lemma for_loop_visits:
  assumes "walk (nxt m) fin p xs" and "\<And>x s. x \<in> set xs \<Longrightarrow> body x m s = ret (m, g x s)"
  shows "for_loop nxt fin body p m s = ret (m, fold g xs s)"
  using assms
proof (induction xs arbitrary: p s)
  case Nil
  then show ?case by (subst for_loop.simps) simp
next
  case (Cons x xs)
  then obtain q where q: "p = x" "x \<noteq> fin" "nxt m x = Some q" "walk (nxt m) fin q xs" by auto
  have "for_loop nxt fin body p m s = for_loop nxt fin body q m (g x s)"
    using q Cons.prems(2) [of x s] by (subst for_loop.simps) (simp add: ret_def)
  then show ?case using Cons.IH [OF q(4)] Cons.prems(2) by simp
qed

text \<open>
  The safe loop allows a body that destroys the element it is at: it is enough that the
  body leaves the successors of the elements still to come.
\<close>

lemma for_safe_loop_visits:
  assumes "walk (nxt m) fin p xs" and "distinct xs"
    and "\<And>x m s. x \<in> set xs \<Longrightarrow> body x m s = ret (f x m, g x s)"
    and "\<And>x y m. y \<noteq> x \<Longrightarrow> nxt (f x m) y = nxt m y"
  shows "for_safe_loop nxt fin body p m s = ret (fold f xs m, fold g xs s)"
  using assms(1-3)
proof (induction xs arbitrary: p m s)
  case Nil
  then show ?case by (subst for_safe_loop.simps) simp
next
  case (Cons x xs)
  then obtain q where q: "p = x" "x \<noteq> fin" "nxt m x = Some q" "walk (nxt m) fin q xs" by auto
  have "walk (nxt (f x m)) fin q xs = walk (nxt m) fin q xs"
    using Cons.prems(2) by (intro walk_cong assms(4)) auto
  with q have w: "walk (nxt (f x m)) fin q xs" by simp
  have "for_safe_loop nxt fin body p m s = for_safe_loop nxt fin body q (f x m) (g x s)"
    using q Cons.prems(3) [of x m s] by (subst for_safe_loop.simps) (simp add: ret_def)
  then show ?case using Cons.IH [OF w] Cons.prems by simp
qed

lemma fold_collect: "fold (\<lambda>p s. s @ [p]) xs s = s @ xs"
  by (induction xs arbitrary: s) auto

section \<open>The operations and their meaning\<close>

datatype qop =
    Insert_Head ptr
  | Insert_Tail ptr
  | Insert_Before ptr ptr
  | Insert_After ptr ptr
  | Remove ptr
  | Remove_Head
  | Remove_After ptr
  | Remove_Head_Until ptr
  | Replace ptr ptr

fun new_elem :: "qop \<Rightarrow> ptr list" where
  "new_elem (Insert_Head x) = [x]"
| "new_elem (Insert_Tail x) = [x]"
| "new_elem (Insert_Before y x) = [x]"
| "new_elem (Insert_After y x) = [x]"
| "new_elem (Replace y x) = [x]"
| "new_elem _ = []"

definition before :: "ptr \<Rightarrow> ptr list \<Rightarrow> ptr list" where
  "before y ps = takeWhile (\<lambda>z. z \<noteq> y) ps"

definition beyond :: "ptr \<Rightarrow> ptr list \<Rightarrow> ptr list" where
  "beyond y ps = tl (dropWhile (\<lambda>z. z \<noteq> y) ps)"

fun spec_op :: "qop \<Rightarrow> ptr list \<Rightarrow> ptr list option" where
  "spec_op (Insert_Head x) ps = Some (x # ps)"
| "spec_op (Insert_Tail x) ps = Some (ps @ [x])"
| "spec_op (Insert_Before y x) ps = (if y \<in> set ps then Some (before y ps @ x # y # beyond y ps) else None)"
| "spec_op (Insert_After y x) ps = (if y \<in> set ps then Some (before y ps @ y # x # beyond y ps) else None)"
| "spec_op (Remove y) ps = (if y \<in> set ps then Some (before y ps @ beyond y ps) else None)"
| "spec_op Remove_Head ps = (if ps = [] then None else Some (tl ps))"
| "spec_op (Remove_After y) ps =
     (if y \<in> set ps \<and> beyond y ps \<noteq> [] then Some (before y ps @ y # tl (beyond y ps)) else None)"
| "spec_op (Remove_Head_Until y) ps = (if y \<in> set ps then Some (beyond y ps) else None)"
| "spec_op (Replace y x) ps = (if y \<in> set ps then Some (before y ps @ x # beyond y ps) else None)"

lemma split_before: "y \<in> set ps \<Longrightarrow> ps = before y ps @ y # beyond y ps"
  by (induction ps) (auto simp: before_def beyond_def)

lemma before_remove1: "y \<in> set ps \<Longrightarrow> before y ps @ beyond y ps = remove1 y ps"
  by (induction ps) (auto simp: before_def beyond_def)

text \<open>
  Several lists in one memory: an association list from heads to lists. An operation is
  applied to one of them; an element that it adds must be live and in none.
\<close>

type_synonym queues = "(ptr \<times> ptr list) list"

abbreviation queued :: "queues \<Rightarrow> ptr list" where
  "queued Q \<equiv> concat (map snd Q)"

definition update_queue :: "ptr \<Rightarrow> ptr list \<Rightarrow> queues \<Rightarrow> queues" where
  "update_queue h ps Q = map (\<lambda>(k, qs). (k, if k = h then ps else qs)) Q"

definition spec_step :: "(ptr \<Rightarrow> bool) \<Rightarrow> (qop \<Rightarrow> bool) \<Rightarrow> queues \<Rightarrow> ptr \<times> qop \<Rightarrow> queues option" where
  "spec_step alive supp Q = (\<lambda>(h, op).
     if supp op \<and> list_all (\<lambda>x. alive x \<and> x \<notin> set (queued Q)) (new_elem op) then
       do {
         ps \<leftarrow> map_of Q h;
         ps' \<leftarrow> spec_op op ps;
         Some (update_queue h ps' Q)
       }
     else None)"

fun spec_steps :: "(ptr \<Rightarrow> bool) \<Rightarrow> (qop \<Rightarrow> bool) \<Rightarrow> queues \<Rightarrow> (ptr \<times> qop) list \<Rightarrow> queues option" where
  "spec_steps alive supp Q [] = Some Q"
| "spec_steps alive supp Q (a # as) =
     do { Q' \<leftarrow> spec_step alive supp Q a; spec_steps alive supp Q' as }"

fun exec_steps :: "('m \<Rightarrow> ptr \<Rightarrow> qop \<Rightarrow> 'm prog) \<Rightarrow> 'm \<Rightarrow> (ptr \<times> qop) list \<Rightarrow> 'm prog" where
  "exec_steps ex m [] = ret m"
| "exec_steps ex m ((h, op) # as) = seq (ex m h op) (\<lambda>m'. exec_steps ex m' as)"

definition holds_queues :: "('m \<Rightarrow> ptr \<Rightarrow> ptr list \<Rightarrow> bool) \<Rightarrow> 'm \<Rightarrow> queues \<Rightarrow> bool" where
  "holds_queues rep m Q \<longleftrightarrow>
     distinct (map fst Q) \<and> distinct (queued Q) \<and> list_all (\<lambda>(h, ps). rep m h ps) Q"

lemma of_option_ex: "\<exists>m'. r = Some m' \<and> P m' \<Longrightarrow> \<exists>m'. of_option r = ret m' \<and> P m'"
  by auto

section \<open>What the operations do to the elements\<close>

lemma spec_op_set:
  assumes "spec_op op ps = Some ps'"
  shows "set ps' \<subseteq> set ps \<union> set (new_elem op)"
proof -
  have u: "set (before y ps) \<subseteq> set ps" "set (beyond y ps) \<subseteq> set ps" "set (tl (beyond y ps)) \<subseteq> set ps" for y
    by (auto simp: before_def beyond_def dest: set_takeWhileD list.set_sel(2) set_dropWhileD)
      (metis list.set_sel(2) set_dropWhileD tl_Nil)+
  show ?thesis using assms u
    by (cases op) (auto split: if_splits dest: list.set_sel(2), (blast dest: list.set_sel(2))+)
qed

lemma spec_op_distinct:
  assumes "spec_op op ps = Some ps'" and "distinct ps" and "set (new_elem op) \<inter> set ps = {}"
  shows "distinct ps'"
proof -
  have "distinct (before y ps @ y # beyond y ps)" if "y \<in> set ps" for y
    using assms(2) split_before [OF that] by simp
  then have d: "y \<in> set ps \<Longrightarrow> distinct (before y ps) \<and> distinct (beyond y ps) \<and> y \<notin> set (before y ps) \<and>
      y \<notin> set (beyond y ps) \<and> set (before y ps) \<inter> set (beyond y ps) = {}" for y by fastforce
  have u: "y \<in> set ps \<Longrightarrow> x \<notin> set ps \<Longrightarrow> x \<notin> set (before y ps) \<and> x \<notin> set (beyond y ps)" for x y
    using split_before [of y ps] by (metis Un_iff list.set_intros(2) set_append)
  have t: "set (tl xs) \<subseteq> set xs" "distinct xs \<Longrightarrow> distinct (tl xs)" for xs :: "ptr list"
    by (cases xs; auto)+
  show ?thesis using assms
  proof (cases op)
    case (Remove_After y)
    then show ?thesis using assms d [of y] by (cases "beyond y ps") (auto split: if_splits)
  qed (use assms d u t in \<open>auto split: if_splits\<close>)
qed

lemma update_queue_keys [simp]: "map fst (update_queue h ps Q) = map fst Q"
  by (auto simp: update_queue_def)

lemma update_queue_fresh: "h \<notin> fst ` set Q \<Longrightarrow> update_queue h ps Q = Q"
  unfolding update_queue_def by (induction Q) auto

lemma queues_split:
  assumes "map_of Q h = Some ps" and "distinct (map fst Q)"
  obtains Q1 Q2 where "Q = Q1 @ (h, ps) # Q2" and "\<And>qs. update_queue h qs Q = Q1 @ (h, qs) # Q2"
    and "h \<notin> fst ` set (Q1 @ Q2)"
proof -
  obtain Q1 Q2 where Q: "Q = Q1 @ (h, ps) # Q2" using map_of_SomeD [OF assms(1)] by (meson split_list)
  with assms(2) have "h \<notin> fst ` set Q1" "h \<notin> fst ` set Q2" by (auto simp: image_iff)
  with Q show thesis
    by (intro that [of Q1 Q2]) (auto simp: update_queue_def update_queue_fresh [unfolded update_queue_def])
qed

section \<open>The contract of a kind of list\<close>

locale list_macros =
  fixes rep :: "'m \<Rightarrow> ptr \<Rightarrow> ptr list \<Rightarrow> bool"
    and alive :: "'m \<Rightarrow> ptr \<Rightarrow> bool"
    and ex :: "'m \<Rightarrow> ptr \<Rightarrow> qop \<Rightarrow> 'm prog"
    and supp :: "qop \<Rightarrow> bool"
  assumes refines: "rep m h ps \<Longrightarrow> supp op \<Longrightarrow> list_all (alive m) (new_elem op) \<Longrightarrow>
      set (new_elem op) \<inter> set ps = {} \<Longrightarrow> spec_op op ps = Some ps' \<Longrightarrow>
      \<exists>m'. ex m h op = ret m' \<and> rep m' h ps' \<and> alive m' = alive m"
begin

lemma spec_step_one: "spec_step (alive m) supp [(h, ps)] (h, op) = Some Q' \<Longrightarrow>
    \<exists>ps'. Q' = [(h, ps')] \<and> supp op \<and> list_all (alive m) (new_elem op) \<and>
      set (new_elem op) \<inter> set ps = {} \<and> spec_op op ps = Some ps'"
  by (auto simp: spec_step_def update_queue_def list_all_iff split: if_splits bind_splits)

lemma one_list_refines:
  assumes "rep m h ps" and "spec_steps (alive m) supp [(h, ps)] (map (Pair h) ops) = Some Q"
  shows "\<exists>m' ps'. Q = [(h, ps')] \<and> exec_steps ex m (map (Pair h) ops) = ret m' \<and> rep m' h ps' \<and> alive m' = alive m"
  using assms
proof (induction ops arbitrary: m ps)
  case Nil
  then show ?case by auto
next
  case (Cons op ops)
  obtain Q' where Q': "spec_step (alive m) supp [(h, ps)] (h, op) = Some Q'"
      "spec_steps (alive m) supp Q' (map (Pair h) ops) = Some Q"
    using Cons.prems(2) by (auto split: bind_splits)
  obtain ps' where ps': "Q' = [(h, ps')]" "supp op" "list_all (alive m) (new_elem op)"
      "set (new_elem op) \<inter> set ps = {}" "spec_op op ps = Some ps'"
    using spec_step_one [OF Q'(1)] by blast
  obtain m' where m': "ex m h op = ret m'" "rep m' h ps'" "alive m' = alive m"
    using refines [OF Cons.prems(1) ps'(2-5)] by blast
  have "\<exists>m'' ps''. Q = [(h, ps'')] \<and> exec_steps ex m' (map (Pair h) ops) = ret m'' \<and> rep m'' h ps'' \<and> alive m'' = alive m'"
    by (rule Cons.IH [OF m'(2)]) (use Q' ps' m' in simp)
  then show ?case using m' by simp
qed

end

locale shared_macros = list_macros rep alive ex supp
  for rep :: "'m \<Rightarrow> ptr \<Rightarrow> ptr list \<Rightarrow> bool" and alive :: "'m \<Rightarrow> ptr \<Rightarrow> bool"
    and ex :: "'m \<Rightarrow> ptr \<Rightarrow> qop \<Rightarrow> 'm prog" and supp :: "qop \<Rightarrow> bool" +
  assumes frame: "rep m h ps \<Longrightarrow> supp op \<Longrightarrow> list_all (alive m) (new_elem op) \<Longrightarrow>
      set (new_elem op) \<inter> set ps = {} \<Longrightarrow> spec_op op ps = Some ps' \<Longrightarrow> ex m h op = ret m' \<Longrightarrow>
      rep m k qs \<Longrightarrow> k \<noteq> h \<Longrightarrow> set qs \<inter> (set ps \<union> set (new_elem op)) = {} \<Longrightarrow> rep m' k qs"
begin

lemma step_refines:
  assumes "holds_queues rep m Q" and "spec_step (alive m) supp Q (h, op) = Some Q'"
  shows "\<exists>m'. ex m h op = ret m' \<and> holds_queues rep m' Q' \<and> alive m' = alive m"
proof -
  obtain ps ps' where op: "supp op" "list_all (alive m) (new_elem op)" "set (new_elem op) \<inter> set (queued Q) = {}"
      and ps: "map_of Q h = Some ps" "spec_op op ps = Some ps'" "Q' = update_queue h ps' Q"
    using assms(2) by (auto simp: spec_step_def list_all_iff split: if_splits bind_splits)
  have hold: "distinct (map fst Q)" "distinct (queued Q)" "list_all (\<lambda>(h, ps). rep m h ps) Q"
    using assms(1) by (simp_all add: holds_queues_def)
  obtain Q1 Q2 where Q: "Q = Q1 @ (h, ps) # Q2" "Q' = Q1 @ (h, ps') # Q2" "h \<notin> fst ` set (Q1 @ Q2)"
    using queues_split [OF ps(1) hold(1)] ps(3) by metis
  have new: "set (new_elem op) \<inter> set ps = {}" using op(3) Q(1) by auto
  have "rep m h ps" using hold(3) Q(1) by simp
  then obtain m' where m': "ex m h op = ret m'" "rep m' h ps'" "alive m' = alive m"
    using refines [OF _ op(1,2) new ps(2)] by blast
  define R where "R = set (queued Q1) \<union> set (queued Q2)"
  have R: "set ps \<inter> R = {}" "set (new_elem op) \<inter> R = {}" "set (queued Q1) \<inter> set (queued Q2) = {}"
    using hold(2) op(3) Q(1) unfolding R_def by auto
  have "rep m' k qs" if kq: "(k, qs) \<in> set (Q1 @ Q2)" for k qs
  proof (rule frame [OF \<open>rep m h ps\<close> op(1,2) new ps(2) m'(1)])
    show "rep m k qs" using hold(3) Q(1) kq by (auto simp: list_all_iff)
    show "k \<noteq> h" using Q(3) kq by force
    have "set qs \<subseteq> R" using kq unfolding R_def by (auto intro: rev_bexI)
    with R show "set qs \<inter> (set ps \<union> set (new_elem op)) = {}" by blast
  qed
  moreover have "distinct (queued Q')"
  proof -
    have "set ps' \<inter> R = {}" using spec_op_set [OF ps(2)] R by blast
    then have "set ps' \<inter> set (queued Q1) = {}" "set ps' \<inter> set (queued Q2) = {}" unfolding R_def by blast+
    moreover have "distinct ps'" "distinct (queued Q1)" "distinct (queued Q2)"
      using hold(2) Q(1) by (auto intro: spec_op_distinct [OF ps(2) _ new])
    ultimately show ?thesis using R(3) Q(2) by (simp add: Int_Un_distrib Int_commute)
  qed
  ultimately show ?thesis using m' hold(1) Q(1,2) by (auto simp: holds_queues_def list_all_iff)
qed

lemma steps_refine:
  assumes "holds_queues rep m Q" and "spec_steps (alive m) supp Q as = Some Q'"
  shows "\<exists>m'. exec_steps ex m as = ret m' \<and> holds_queues rep m' Q' \<and> alive m' = alive m"
  using assms
proof (induction as arbitrary: m Q)
  case Nil
  then show ?case by simp
next
  case (Cons a as)
  obtain h op where a: "a = (h, op)" by force
  obtain Q1 where Q1: "spec_step (alive m) supp Q (h, op) = Some Q1" "spec_steps (alive m) supp Q1 as = Some Q'"
    using Cons.prems(2) a by (auto split: bind_splits)
  obtain m1 where m1: "ex m h op = ret m1" "holds_queues rep m1 Q1" "alive m1 = alive m"
    using step_refines [OF Cons.prems(1) Q1(1)] by blast
  have "\<exists>m'. exec_steps ex m1 as = ret m' \<and> holds_queues rep m' Q' \<and> alive m' = alive m1"
    by (rule Cons.IH [OF m1(2)]) (use Q1 m1 in simp)
  then show ?case using a m1 by simp
qed

end

end
