(* ===== verification/Slist.thy ===== *)
theory Slist
  imports Queue_Cells
begin

text \<open>
  The singly-linked list macros of \<open>src/server/queue.h\<close>, on a store of elements. An element
  is the embedding structure: the link \<open>sle_next\<close> and everything else, the \<open>payload\<close>. \<open>None\<close> is
  the use of a pointer that is \<open>NULL\<close> or no live element; the searching loop of
  \<open>SLIST_REMOVE\<close>, which need not end on a cyclic list, is a \<open>prog\<close>.

  \<open>linked next p ps\<close> relates a chain of pointers to the list of its elements; every
  operation is shown to be the corresponding operation on that list.
\<close>

section \<open>Operations\<close>

record 'e elem =
  sle_next :: ptr
  payload :: 'e

record 'e slist =
  slh_first :: ptr
  elems :: "ptr \<Rightarrow> 'e elem option"

definition elem_at :: "'e slist \<Rightarrow> ptr \<Rightarrow> 'e elem option" where
  "elem_at l p = (if p = NULL then None else elems l p)"

definition set_next :: "'e slist \<Rightarrow> ptr \<Rightarrow> ptr \<Rightarrow> 'e slist option" where
  "set_next l p q =
     (case elem_at l p of
        None \<Rightarrow> None
      | Some e \<Rightarrow> Some (l\<lparr>elems := (elems l)(p \<mapsto> e\<lparr>sle_next := q\<rparr>)\<rparr>))"

definition SLIST_INIT :: "'e slist \<Rightarrow> 'e slist" where
  "SLIST_INIT l = l\<lparr>slh_first := NULL\<rparr>"

definition SLIST_FIRST :: "'e slist \<Rightarrow> ptr" where
  "SLIST_FIRST l = slh_first l"

definition SLIST_NEXT :: "'e slist \<Rightarrow> ptr \<Rightarrow> ptr option" where
  "SLIST_NEXT l p = map_option sle_next (elem_at l p)"

definition SLIST_EMPTY :: "'e slist \<Rightarrow> bool" where
  "SLIST_EMPTY l \<longleftrightarrow> slh_first l = NULL"

definition SLIST_INSERT_HEAD :: "'e slist \<Rightarrow> ptr \<Rightarrow> 'e slist option" where
  "SLIST_INSERT_HEAD l p =
     do {
       l \<leftarrow> set_next l p (slh_first l);
       Some (l\<lparr>slh_first := p\<rparr>)
     }"

definition SLIST_INSERT_AFTER :: "'e slist \<Rightarrow> ptr \<Rightarrow> ptr \<Rightarrow> 'e slist option" where
  "SLIST_INSERT_AFTER l slistelm p =
     do {
       q \<leftarrow> SLIST_NEXT l slistelm;
       l \<leftarrow> set_next l p q;
       set_next l slistelm p
     }"

definition SLIST_REMOVE_HEAD :: "'e slist \<Rightarrow> 'e slist option" where
  "SLIST_REMOVE_HEAD l =
     do {
       q \<leftarrow> SLIST_NEXT l (slh_first l);
       Some (l\<lparr>slh_first := q\<rparr>)
     }"

definition SLIST_REMOVE_AFTER :: "'e slist \<Rightarrow> ptr \<Rightarrow> 'e slist option" where
  "SLIST_REMOVE_AFTER l slistelm =
     do {
       q \<leftarrow> SLIST_NEXT l slistelm;
       r \<leftarrow> SLIST_NEXT l q;
       set_next l slistelm r
     }"

definition SLIST_REMOVE :: "'e slist \<Rightarrow> ptr \<Rightarrow> 'e slist prog" where
  "SLIST_REMOVE l p =
     (if slh_first l = p then of_option (SLIST_REMOVE_HEAD l)
      else seq (search_loop (SLIST_NEXT l) p (slh_first l)) (\<lambda>curelm. of_option (SLIST_REMOVE_AFTER l curelm)))"

text \<open>Two heads over one store.\<close>

definition SLIST_SWAP :: "'e slist \<Rightarrow> 'e slist \<Rightarrow> 'e slist \<times> 'e slist" where
  "SLIST_SWAP l1 l2 =
     (let swap_first = SLIST_FIRST l1 in (l1\<lparr>slh_first := SLIST_FIRST l2\<rparr>, l2\<lparr>slh_first := swap_first\<rparr>))"

text \<open>
  The two traversals, with a body that may change the list and a surrounding state.
  \<open>SLIST_FOREACH\<close> follows the link after the body has run, \<open>SLIST_FOREACH_SAFE\<close> the link it has
  read before.
\<close>

definition SLIST_FOREACH ::
  "(ptr \<Rightarrow> 'e slist \<Rightarrow> 's \<Rightarrow> ('e slist \<times> 's) prog) \<Rightarrow> 'e slist \<Rightarrow> 's \<Rightarrow> ('e slist \<times> 's) prog" where
  "SLIST_FOREACH f l s = for_loop SLIST_NEXT NULL f (slh_first l) l s"

definition SLIST_FOREACH_SAFE ::
  "(ptr \<Rightarrow> 'e slist \<Rightarrow> 's \<Rightarrow> ('e slist \<times> 's) prog) \<Rightarrow> 'e slist \<Rightarrow> 's \<Rightarrow> ('e slist \<times> 's) prog" where
  "SLIST_FOREACH_SAFE f l s = for_safe_loop SLIST_NEXT NULL f (SLIST_FIRST l) l s"

section \<open>The list behind the pointers\<close>

fun linked :: "(ptr \<Rightarrow> 'e elem option) \<Rightarrow> ptr \<Rightarrow> ptr list \<Rightarrow> bool" where
  "linked h p [] \<longleftrightarrow> p = NULL"
| "linked h p (x # xs) \<longleftrightarrow> p = x \<and> x \<noteq> NULL \<and> (\<exists>e. h x = Some e \<and> linked h (sle_next e) xs)"

definition slist_is :: "'e slist \<Rightarrow> ptr list \<Rightarrow> bool" where
  "slist_is l ps \<longleftrightarrow> linked (elems l) (slh_first l) ps"

lemma linked_unique: "linked h p xs \<Longrightarrow> linked h p ys \<Longrightarrow> xs = ys"
proof (induction xs arbitrary: p ys)
  case Nil
  then show ?case by (cases ys) auto
next
  case (Cons x xs)
  then show ?case by (cases ys) auto
qed

lemma linked_append: "linked h p (xs @ x # ys) \<Longrightarrow> linked h x (x # ys)"
  by (induction xs arbitrary: p) auto

lemma linked_distinct: "linked h p xs \<Longrightarrow> distinct xs"
proof (induction xs arbitrary: p)
  case Nil
  then show ?case by simp
next
  case (Cons x xs)
  then obtain e where e: "h x = Some e" "linked h (sle_next e) xs" by auto
  have "x \<notin> set xs"
  proof
    assume "x \<in> set xs"
    then obtain as bs where xs: "xs = as @ x # bs" by (meson split_list)
    with e have "linked h x (x # bs)" by (metis linked_append)
    moreover have "linked h x (x # xs)" using Cons.prems by auto
    ultimately have "x # bs = x # xs" by (rule linked_unique)
    with xs show False by simp
  qed
  with Cons.IH e show ?case by simp
qed

lemma linked_cong: "(\<And>x. x \<in> set xs \<Longrightarrow> h x = h' x) \<Longrightarrow> linked h p xs = linked h' p xs"
  by (induction xs arbitrary: p) auto

lemma linked_upd [simp]: "x \<notin> set xs \<Longrightarrow> linked (h(x := v)) p xs = linked h p xs"
  by (rule linked_cong) auto

text \<open>Only the links matter, not the payloads.\<close>

lemma linked_last_upd:
  assumes "linked h p (xs @ x # ys)" and "linked h q zs" and "x \<notin> set zs" and "h x = Some e"
  shows "linked (h(x \<mapsto> e\<lparr>sle_next := q\<rparr>)) p (xs @ x # zs)"
  using assms(1)
proof (induction xs arbitrary: p)
  case Nil
  have "linked (h(x \<mapsto> e\<lparr>sle_next := q\<rparr>)) q zs" using assms(2,3) by simp
  then show ?case using Nil by (simp add: fun_upd_same del: fun_upd_apply)
next
  case (Cons y xs)
  have "y \<noteq> x" using linked_distinct [OF Cons.prems] by auto
  then show ?case using Cons by auto
qed

lemma linked_ptrs: "linked h p xs \<Longrightarrow> x \<in> set xs \<Longrightarrow> x \<noteq> NULL \<and> h x \<noteq> None"
  by (induction xs arbitrary: p) auto

lemma linked_NULL: "linked h NULL xs \<longleftrightarrow> xs = []"
  by (cases xs) auto

section \<open>The operations on the list\<close>

lemma SLIST_INIT_is: "slist_is (SLIST_INIT l) []"
  by (simp add: slist_is_def SLIST_INIT_def)

lemma SLIST_EMPTY_is: "slist_is l ps \<Longrightarrow> SLIST_EMPTY l \<longleftrightarrow> ps = []"
  by (cases ps) (auto simp: slist_is_def SLIST_EMPTY_def)

lemma SLIST_INSERT_HEAD_is:
  assumes "slist_is l ps" and "x \<noteq> NULL" and "elems l x = Some e" and "x \<notin> set ps"
  shows "\<exists>l'. SLIST_INSERT_HEAD l x = Some l' \<and> slist_is l' (x # ps) \<and>
    (\<forall>y. map_option payload (elems l' y) = map_option payload (elems l y))"
  using assms
  by (auto simp: SLIST_INSERT_HEAD_def set_next_def elem_at_def slist_is_def)

lemma SLIST_INSERT_AFTER_is:
  assumes l: "slist_is l (as @ s # bs)" and x: "x \<noteq> NULL" "elems l x = Some e" "x \<notin> set (as @ s # bs)"
  shows "\<exists>l'. SLIST_INSERT_AFTER l s x = Some l' \<and> slist_is l' (as @ s # x # bs)"
proof -
  let ?h = "elems l"
  have lk: "linked ?h (slh_first l) (as @ s # bs)" using l by (simp add: slist_is_def)
  then obtain es where es: "?h s = Some es" "linked ?h (sle_next es) bs" "s \<noteq> NULL"
    using linked_append [OF lk] by auto
  let ?h1 = "?h(x \<mapsto> e\<lparr>sle_next := sle_next es\<rparr>)"
  have sx: "s \<noteq> x" using x(3) by auto
  have "linked ?h1 (slh_first l) (as @ s # bs)" "linked ?h1 x (x # bs)"
    using lk es(2) x by auto
  moreover have "s \<notin> set (x # bs)" using linked_distinct [OF lk] sx by auto
  ultimately have "linked (?h1(s \<mapsto> es\<lparr>sle_next := x\<rparr>)) (slh_first l) (as @ s # x # bs)"
    using es(1) sx by (intro linked_last_upd) auto
  then show ?thesis using es x sx
    by (simp add: SLIST_INSERT_AFTER_def SLIST_NEXT_def set_next_def elem_at_def slist_is_def)
qed

lemma SLIST_REMOVE_HEAD_is:
  assumes "slist_is l (x # ps)"
  shows "\<exists>l'. SLIST_REMOVE_HEAD l = Some l' \<and> slist_is l' ps \<and> elems l' = elems l"
  using assms by (auto simp: SLIST_REMOVE_HEAD_def SLIST_NEXT_def elem_at_def slist_is_def)

lemma SLIST_REMOVE_AFTER_is:
  assumes l: "slist_is l (as @ s # x # bs)"
  shows "\<exists>l'. SLIST_REMOVE_AFTER l s = Some l' \<and> slist_is l' (as @ s # bs) \<and>
    (\<forall>y. map_option payload (elems l' y) = map_option payload (elems l y))"
proof -
  let ?h = "elems l"
  have lk: "linked ?h (slh_first l) (as @ s # x # bs)" using l by (simp add: slist_is_def)
  then obtain es ex where e: "?h s = Some es" "sle_next es = x" "?h x = Some ex" "linked ?h (sle_next ex) bs"
      "s \<noteq> NULL" "x \<noteq> NULL"
    using linked_append [OF lk] by auto
  have "s \<notin> set bs" using linked_distinct [OF lk] by auto
  then have "linked (?h(s \<mapsto> es\<lparr>sle_next := sle_next ex\<rparr>)) (slh_first l) (as @ s # bs)"
    using lk e by (intro linked_last_upd)
  then show ?thesis using e
    by (simp add: SLIST_REMOVE_AFTER_def SLIST_NEXT_def set_next_def elem_at_def slist_is_def)
qed

lemma linked_run:
  assumes "linked (elems l) p ps" and "ld c = Some p" and "\<And>x. ld (Next x) = SLIST_NEXT l x"
  shows "run ld NULL c ps"
  using assms by (induction ps arbitrary: p c) (fastforce simp: SLIST_NEXT_def elem_at_def)+

lemma linked_walk: "linked (elems l) p ps \<Longrightarrow> walk (SLIST_NEXT l) NULL p ps"
  by (induction ps arbitrary: p) (auto simp: SLIST_NEXT_def elem_at_def)

lemma remove_search_finds:
  assumes "linked (elems l) c (c # as @ x # bs)"
  shows "search_loop (SLIST_NEXT l) x c = ret (last (c # as))"
proof -
  let ?ld = "case_cell (\<lambda>_. Some c) (SLIST_NEXT l)"
  have "run ?ld NULL (First c) (c # as @ x # bs)" by (rule linked_run [OF assms]) simp_all
  then show ?thesis using search_loop_finds [of ?ld NULL c as x bs] by simp
qed

text \<open>Removing an element that is in the list ends, and takes exactly it out.\<close>

lemma SLIST_REMOVE_is:
  assumes l: "slist_is l ps" and x: "x \<in> set ps"
  shows "\<exists>l'. SLIST_REMOVE l x = ret l' \<and> slist_is l' (remove1 x ps) \<and>
    (\<forall>y. map_option payload (elems l' y) = map_option payload (elems l y))"
proof -
  have lk: "linked (elems l) (slh_first l) ps" using l by (simp add: slist_is_def)
  note dis = linked_distinct [OF lk]
  obtain as bs where ps: "ps = as @ x # bs" using x by (meson split_list)
  show ?thesis
  proof (cases as)
    case Nil
    then have "slh_first l = x" using lk ps by auto
    then show ?thesis using SLIST_REMOVE_HEAD_is [of l x bs] l ps Nil by (auto simp: SLIST_REMOVE_def)
  next
    case (Cons c as')
    have ne: "slh_first l = c" "c \<noteq> x" using lk ps Cons dis by auto
    have s: "search_loop (SLIST_NEXT l) x c = ret (last (c # as'))"
      using lk ps Cons ne(1) by (intro remove_search_finds [of l c as' x bs]) auto
    have ps': "ps = butlast (c # as') @ last (c # as') # x # bs"
      using ps Cons append_butlast_last_id [of "c # as'"]
      by (metis append.assoc append_Cons append_Nil list.discI)
    obtain l' where l': "SLIST_REMOVE_AFTER l (last (c # as')) = Some l'"
        "slist_is l' (butlast (c # as') @ last (c # as') # bs)"
        "\<forall>y. map_option payload (elems l' y) = map_option payload (elems l y)"
      using SLIST_REMOVE_AFTER_is [of l "butlast (c # as')" "last (c # as')" x bs] l ps' by auto
    have "remove1 x ps = butlast (c # as') @ last (c # as') # bs"
      using ps' dis by (simp add: remove1_append del: butlast.simps last.simps) 
    then show ?thesis using l' s ne by (simp add: SLIST_REMOVE_def)
  qed
qed

text \<open>A body that frees the element it visits and notes its address.\<close>

definition free_elem :: "ptr \<Rightarrow> 'e slist \<Rightarrow> ptr list \<Rightarrow> ('e slist \<times> ptr list) prog" where
  "free_elem p l freed = ret (l\<lparr>elems := (elems l)(p := None)\<rparr>, freed @ [p])"

lemma fold_free: "fold (\<lambda>p l. l\<lparr>elems := (elems l)(p := None)\<rparr>) ps l =
    (l :: 'e slist)\<lparr>elems := (\<lambda>q. if q \<in> set ps then None else elems l q)\<rparr>"
proof (induction ps arbitrary: l)
  case (Cons p ps)
  have "(\<lambda>q. if q \<in> set ps then None else ((elems l)(p := None)) q) = (\<lambda>q. if q \<in> set (p # ps) then None else elems l q)"
    by auto
  then show ?case by (simp add: Cons.IH del: fun_upd_apply cong: if_cong)
qed simp

section \<open>Properties\<close>

definition two_elems :: "nat slist" where
  "two_elems = \<lparr>slh_first = 1, elems = [1 \<mapsto> \<lparr>sle_next = 2, payload = 10\<rparr>, 2 \<mapsto> \<lparr>sle_next = NULL, payload = 20\<rparr>,
     3 \<mapsto> \<lparr>sle_next = NULL, payload = 30\<rparr>]\<rparr>"

lemma two_elems_is: "slist_is two_elems [1, 2]"
  by (simp add: two_elems_def slist_is_def)

text \<open>
  Removing from a singly-linked list: for an element of the list the search of \<open>SLIST_REMOVE\<close> ends
  without touching an invalid pointer, exactly that element is taken out, and no
  element's contents change.
\<close>

theorem slist_remove_correct:
  assumes "slist_is l ps" and "x \<in> set ps"
  shows "\<exists>l'. SLIST_REMOVE l x = ret l' \<and> slist_is l' (remove1 x ps) \<and>
    (\<forall>y. map_option payload (elems l' y) = map_option payload (elems l y))"
  using assms by (rule SLIST_REMOVE_is)

theorem slist_remove_correct_witness: "\<exists>l'. SLIST_REMOVE two_elems 2 = ret l' \<and> slist_is l' [1]"
  using slist_remove_correct [OF two_elems_is, of 2] by auto

text \<open>
  Inserting: a live element that is not yet in the list is put at the head, or after a given
  element; the rest of the list keeps its order.
\<close>

theorem slist_insert_correct:
  assumes "slist_is l (as @ s # bs)" and "x \<noteq> NULL" and "elems l x \<noteq> None" and "x \<notin> set (as @ s # bs)"
  shows "(\<exists>l'. SLIST_INSERT_HEAD l x = Some l' \<and> slist_is l' (x # as @ s # bs)) \<and>
    (\<exists>l'. SLIST_INSERT_AFTER l s x = Some l' \<and> slist_is l' (as @ s # x # bs))"
proof -
  obtain e where e: "elems l x = Some e" using assms(3) by blast
  show ?thesis
    using SLIST_INSERT_HEAD_is [OF assms(1,2) e assms(4)] SLIST_INSERT_AFTER_is [OF assms(1,2) e assms(4)] by blast
qed

theorem slist_insert_correct_witness:
  "(\<exists>l'. SLIST_INSERT_HEAD two_elems 3 = Some l' \<and> slist_is l' [3, 1, 2]) \<and>
   (\<exists>l'. SLIST_INSERT_AFTER two_elems 1 3 = Some l' \<and> slist_is l' [1, 3, 2])"
  using slist_insert_correct [of two_elems "[]" 1 "[2]" 3] two_elems_is by (simp add: two_elems_def)

text \<open>
  Traversing: \<open>SLIST_FOREACH\<close> visits the elements in order; \<open>SLIST_FOREACH_SAFE\<close> may free each
  element it visits, and frees them all; doing so in \<open>SLIST_FOREACH\<close> uses a freed element.
\<close>

theorem slist_foreach_correct:
  assumes "slist_is l ps"
  shows "SLIST_FOREACH (\<lambda>p l s. ret (l, s @ [p])) l [] = ret (l, ps) \<and>
    SLIST_FOREACH_SAFE free_elem l [] = ret (l\<lparr>elems := (\<lambda>q. if q \<in> set ps then None else elems l q)\<rparr>, ps) \<and>
    (ps \<noteq> [] \<longrightarrow> SLIST_FOREACH free_elem l [] = Some Undefined)"
proof (intro conjI impI)
  have lk: "linked (elems l) (slh_first l) ps" using assms by (simp add: slist_is_def)
  show "SLIST_FOREACH (\<lambda>p l s. ret (l, s @ [p])) l [] = ret (l, ps)"
    using for_loop_visits [where nxt = SLIST_NEXT and m = l, OF linked_walk [OF lk], of "\<lambda>p l s. ret (l, s @ [p])" "\<lambda>p s. s @ [p]"]
    by (simp add: SLIST_FOREACH_def fold_collect)
  have "for_safe_loop SLIST_NEXT NULL free_elem (slh_first l) l [] =
      ret (fold (\<lambda>p l. l\<lparr>elems := (elems l)(p := None)\<rparr>) ps l, fold (\<lambda>p s. s @ [p]) ps [])"
    by (rule for_safe_loop_visits [where nxt = SLIST_NEXT and m = l, OF linked_walk [OF lk] linked_distinct [OF lk]])
      (simp_all add: free_elem_def SLIST_NEXT_def elem_at_def)
  then show "SLIST_FOREACH_SAFE free_elem l [] = ret (l\<lparr>elems := (\<lambda>q. if q \<in> set ps then None else elems l q)\<rparr>, ps)"
    by (simp add: SLIST_FOREACH_SAFE_def SLIST_FIRST_def fold_collect fold_free)
  assume "ps \<noteq> []"
  with lk have "slh_first l \<noteq> NULL" by (cases ps) auto
  then show "SLIST_FOREACH free_elem l [] = Some Undefined"
    unfolding SLIST_FOREACH_def
    by (subst for_loop.simps) (simp add: free_elem_def ret_def SLIST_NEXT_def elem_at_def)
qed

theorem slist_foreach_correct_witness:
  "SLIST_FOREACH (\<lambda>p l s. ret (l, s @ [p])) two_elems [] = ret (two_elems, [1, 2]) \<and>
   SLIST_FOREACH free_elem two_elems [] = Some Undefined"
  using slist_foreach_correct [OF two_elems_is] by simp

section \<open>The contract\<close>

text \<open>There is one list in this memory; the head's address plays no part.\<close>

definition slist_alive :: "'e slist \<Rightarrow> ptr \<Rightarrow> bool" where
  "slist_alive l x \<longleftrightarrow> elem_at l x \<noteq> None"

fun slist_run :: "'e slist \<Rightarrow> ptr \<Rightarrow> qop \<Rightarrow> 'e slist prog" where
  "slist_run l h (Insert_Head x) = of_option (SLIST_INSERT_HEAD l x)"
| "slist_run l h (Insert_After y x) = of_option (SLIST_INSERT_AFTER l y x)"
| "slist_run l h (Remove y) = SLIST_REMOVE l y"
| "slist_run l h Remove_Head = of_option (SLIST_REMOVE_HEAD l)"
| "slist_run l h (Remove_After y) = of_option (SLIST_REMOVE_AFTER l y)"
| "slist_run l h _ = Some Undefined"

fun slist_supports :: "qop \<Rightarrow> bool" where
  "slist_supports (Insert_Tail x) \<longleftrightarrow> False"
| "slist_supports (Insert_Before y x) \<longleftrightarrow> False"
| "slist_supports (Remove_Head_Until y) \<longleftrightarrow> False"
| "slist_supports (Replace y x) \<longleftrightarrow> False"
| "slist_supports _ \<longleftrightarrow> True"

lemma set_next_alive: "set_next l p q = Some l' \<Longrightarrow> slist_alive l' = slist_alive l"
  by (auto simp: set_next_def slist_alive_def elem_at_def fun_eq_iff split: option.splits if_splits)

lemma slist_alive_first [simp]: "slist_alive (l\<lparr>slh_first := p\<rparr>) = slist_alive l"
  by (simp add: slist_alive_def elem_at_def fun_eq_iff)

lemma SLIST_REMOVE_HEAD_alive: "SLIST_REMOVE_HEAD l = Some l' \<Longrightarrow> slist_alive l' = slist_alive l"
  by (auto simp: SLIST_REMOVE_HEAD_def split: bind_splits)

lemma SLIST_REMOVE_AFTER_alive: "SLIST_REMOVE_AFTER l y = Some l' \<Longrightarrow> slist_alive l' = slist_alive l"
  by (auto simp: SLIST_REMOVE_AFTER_def set_next_alive split: bind_splits)

lemma of_option_ret: "of_option r = ret x \<longleftrightarrow> r = Some x"
  by (cases r) (auto simp: ret_def)

lemma undef_not_ret: "Some Undefined \<noteq> ret x"
  by (simp add: ret_def)

lemma slist_run_alive: "slist_run l h op = ret l' \<Longrightarrow> slist_alive l' = slist_alive l"
  by (cases op)
    (auto simp: SLIST_INSERT_HEAD_def SLIST_INSERT_AFTER_def SLIST_REMOVE_def of_option_ret undef_not_ret set_next_alive
      SLIST_REMOVE_HEAD_alive SLIST_REMOVE_AFTER_alive seq_eq_ret split: bind_splits if_splits)

lemma slist_run_is:
  assumes l: "slist_is l ps" and s: "slist_supports op" and n: "list_all (slist_alive l) (new_elem op)"
    and f: "set (new_elem op) \<inter> set ps = {}" and ps': "spec_op op ps = Some ps'"
  shows "\<exists>l'. slist_run l h op = ret l' \<and> slist_is l' ps'"
proof -
  have split: "slist_is l (before y ps @ y # beyond y ps)" "set (before y ps @ y # beyond y ps) = set ps"
    if "y \<in> set ps" for y
    using l split_before [OF that] by simp_all
  have nn: "x \<noteq> NULL" "\<exists>e. elems l x = Some e" if "slist_alive l x" for x
    using that by (auto simp: slist_alive_def elem_at_def split: if_splits)
  show ?thesis
  proof (cases op)
    case (Insert_Head x)
    then obtain e where "elems l x = Some e" "x \<noteq> NULL" using nn [of x] n by auto
    then show ?thesis using SLIST_INSERT_HEAD_is [OF l, of x e] f ps' Insert_Head by auto
  next
    case (Insert_After y x)
    then obtain e where "elems l x = Some e" "x \<noteq> NULL" and y: "y \<in> set ps" using nn [of x] n ps' by (auto split: if_splits)
    then show ?thesis
      using of_option_ex [OF SLIST_INSERT_AFTER_is [OF split(1) [OF y], of x e, unfolded split(2) [OF y]]] f ps' Insert_After by simp
  next
    case (Remove y)
    then have y: "y \<in> set ps" using ps' by (simp split: if_splits)
    then show ?thesis using SLIST_REMOVE_is [OF l y] before_remove1 [OF y] ps' Remove by auto
  next
    case Remove_Head
    then obtain x qs where "ps = x # qs" using ps' by (cases ps) simp_all
    then show ?thesis using of_option_ex [OF SLIST_REMOVE_HEAD_is [of l x qs]] l ps' Remove_Head by auto
  next
    case (Remove_After y)
    then obtain z zs where y: "y \<in> set ps" "beyond y ps = z # zs" using ps' by (cases "beyond y ps") (simp_all split: if_splits)
    then show ?thesis
      using of_option_ex [OF SLIST_REMOVE_AFTER_is [of l "before y ps" y z zs]] split(1) [of y] ps' Remove_After by auto
  qed (use s in simp_all)
qed

interpretation slist_lists: list_macros "\<lambda>l h. slist_is l" slist_alive slist_run slist_supports
proof unfold_locales
  show "\<exists>l'. slist_run l h op = ret l' \<and> slist_is l' ps' \<and> slist_alive l' = slist_alive l"
    if "slist_is l ps" "slist_supports op" "list_all (slist_alive l) (new_elem op)"
      "set (new_elem op) \<inter> set ps = {}" "spec_op op ps = Some ps'" for l :: "'e slist" and h ps op ps'
    using slist_run_is [OF that] slist_run_alive by blast
qed

end
