(* ===== verification/Server_Main.thy ===== *)
theory Server_Main
  imports Slist Aesdsocket
begin

text \<open>
  The main program of the server, \<open>src/server/aesdsocket.c\<close>: one round of its accept loop, with
  the list of thread records it keeps, and its start-up, signal handler and \<open>daemonize\<close> as
  sequences of system calls with their early exits.
\<close>

section \<open>The thread records\<close>

record slist_data_s =
  threadID :: nat
  socket_fd :: int
  status :: bool
  new_fd :: int
  socket_address :: ptr

text \<open>
  The state of the accept loop: the list with the store its elements live in, and the
  threads joined so far.
\<close>

record main_state =
  head :: "slist_data_s slist"
  joined :: "nat list"

text \<open>
  The loop over the list: a thread whose flag is set is joined, its record is taken off the
  list and freed. The successor is read before that. \<open>reap_body\<close> is the body of the loop, with the
  next value of \<open>node\<close> as its first result.
\<close>

definition reap_body :: "ptr \<Rightarrow> main_state \<Rightarrow> (ptr \<times> main_state) prog" where
  "reap_body node st =
     (case elem_at (head st) node of
        None \<Rightarrow> Some Undefined
      | Some e \<Rightarrow>
          (let temp = sle_next e in
           if status (payload e) then
             seq (SLIST_REMOVE (head st) node) (\<lambda>l.
               ret (temp, \<lparr>head = l\<lparr>elems := (elems l)(node := None)\<rparr>,
                 joined = joined st @ [threadID (payload e)]\<rparr>))
           else ret (temp, st)))"

partial_function (option) reap_loop :: "ptr \<Rightarrow> main_state \<Rightarrow> main_state prog" where
  "reap_loop node st =
     (if node = NULL then Some (Returned st)
      else
        (case reap_body node st of
           None \<Rightarrow> None
         | Some Undefined \<Rightarrow> Some Undefined
         | Some Blocked \<Rightarrow> Some Blocked
         | Some (Returned (temp, st')) \<Rightarrow> reap_loop temp st'))"

text \<open>
  The record of a new thread, at the address \<open>malloc\<close> gave, filled in before and by \<open>pthread_create\<close>.
  Every record holds the address of the same variable \<open>their_addr\<close> of \<open>main\<close>.
\<close>

definition new_record :: "ptr \<Rightarrow> int \<Rightarrow> nat \<Rightarrow> slist_data_s elem" where
  "new_record their_addr fd tid =
     \<lparr>sle_next = NULL, payload = \<lparr>threadID = tid, socket_fd = 0, status = False, new_fd = fd, socket_address = their_addr\<rparr>\<rparr>"

text \<open>
  One round of the accept loop. The environment supplies the results of \<open>accept\<close>, of
  \<open>malloc\<close> (a new address, or \<open>NULL\<close>, which the code does not test) and of
  \<open>pthread_create\<close> (0 and the identifier of the new thread, or an error).
\<close>

definition accept_round :: "ptr \<Rightarrow> int \<Rightarrow> ptr \<Rightarrow> int \<Rightarrow> nat \<Rightarrow> main_state \<Rightarrow> main_state prog" where
  "accept_round their_addr fd thread_struct rc tid st =
     (if fd = -1 then ret st
      else if thread_struct = NULL then Some Undefined
      else if rc \<noteq> 0 then ret st
      else
        (let l = (head st)\<lparr>elems := (elems (head st))(thread_struct \<mapsto> new_record their_addr fd tid)\<rparr>
         in seq (of_option (SLIST_INSERT_HEAD l thread_struct)) (\<lambda>l.
              reap_loop (SLIST_FIRST l) (st\<lparr>head := l\<rparr>))))"

section \<open>Start-up and shutdown\<close>

text \<open>The calls that matter for the resources of the process, in the order they are made.\<close>

datatype sys_event =
  Openlog | Catch_signals | Free_addrinfo | Close int | Ignore_sighup | Set_umask | Chdir_root | Listening
  | Remove string | Destroy_mutex | Closelog | Exit int

text \<open>What the system answers to the calls of the start-up.\<close>

record net =
  getaddrinfo_rc :: int
  socket_rc :: int
  setsockopt_rc :: int
  bind_rc :: int
  fork1_rc :: int
  setsid_rc :: int
  fork2_rc :: int
  listen_rc :: int

text \<open>\<open>daemonize\<close>: the calls made, and whether this process goes on.\<close>

definition daemonize :: "net \<Rightarrow> sys_event list \<times> bool" where
  "daemonize N =
     (if fork1_rc N < 0 then ([Exit 1], False)
      else if fork1_rc N > 0 then ([Exit 0], False)
      else if setsid_rc N < 0 then ([Exit 1], False)
      else if fork2_rc N < 0 then ([Ignore_sighup, Exit 1], False)
      else if fork2_rc N > 0 then ([Ignore_sighup, Exit 0], False)
      else ([Ignore_sighup, Set_umask, Chdir_root, Close 0, Close 1, Close 2], True))"

text \<open>\<open>main\<close> up to the accept loop: the socket it listens on, or \<open>None\<close> when the process exits.\<close>

definition main_startup :: "net \<Rightarrow> string list \<Rightarrow> sys_event list \<times> int option" where
  "main_startup N argv =
     (let daemonize_flag = (length argv = 2 \<and> argv ! 1 = ''-d'');
          tr = [Openlog, Catch_signals];
          sockfd = socket_rc N
      in if getaddrinfo_rc N \<noteq> 0 then (tr @ [Exit 1], None)
         else if sockfd = -1 then (tr @ [Free_addrinfo, Exit 1], None)
         else if setsockopt_rc N = -1 then (tr @ [Free_addrinfo, Close sockfd, Exit 1], None)
         else if bind_rc N = -1 then (tr @ [Free_addrinfo, Close sockfd, Exit 1], None)
         else
           (case (if daemonize_flag then daemonize N else ([], True)) of
              (tr', goes_on) \<Rightarrow>
                let tr = tr @ [Free_addrinfo] @ tr'
                in if \<not> goes_on then (tr, None)
                   else if listen_rc N = -1 then (tr @ [Close sockfd, Exit 1], None)
                   else (tr @ [Listening], Some sockfd)))"

text \<open>\<open>handle_signal\<close>, for the value of \<open>sockfd\<close> at that moment; it does not return.\<close>

definition handle_signal :: "bool \<Rightarrow> int \<Rightarrow> sys_event list" where
  "handle_signal use_dev sockfd =
     [Remove (FILE_PATH use_dev)] @ (if sockfd \<noteq> -1 then [Close sockfd] else []) @ [Destroy_mutex, Closelog, Exit 0]"

text \<open>
  The end of \<open>main\<close>, after the accept loop, and the calls of a whole run: the process ends
  during start-up, in the signal handler, or after its loop.
\<close>

definition main_exit :: "bool \<Rightarrow> int \<Rightarrow> sys_event list" where
  "main_exit use_dev sockfd = [Close sockfd, Remove (FILE_PATH use_dev), Closelog, Exit 0]"

definition main_run :: "net \<Rightarrow> string list \<Rightarrow> bool \<Rightarrow> bool \<Rightarrow> sys_event list" where
  "main_run N argv use_dev signalled =
     (case main_startup N argv of
        (tr, None) \<Rightarrow> tr
      | (tr, Some fd) \<Rightarrow> tr @ (if signalled then handle_signal use_dev fd else main_exit use_dev fd))"

section \<open>Facts\<close>

definition finished :: "main_state \<Rightarrow> ptr \<Rightarrow> bool" where
  "finished st p \<longleftrightarrow> (\<exists>e. elems (head st) p = Some e \<and> status (payload e))"

definition tid_of :: "main_state \<Rightarrow> ptr \<Rightarrow> nat" where
  "tid_of st p = (case elems (head st) p of Some e \<Rightarrow> threadID (payload e) | None \<Rightarrow> 0)"

abbreviation first_of :: "ptr list \<Rightarrow> ptr" where
  "first_of ps \<equiv> (case ps of [] \<Rightarrow> NULL | p # _ \<Rightarrow> p)"

lemma linked_first: "linked h p ps \<Longrightarrow> p = first_of ps"
  by (cases ps) auto

lemma payload_same:
  assumes "\<forall>y. map_option payload (elems l' y) = map_option payload (elems l y)" and "elems l y = Some e"
  obtains e' where "elems l' y = Some e'" "payload e' = payload e"
  using assms(1) [rule_format, of y] assms(2) by auto

lemma reap_loop_correct:
  assumes "slist_is (head st) (as @ bs)"
  shows "\<exists>st'. reap_loop (first_of bs) st = ret st' \<and>
    slist_is (head st') (as @ filter (\<lambda>p. \<not> finished st p) bs) \<and>
    joined st' = joined st @ map (tid_of st) (filter (finished st) bs) \<and>
    (\<forall>p. map_option payload (elems (head st') p) =
       (if p \<in> set bs \<and> finished st p then None else map_option payload (elems (head st) p)))"
  using assms
proof (induction bs arbitrary: as st)
  case Nil
  then show ?case by (subst reap_loop.simps) simp
next
  case (Cons b bs)
  let ?l = "head st"
  have lk: "linked (elems ?l) (slh_first ?l) (as @ b # bs)" using Cons.prems by (simp add: slist_is_def)
  note dis = linked_distinct [OF lk]
  obtain e where e: "elems ?l b = Some e" "b \<noteq> NULL" "linked (elems ?l) (sle_next e) bs"
    using linked_append [OF lk] by auto
  have nx: "sle_next e = first_of bs" using linked_first [OF e(3)] .
  show ?case
  proof (cases "status (payload e)")
    case False
    have nf: "\<not> finished st b" using False e(1) by (simp add: finished_def)
    have eq: "reap_loop b st = reap_loop (first_of bs) st"
      using e False nx by (subst reap_loop.simps) (simp add: reap_body_def elem_at_def ret_def)
    have "slist_is ?l ((as @ [b]) @ bs)" using Cons.prems by simp
    from Cons.IH [OF this] obtain st' where st': "reap_loop (first_of bs) st = ret st'"
        "slist_is (head st') ((as @ [b]) @ filter (\<lambda>p. \<not> finished st p) bs)"
        "joined st' = joined st @ map (tid_of st) (filter (finished st) bs)"
        "\<forall>p. map_option payload (elems (head st') p) =
           (if p \<in> set bs \<and> finished st p then None else map_option payload (elems ?l p))" by blast
    have "p \<in> set (b # bs) \<and> finished st p \<longleftrightarrow> p \<in> set bs \<and> finished st p" for p using nf by auto
    then show ?thesis using st' nf eq by (intro exI [of _ st']) simp
  next
    case True
    obtain l where l: "SLIST_REMOVE ?l b = ret l" "slist_is l (remove1 b (as @ b # bs))"
        "\<forall>y. map_option payload (elems l y) = map_option payload (elems ?l y)"
      using SLIST_REMOVE_is [OF Cons.prems, of b] by auto
    let ?st = "\<lparr>head = l\<lparr>elems := (elems l)(b := None)\<rparr>, joined = joined st @ [threadID (payload e)]\<rparr>"
    have rem: "remove1 b (as @ b # bs) = as @ bs" using dis by (simp add: remove1_append)
    have fin: "finished st b" "tid_of st b = threadID (payload e)"
      using True e(1) by (auto simp: finished_def tid_of_def)
    have same: "finished ?st p = finished st p" "tid_of ?st p = tid_of st p" if "p \<noteq> b" for p
      using l(3) [rule_format, of p] that
      by (cases "elems l p"; cases "elems ?l p"; simp add: finished_def tid_of_def)+
    have "p \<noteq> b" if "p \<in> set bs" for p using that dis by auto
    note in_bs = same [OF this]
    have fl: "filter (finished ?st) bs = filter (finished st) bs"
        "filter (\<lambda>p. \<not> finished ?st p) bs = filter (\<lambda>p. \<not> finished st p) bs"
        "map (tid_of ?st) (filter (finished st) bs) = map (tid_of st) (filter (finished st) bs)"
      by (intro filter_cong map_cong refl; simp add: in_bs)+
    have "slist_is (head ?st) (as @ bs)" using l(2) rem dis by (simp add: slist_is_def)
    from Cons.IH [OF this] obtain st' where st': "reap_loop (first_of bs) ?st = ret st'"
        "slist_is (head st') (as @ filter (\<lambda>p. \<not> finished st p) bs)"
        "joined st' = joined ?st @ map (tid_of st) (filter (finished st) bs)"
        "\<forall>p. map_option payload (elems (head st') p) =
           (if p \<in> set bs \<and> finished ?st p then None else map_option payload (elems (head ?st) p))"
      unfolding fl by blast
    have "reap_loop b st = ret st'"
      using e True nx l(1) st'(1) by (subst reap_loop.simps) (simp add: reap_body_def elem_at_def ret_def)
    moreover have "map_option payload (elems (head st') p) =
        (if p \<in> set (b # bs) \<and> finished st p then None else map_option payload (elems ?l p))" for p
      using st'(4) [rule_format, of p] fin(1) l(3) [rule_format, of p] same(1) [of p] dis
      by (cases "p = b") auto
    ultimately show ?thesis using st'(2,3) fin by (intro exI [of _ st']) simp
  qed
qed

section \<open>Properties\<close>

text \<open>
  (C20) The accept loop: a round that accepts a connection and starts its thread adds one
  record for it at the head of the list, joins exactly the threads that have finished, in list order,
  each once, takes exactly their records off the list and frees them, and keeps the
  others as they were. The round ends.
\<close>

theorem accept_round_correct:
  assumes l: "slist_is (head st) ps" and fresh: "elems (head st) p = None" "p \<noteq> NULL" and fd: "fd \<noteq> -1"
  shows "\<exists>st'. accept_round ta fd p 0 tid st = ret st' \<and>
    slist_is (head st') (p # filter (\<lambda>q. \<not> finished st q) ps) \<and>
    joined st' = joined st @ map (tid_of st) (filter (finished st) ps) \<and>
    (\<forall>q \<in> set ps. map_option payload (elems (head st') q) =
       (if finished st q then None else map_option payload (elems (head st) q)))"
proof -
  let ?e = "new_record ta fd tid"
  let ?l = "(head st)\<lparr>elems := (elems (head st))(p \<mapsto> ?e)\<rparr>"
  have notin: "p \<notin> set ps" using l fresh linked_ptrs by (fastforce simp: slist_is_def)
  have "slist_is ?l ps" using l notin by (simp add: slist_is_def)
  then obtain l' where l': "SLIST_INSERT_HEAD ?l p = Some l'" "slist_is l' (p # ps)"
      "\<forall>y. map_option payload (elems l' y) = map_option payload (elems ?l y)"
    using SLIST_INSERT_HEAD_is [of ?l ps p ?e] fresh(2) notin by auto
  let ?st = "st\<lparr>head := l'\<rparr>"
  have new: "\<not> finished ?st p"
    using l'(3) [rule_format, of p] by (auto simp: finished_def new_record_def)
  have same: "finished ?st q = finished st q \<and> tid_of ?st q = tid_of st q \<and>
      map_option payload (elems l' q) = map_option payload (elems (head st) q)" if "q \<in> set ps" for q
  proof -
    have "q \<noteq> p" using that notin by auto
    then show ?thesis using l'(3) [rule_format, of q]
      by (cases "elems l' q"; cases "elems (head st) q") (simp_all add: finished_def tid_of_def)
  qed
  then have fl: "filter (finished ?st) ps = filter (finished st) ps"
      "filter (\<lambda>q. \<not> finished ?st q) ps = filter (\<lambda>q. \<not> finished st q) ps"
      "map (tid_of ?st) (filter (finished st) ps) = map (tid_of st) (filter (finished st) ps)"
    by (simp_all cong: filter_cong)
  have "SLIST_FIRST l' = first_of (p # ps)"
    using l'(2) by (simp add: slist_is_def SLIST_FIRST_def)
  then have run: "accept_round ta fd p 0 tid st = reap_loop (first_of (p # ps)) ?st"
    using fd fresh l'(1) by (simp add: accept_round_def)
  have "slist_is (head ?st) ([] @ p # ps)" using l'(2) by simp
  from reap_loop_correct [OF this] new fl
  obtain st' where "reap_loop (first_of (p # ps)) ?st = ret st'"
      "slist_is (head st') (p # filter (\<lambda>q. \<not> finished st q) ps)"
      "joined st' = joined st @ map (tid_of st) (filter (finished st) ps)"
      "\<forall>q. map_option payload (elems (head st') q) =
        (if q \<in> set (p # ps) \<and> finished ?st q then None else map_option payload (elems l' q))"
    by auto
  with run same show ?thesis by (intro exI [of _ st']) simp
qed

text \<open>A list of two threads, of which the second has finished.\<close>

definition demo_main :: main_state where
  "demo_main = \<lparr>head = \<lparr>slh_first = 1, elems =
       [1 \<mapsto> \<lparr>sle_next = 2, payload = \<lparr>threadID = 11, socket_fd = 0, status = False, new_fd = 4, socket_address = 99\<rparr>\<rparr>,
        2 \<mapsto> \<lparr>sle_next = NULL, payload = \<lparr>threadID = 12, socket_fd = 0, status = True, new_fd = 5, socket_address = 99\<rparr>\<rparr>]\<rparr>,
     joined = []\<rparr>"

lemma demo_main_facts: "slist_is (head demo_main) [1, 2]" "elems (head demo_main) 3 = None"
  "\<not> finished demo_main 1" "finished demo_main 2" "tid_of demo_main 2 = 12" "joined demo_main = []"
  by (auto simp: demo_main_def slist_is_def finished_def tid_of_def)

theorem accept_round_correct_witness:
  "\<exists>st'. accept_round 99 6 3 0 13 demo_main = ret st' \<and> slist_is (head st') [3, 1] \<and> joined st' = [12]"
  using accept_round_correct [OF demo_main_facts(1,2), of 6 99 13] demo_main_facts(3-) by auto

text \<open>
  The resources of the main process: however it ends, in an error of the start-up, on a signal or after its loop, it
  has freed the address list once and closed its listening socket exactly once, and its last act is
  to exit, with 0 exactly when it had come to serve; only then has it removed the data file. (In
  daemon mode, for the process that \<open>daemonize\<close> lets go on.)
\<close>

theorem main_run_closes:
  assumes "getaddrinfo_rc N = 0" and "2 < socket_rc N"
    and "length argv = 2 \<and> argv ! 1 = ''-d'' \<Longrightarrow> fork1_rc N = 0 \<and> 0 \<le> setsid_rc N \<and> fork2_rc N = 0"
  shows "length (filter ((=) (Close (socket_rc N))) (main_run N argv use_dev sig)) = 1 \<and>
    length (filter ((=) Free_addrinfo) (main_run N argv use_dev sig)) = 1 \<and>
    last (main_run N argv use_dev sig) = Exit (if snd (main_startup N argv) = None then 1 else 0) \<and>
    (Remove (FILE_PATH use_dev) \<in> set (main_run N argv use_dev sig) \<longleftrightarrow> snd (main_startup N argv) \<noteq> None)"
  using assms
  by (auto simp: main_run_def main_startup_def daemonize_def handle_signal_def main_exit_def Let_def)

theorem main_run_closes_witness:
  "length (filter ((=) (Close 3)) (main_run \<lparr>getaddrinfo_rc = 0, socket_rc = 3, setsockopt_rc = 0, bind_rc = 0, fork1_rc = 0,
     setsid_rc = 0, fork2_rc = 0, listen_rc = 0\<rparr> [''aesdsocket'', ''-d''] True True)) = 1"
  using main_run_closes [of "\<lparr>getaddrinfo_rc = 0, socket_rc = 3, setsockopt_rc = 0, bind_rc = 0, fork1_rc = 0,
     setsid_rc = 0, fork2_rc = 0, listen_rc = 0\<rparr>" "[''aesdsocket'', ''-d'']" True True] by simp

text \<open>
  Start-up: a process that exits during start-up on an error of a call after the socket was
  created, other than in \<open>daemonize\<close>, has closed the socket; the address list is freed exactly once
  if and only if it was obtained; and a process that goes on listens on the socket it created.
\<close>

theorem main_startup_correct:
  assumes "main_startup N argv = (tr, r)"
  shows "length (filter ((=) Free_addrinfo) tr) = (if getaddrinfo_rc N = 0 then 1 else 0) \<and>
    (case r of
       Some fd \<Rightarrow> fd = socket_rc N \<and> fd \<noteq> -1 \<and> Listening \<in> set tr \<and>
         (length argv = 2 \<and> argv ! 1 = ''-d'' \<longrightarrow> fork1_rc N = 0 \<and> fork2_rc N = 0)
     | None \<Rightarrow> (\<exists>c. last tr = Exit c \<and>
         (getaddrinfo_rc N = 0 \<and> socket_rc N \<noteq> -1 \<and> \<not> (length argv = 2 \<and> argv ! 1 = ''-d'') \<longrightarrow>
            c = 1 \<and> Close (socket_rc N) \<in> set tr)))"
  using assms by (auto simp: main_startup_def daemonize_def Let_def split: if_splits)

text \<open>
  Shutdown removes the device: in its standard configuration the signal handler's first
  call removes \<open>/dev/aesdchar\<close>, the device node, though the comment on the line speaks
  of a regular file; then the socket is closed, once, and the process exits with 0.
\<close>

theorem handle_signal_removes_device:
  "hd (handle_signal True fd) = Remove ''/dev/aesdchar'' \<and> last (handle_signal True fd) = Exit 0 \<and>
   length (filter ((=) (Close fd)) (handle_signal True fd)) = (if fd = -1 then 0 else 1)"
  by (simp add: handle_signal_def FILE_PATH_def)

end
