(* ===== verification/Server_Loop.thy ===== *)
theory Server_Loop
  imports Server_Main
begin

text \<open>
  The accept loop of \<open>main\<close> in \<open>src/server/aesdsocket.c\<close> running at the same time as the threads it starts. The
  main thread is at \<open>accept\<close>, between \<open>pthread_create\<close> and \<open>SLIST_INSERT_HEAD\<close>, or inside the loop over
  the list; between any two of its steps a thread may end. A thread that ends sets the flag in its
  record, except on the exits of \<open>threadfunc\<close> after a failed \<open>malloc\<close> or \<open>open\<close>, which do not. The
  threads touch nothing else of the list.
\<close>

section \<open>Steps\<close>

datatype main_pc = Accepting | Inserting ptr | Reaping ptr

text \<open>
  \<open>running\<close> holds the records of the threads that have not ended, \<open>silent\<close> those of the threads that ended
  without setting their flag; \<open>created\<close> counts the threads started.
\<close>

record server =
  pc :: main_pc
  mst :: main_state
  running :: "ptr set"
  silent :: "ptr set"
  created :: nat

definition start_server :: server where
  "start_server = \<lparr>pc = Accepting, mst = \<lparr>head = \<lparr>slh_first = NULL, elems = (\<lambda>_. None)\<rparr>, joined = []\<rparr>, running = {}, silent = {}, created = 0\<rparr>"

abbreviation store_of :: "server \<Rightarrow> ptr \<Rightarrow> slist_data_s elem option" where
  "store_of s \<equiv> elems (head (mst s))"

definition set_store :: "server \<Rightarrow> ptr \<Rightarrow> slist_data_s elem \<Rightarrow> server" where
  "set_store s p e = s\<lparr>mst := (mst s)\<lparr>head := (head (mst s))\<lparr>elems := (store_of s)(p \<mapsto> e)\<rparr>\<rparr>\<rparr>"

inductive server_step :: "ptr \<Rightarrow> server \<Rightarrow> server \<Rightarrow> bool" for their_addr where
  no_thread: "pc s = Accepting \<Longrightarrow> server_step their_addr s s"
| start: "pc s = Accepting \<Longrightarrow> fd \<noteq> -1 \<Longrightarrow> p \<noteq> NULL \<Longrightarrow> store_of s p = None \<Longrightarrow>
    server_step their_addr s
      ((set_store s p (new_record their_addr fd tid))\<lparr>pc := Inserting p, running := insert p (running s), created := Suc (created s)\<rparr>)"
| insert: "pc s = Inserting p \<Longrightarrow> SLIST_INSERT_HEAD (head (mst s)) p = Some l \<Longrightarrow>
    server_step their_addr s (s\<lparr>pc := Reaping (SLIST_FIRST l), mst := (mst s)\<lparr>head := l\<rparr>\<rparr>)"
| reap: "pc s = Reaping node \<Longrightarrow> node \<noteq> NULL \<Longrightarrow> reap_body node (mst s) = ret (temp, st) \<Longrightarrow>
    server_step their_addr s (s\<lparr>pc := Reaping temp, mst := st\<rparr>)"
| reap_end: "pc s = Reaping NULL \<Longrightarrow> server_step their_addr s (s\<lparr>pc := Accepting\<rparr>)"
| thread_ends: "p \<in> running s \<Longrightarrow> store_of s p = Some e \<Longrightarrow>
    server_step their_addr s
      ((set_store s p (e\<lparr>payload := (payload e)\<lparr>status := True\<rparr>\<rparr>))\<lparr>running := running s - {p}\<rparr>)"
| thread_ends_silently: "p \<in> running s \<Longrightarrow>
    server_step their_addr s (s\<lparr>running := running s - {p}, silent := insert p (silent s)\<rparr>)"

text \<open>
  \<open>no_thread\<close> is a round in which \<open>accept\<close> or \<open>pthread_create\<close> fails. A step that the relation does not
  offer because an access would be invalid is a fault: of the main thread, or of a thread whose
  record is gone.
\<close>

definition faults :: "server \<Rightarrow> bool" where
  "faults s \<longleftrightarrow>
     (case pc s of
        Accepting \<Rightarrow> False
      | Inserting p \<Rightarrow> SLIST_INSERT_HEAD (head (mst s)) p = None
      | Reaping node \<Rightarrow> node \<noteq> NULL \<and> \<not> (\<exists>r. reap_body node (mst s) = ret r)) \<or>
     (\<exists>p \<in> running s. store_of s p = None)"

section \<open>The invariant\<close>

definition pending :: "server \<Rightarrow> ptr set" where
  "pending s = (case pc s of Inserting p \<Rightarrow> {p} | _ \<Rightarrow> {})"

text \<open>
  The records in memory are those on the list and the one about to be put there; the flag of a
  record tells whether its thread has ended, but for the silent ones, whose records stay; and every
  thread started has a record or was joined.
\<close>

definition server_inv :: "ptr list \<Rightarrow> server \<Rightarrow> bool" where
  "server_inv ps s \<longleftrightarrow>
     slist_is (head (mst s)) ps \<and> dom (store_of s) = set ps \<union> pending s \<and>
     pending s \<inter> set ps = {} \<and> NULL \<notin> pending s \<and>
     (\<forall>node. pc s = Reaping node \<longrightarrow> node = NULL \<or> node \<in> set ps) \<and>
     running s \<subseteq> dom (store_of s) \<and> silent s \<subseteq> dom (store_of s) \<and> running s \<inter> silent s = {} \<and>
     (\<forall>p e. store_of s p = Some e \<longrightarrow> (status (payload e) \<longleftrightarrow> p \<notin> running s \<union> silent s)) \<and>
     created s = length (joined (mst s)) + length ps + card (pending s)"

lemma server_inv_start: "server_inv [] start_server"
  by (simp add: server_inv_def start_server_def pending_def slist_is_def)

lemma set_store_simps [simp]:
  "pc (set_store s p e) = pc s" "running (set_store s p e) = running s" "silent (set_store s p e) = silent s" "created (set_store s p e) = created s"
  "joined (mst (set_store s p e)) = joined (mst s)" "store_of (set_store s p e) = (store_of s)(p \<mapsto> e)"
  "slh_first (head (mst (set_store s p e))) = slh_first (head (mst s))"
  by (simp_all add: set_store_def)

lemma inv_start:
  assumes "server_inv ps s" and "pc s = Accepting" and "p \<noteq> NULL" and "store_of s p = None"
  shows "server_inv ps ((set_store s p (new_record ta fd tid))\<lparr>pc := Inserting p, running := insert p (running s), created := Suc (created s)\<rparr>)"
proof -
  have "p \<notin> set ps" "p \<notin> running s" "p \<notin> silent s" using assms by (auto simp: server_inv_def pending_def)
  then show ?thesis using assms
    by (auto simp: server_inv_def pending_def slist_is_def new_record_def)
qed

lemma SLIST_INSERT_HEAD_dom:
  assumes "SLIST_INSERT_HEAD l p = Some l'"
  shows "map_option payload (elems l' q) = map_option payload (elems l q)"
  using assms by (auto simp: SLIST_INSERT_HEAD_def set_next_def elem_at_def split: option.splits if_splits bind_splits)

lemma payload_dom: "(\<And>q. map_option payload (f q) = map_option payload (g q)) \<Longrightarrow> dom f = dom g"
  by (auto simp: dom_def) (metis map_option_is_None not_None_eq)+

lemma payload_status:
  assumes "\<And>q. map_option payload (f q) = map_option payload (g q)"
    and "\<And>q e. g q = Some e \<Longrightarrow> status (payload e) \<longleftrightarrow> q \<notin> R" and "f q = Some e"
  shows "status (payload e) \<longleftrightarrow> q \<notin> R"
  using assms(1) [of q] assms(2) [of q] assms(3) by (auto simp: map_option_case split: option.splits)

lemma inv_insert:
  assumes i: "server_inv ps s" and p: "pc s = Inserting p"
  shows "\<exists>l. SLIST_INSERT_HEAD (head (mst s)) p = Some l \<and>
    server_inv (p # ps) (s\<lparr>pc := Reaping (SLIST_FIRST l), mst := (mst s)\<lparr>head := l\<rparr>\<rparr>)"
proof -
  have f: "slist_is (head (mst s)) ps" "p \<noteq> NULL" "p \<notin> set ps" "\<exists>e. store_of s p = Some e"
      "dom (store_of s) = insert p (set ps)"
    using i p by (auto simp: server_inv_def pending_def dom_def)
  then obtain l where l: "SLIST_INSERT_HEAD (head (mst s)) p = Some l" "slist_is l (p # ps)"
      and same: "\<And>q. map_option payload (elems l q) = map_option payload (store_of s q)"
    using SLIST_INSERT_HEAD_is by blast
  have "SLIST_FIRST l = p" using l(2) by (simp add: slist_is_def SLIST_FIRST_def)
  moreover have "dom (elems l) = dom (store_of s)" by (rule payload_dom) (rule same)
  moreover have "status (payload e) \<longleftrightarrow> q \<notin> running s \<union> silent s" if "elems l q = Some e" for q e
    by (rule payload_status [of "elems l" "store_of s"]) (use i same that in \<open>simp_all add: server_inv_def\<close>)
  ultimately show ?thesis using i p l f by (auto simp: server_inv_def pending_def)
qed

lemma reap_body_is:
  assumes l: "slist_is (head st) ps" and n: "node \<in> set ps" and e: "elems (head st) node = Some e"
  shows "\<exists>temp st'. reap_body node st = ret (temp, st') \<and> (temp = NULL \<or> temp \<in> set ps - {node}) \<and>
    (if status (payload e) then
       slist_is (head st') (remove1 node ps) \<and> joined st' = joined st @ [threadID (payload e)] \<and> elems (head st') node = None \<and>
       (\<forall>q. q \<noteq> node \<longrightarrow> map_option payload (elems (head st') q) = map_option payload (elems (head st) q))
     else st' = st)"
proof -
  have lk: "linked (elems (head st)) (slh_first (head st)) ps" using l by (simp add: slist_is_def)
  obtain as bs where ps: "ps = as @ node # bs" using n by (meson split_list)
  have bs: "linked (elems (head st)) (sle_next e) bs" "node \<noteq> NULL" using linked_append [of "elems (head st)" _ as node bs] lk ps e by auto
  have t: "sle_next e = NULL \<or> sle_next e \<in> set ps - {node}"
    using bs linked_distinct [OF lk] ps by (cases bs) auto
  show ?thesis
  proof (cases "status (payload e)")
    case False
    then show ?thesis using e bs(2) t by (simp add: reap_body_def elem_at_def)
  next
    case True
    obtain l' where l': "SLIST_REMOVE (head st) node = ret l'" "slist_is l' (remove1 node ps)"
        "\<And>q. map_option payload (elems l' q) = map_option payload (elems (head st) q)"
      using SLIST_REMOVE_is [OF l n] by blast
    have "node \<notin> set (remove1 node ps)" using linked_distinct [OF lk] by simp
    then have "slist_is (l'\<lparr>elems := (elems l')(node := None)\<rparr>) (remove1 node ps)" using l'(2) by (simp add: slist_is_def)
    then show ?thesis using True e bs(2) t l' by (simp add: reap_body_def elem_at_def)
  qed
qed

lemma inv_reap:
  assumes i: "server_inv ps s" and n: "pc s = Reaping node" "node \<noteq> NULL"
  shows "\<exists>temp st ps'. reap_body node (mst s) = ret (temp, st) \<and> server_inv ps' (s\<lparr>pc := Reaping temp, mst := st\<rparr>)"
proof -
  have f: "slist_is (head (mst s)) ps" "node \<in> set ps" "dom (store_of s) = set ps"
    using i n by (auto simp: server_inv_def pending_def)
  obtain e where e: "store_of s node = Some e" using f(2,3) by blast
  have d: "distinct ps" using f(1) linked_distinct by (auto simp: slist_is_def)
  obtain temp st where r: "reap_body node (mst s) = ret (temp, st)" "temp = NULL \<or> temp \<in> set ps - {node}"
      "if status (payload e) then
         slist_is (head st) (remove1 node ps) \<and> joined st = joined (mst s) @ [threadID (payload e)] \<and> elems (head st) node = None \<and>
         (\<forall>q. q \<noteq> node \<longrightarrow> map_option payload (elems (head st) q) = map_option payload (store_of s q))
       else st = mst s"
    using reap_body_is [OF f(1,2) e] by blast
  show ?thesis
  proof (cases "status (payload e)")
    case False
    then have "server_inv ps (s\<lparr>pc := Reaping temp, mst := st\<rparr>)" using r i n by (auto simp: server_inv_def pending_def)
    then show ?thesis using r(1) by blast
  next
    case True
    let ?s = "s\<lparr>pc := Reaping temp, mst := st\<rparr>"
    have st: "slist_is (head st) (remove1 node ps)" "joined st = joined (mst s) @ [threadID (payload e)]" "elems (head st) node = None"
        and same: "\<And>q. map_option payload (elems (head st) q) = map_option payload (((store_of s)(node := None)) q)"
      using r(3) True by auto
    have nr: "node \<notin> running s" "node \<notin> silent s" using i e True by (auto simp: server_inv_def)
    have dm: "dom (elems (head st)) = set ps - {node}" 
      using payload_dom [of "elems (head st)" "(store_of s)(node := None)"] same f(3) by auto
    have stat: "status (payload e') \<longleftrightarrow> q \<notin> running s \<union> silent s" if "elems (head st) q = Some e'" for q e'
      by (rule payload_status [of "elems (head st)" "(store_of s)(node := None)"])
        (use i same that in \<open>auto simp: server_inv_def split: if_splits\<close>)
    have "length ps = Suc (length (remove1 node ps))" using f(2) by (simp add: length_remove1) (metis Suc_pred length_pos_if_in_set)
    then have "server_inv (remove1 node ps) ?s"
      using i n st dm stat nr r(2) d f(2) by (auto simp: server_inv_def pending_def)
    then show ?thesis using r(1) by blast
  qed
qed

lemma inv_thread_ends:
  assumes i: "server_inv ps s" and p: "p \<in> running s" "store_of s p = Some e"
  shows "server_inv ps ((set_store s p (e\<lparr>payload := (payload e)\<lparr>status := True\<rparr>\<rparr>))\<lparr>running := running s - {p}\<rparr>)"
proof -
  let ?e = "e\<lparr>payload := (payload e)\<lparr>status := True\<rparr>\<rparr>"
  have "linked ((store_of s)(p \<mapsto> ?e)) q xs = linked (store_of s) q xs" for q xs
    using p(2) by (induction xs arbitrary: q) auto
  then show ?thesis using i p by (auto simp: server_inv_def pending_def slist_is_def)
qed

lemma server_step_inv: "server_step ta s s' \<Longrightarrow> server_inv ps s \<Longrightarrow> \<exists>ps'. server_inv ps' s'"
proof (induction rule: server_step.induct)
  case (insert s p l)
  then show ?case using inv_insert [of ps s p] by auto
next
  case (reap s node temp st)
  then show ?case using inv_reap [of ps s node] by auto
next
  case (reap_end s)
  then have "server_inv ps (s\<lparr>pc := Accepting\<rparr>)" by (auto simp: server_inv_def pending_def)
  then show ?case by blast
next
  case (thread_ends_silently p s)
  then have "server_inv ps (s\<lparr>running := running s - {p}, silent := insert p (silent s)\<rparr>)"
    by (auto simp: server_inv_def pending_def)
  then show ?case by blast
qed (blast intro: inv_start inv_thread_ends)+

lemma server_inv_no_fault:
  assumes "server_inv ps s"
  shows "\<not> faults s"
proof -
  have "\<exists>e. store_of s p = Some e" if "p \<in> running s" for p using assms that by (auto simp: server_inv_def)
  then show ?thesis
    using inv_insert [OF assms] inv_reap [OF assms] by (cases "pc s") (fastforce simp: faults_def)+
qed

section \<open>A round without interruption\<close>

lemma reap_loop_steps:
  assumes "reap_loop node st = ret st'"
  shows "(server_step ta)\<^sup>*\<^sup>* \<lparr>pc = Reaping node, mst = st, running = R, silent = S, created = k\<rparr>
    \<lparr>pc = Reaping NULL, mst = st', running = R, silent = S, created = k\<rparr>"
proof -
  let ?at = "\<lambda>node st. \<lparr>pc = Reaping node, mst = st, running = R, silent = S, created = k\<rparr>"
  have "\<forall>st'. r = Returned st' \<longrightarrow> (server_step ta)\<^sup>*\<^sup>* (?at node st) (?at NULL st')" if "reap_loop node st = Some r" for r
  proof (rule reap_loop.raw_induct [OF _ that, where P = "\<lambda>node st r. \<forall>st'. r = Returned st' \<longrightarrow> (server_step ta)\<^sup>*\<^sup>* (?at node st) (?at NULL st')"])
    fix loop node st r
    assume ih: "\<And>node st r. loop node st = Some r \<Longrightarrow> \<forall>st'. r = Returned st' \<longrightarrow> (server_step ta)\<^sup>*\<^sup>* (?at node st) (?at NULL st')"
      and run: "(if node = NULL then Some (Returned st)
        else case reap_body node st of None \<Rightarrow> None | Some Undefined \<Rightarrow> Some Undefined | Some Blocked \<Rightarrow> Some Blocked
          | Some (Returned (temp, st')) \<Rightarrow> loop temp st') = Some r"
    show "\<forall>st'. r = Returned st' \<longrightarrow> (server_step ta)\<^sup>*\<^sup>* (?at node st) (?at NULL st')"
    proof (intro allI impI)
      fix st' assume r: "r = Returned st'"
      show "(server_step ta)\<^sup>*\<^sup>* (?at node st) (?at NULL st')"
      proof (cases "node = NULL")
        case True
        then show ?thesis using run r by simp
      next
        case False
        then obtain temp st1 where b: "reap_body node st = Some (Returned (temp, st1))" "loop temp st1 = Some r"
          using run r by (auto split: option.splits outcome.splits)
        have "server_step ta (?at node st) ((?at node st)\<lparr>pc := Reaping temp, mst := st1\<rparr>)"
          by (rule server_step.reap) (use False b(1) in \<open>simp_all add: ret_def\<close>)
        then show ?thesis using ih [OF b(2)] r by (simp add: converse_rtranclp_into_rtranclp)
      qed
    qed
  qed
  then show ?thesis using assms by (simp add: ret_def)
qed

section \<open>Properties\<close>

text \<open>
  (C24) The accept loop and its threads, in every interleaving: no step of the main thread or of a thread uses
  an invalid pointer, in particular no thread finds its record freed; the records in memory are
  exactly those on the list and the one about to be inserted, so none is lost; a record whose
  flag is set belongs to a thread that has ended, so \<open>pthread_join\<close> never waits for a thread that
  still serves; every thread ever started has been joined once or still has its record; and the
  record of a thread that ended without setting its flag is never freed.
\<close>

theorem server_loop_safe:
  assumes "(server_step ta)\<^sup>*\<^sup>* start_server s"
  shows "\<not> faults s \<and>
    (\<exists>ps. slist_is (head (mst s)) ps \<and> dom (store_of s) = set ps \<union> pending s \<and>
       created s = length (joined (mst s)) + length ps + card (pending s)) \<and>
    (\<forall>p e. store_of s p = Some e \<longrightarrow> (status (payload e) \<longleftrightarrow> p \<notin> running s \<union> silent s)) \<and>
    silent s \<subseteq> dom (store_of s)"
proof -
  have "\<exists>ps. server_inv ps s" using assms
    by (induction rule: rtranclp_induct) (blast intro: server_inv_start dest: server_step_inv)+
  then obtain ps where i: "server_inv ps s" by blast
  then show ?thesis using server_inv_no_fault [OF i] by (auto simp: server_inv_def)
qed

text \<open>A thread that ends before its record is on the list.\<close>

definition early_end :: server where
  "early_end = \<lparr>pc = Inserting 1,
     mst = \<lparr>head = \<lparr>slh_first = NULL, elems = [1 \<mapsto> \<lparr>sle_next = NULL, payload = \<lparr>threadID = 11, socket_fd = 0, status = True,
       new_fd = 4, socket_address = 99\<rparr>\<rparr>]\<rparr>, joined = []\<rparr>, running = {}, silent = {}, created = 1\<rparr>"

lemma early_end_reachable: "(server_step 99)\<^sup>*\<^sup>* start_server early_end"
proof -
  let ?s = "(set_store start_server 1 (new_record 99 4 11))\<lparr>pc := Inserting 1, running := insert 1 (running start_server),
    created := Suc (created start_server)\<rparr>"
  have "server_step 99 start_server ?s" by (rule server_step.start) (simp_all add: start_server_def)
  moreover have "server_step 99 ?s early_end"
    using server_step.thread_ends [of 1 ?s "new_record 99 4 11" 99]
    by (simp add: early_end_def start_server_def set_store_def new_record_def)
  ultimately show ?thesis by (meson rtranclp.rtrancl_into_rtrancl rtranclp.rtrancl_refl)
qed

theorem server_loop_safe_witness:
  "\<not> faults early_end \<and> (\<exists>ps. slist_is (head (mst early_end)) ps \<and> dom (store_of early_end) = set ps \<union> pending early_end \<and>
     created early_end = length (joined (mst early_end)) + length ps + card (pending early_end))"
  using server_loop_safe [OF early_end_reachable] by blast

text \<open>
  A round of the accept loop as a whole is a sequence of these steps: when no thread ends during it, starting a
  thread, inserting its record and walking the list lead exactly where \<open>accept_round\<close> does.
\<close>

theorem round_is_steps:
  assumes "pc s = Accepting" and "fd \<noteq> -1" and "p \<noteq> NULL" and "store_of s p = None"
    and "accept_round ta fd p 0 tid (mst s) = ret st'"
  shows "(server_step ta)\<^sup>*\<^sup>* s (s\<lparr>mst := st', running := insert p (running s), created := Suc (created s)\<rparr>)"
proof -
  let ?s1 = "(set_store s p (new_record ta fd tid))\<lparr>pc := Inserting p, running := insert p (running s), created := Suc (created s)\<rparr>"
  obtain l where l: "SLIST_INSERT_HEAD (head (mst ?s1)) p = Some l" "reap_loop (SLIST_FIRST l) ((mst s)\<lparr>head := l\<rparr>) = ret st'"
    using assms(2,3,5) by (auto simp: accept_round_def Let_def seq_eq_ret of_option_ret set_store_def)
  have m: "(mst ?s1)\<lparr>head := l\<rparr> = (mst s)\<lparr>head := l\<rparr>" by (simp add: set_store_def)
  let ?s2 = "?s1\<lparr>pc := Reaping (SLIST_FIRST l), mst := (mst ?s1)\<lparr>head := l\<rparr>\<rparr>"
  have "server_step ta s ?s1" by (rule server_step.start) (use assms in simp_all)
  moreover have "server_step ta ?s1 ?s2" by (rule server_step.insert) (use l in simp_all)
  moreover have "(server_step ta)\<^sup>*\<^sup>* ?s2 (s\<lparr>pc := Reaping NULL, mst := st', running := insert p (running s), created := Suc (created s)\<rparr>)"
    using reap_loop_steps [OF l(2), of ta "insert p (running s)" "silent s" "Suc (created s)"] unfolding m
    by (cases s) (simp add: set_store_def)
  moreover have "server_step ta (s\<lparr>pc := Reaping NULL, mst := st', running := insert p (running s), created := Suc (created s)\<rparr>)
      (s\<lparr>mst := st', running := insert p (running s), created := Suc (created s)\<rparr>)"
    using server_step.reap_end [of "s\<lparr>pc := Reaping NULL, mst := st', running := insert p (running s), created := Suc (created s)\<rparr>" ta] assms(1)
    by (cases s) simp
  ultimately show ?thesis by (meson converse_rtranclp_into_rtranclp rtranclp.rtrancl_into_rtrancl)
qed

lemma first_round: "\<exists>st'. accept_round 99 4 1 0 11 (mst start_server) = ret st' \<and> slist_is (head st') [1]"
  by (simp add: accept_round_def start_server_def new_record_def SLIST_INSERT_HEAD_def set_next_def elem_at_def SLIST_FIRST_def
      reap_loop.simps reap_body_def ret_def slist_is_def)

theorem round_is_steps_witness:
  "\<exists>st'. accept_round 99 4 1 0 11 (mst start_server) = ret st' \<and>
     (server_step 99)\<^sup>*\<^sup>* start_server (start_server\<lparr>mst := st', running := insert 1 (running start_server), created := Suc (created start_server)\<rparr>)"
proof -
  obtain st' where "accept_round 99 4 1 0 11 (mst start_server) = ret st'" using first_round by blast
  with round_is_steps [of start_server 4 1 99 11 st'] show ?thesis by (simp add: start_server_def)
qed

end
