(* ===== verification/Server_Threads.thy ===== *)
theory Server_Threads
  imports Server_Claims
begin

text \<open>
  Several connections at once. A thread of the server has two critical sections: it receives
  and stores its message in the first and sends the log back in the second, and other threads
  may run in between. \<open>srv_step\<close> interleaves the critical sections of any number of threads
  that share the mutex and the device; \<open>threadfunc\<close> is the two sections of one thread in a row.
\<close>

section \<open>The two critical sections\<close>

text \<open>The first section, with the buffer and its size for the second one, or \<open>None\<close> when the thread has ended.\<close>

definition first_section ::
  "alloc \<Rightarrow> 'd file_ops \<Rightarrow> bool \<Rightarrow> 'd tstate \<Rightarrow> ('d tstate \<times> (byte list \<times> nat) option) prog" where
  "first_section A fs use_dev t =
     (case malloc A 1024 of
        None \<Rightarrow> ret (close_sock t, None)
      | Some buffer \<Rightarrow>
          seq (pthread_mutex_lock (t\<lparr>live_bufs := live_bufs t + 1\<rparr>)) (\<lambda>t.
          seq (of_option (recv_loop A buffer 1024 0 (rx t))) (\<lambda>(buffer, buffer_size, total_received, input).
            let t = t\<lparr>rx := input\<rparr> in
            if 0 < total_received then
              seq (of_option (is_ioctl_cmd buffer)) (\<lambda>cmd.
                if cmd then seq (ioctl_request fs t buffer buffer_size) (\<lambda>t. ret (t, None))
                else
                  seq (store_message fs use_dev t buffer total_received) (\<lambda>(t, stored).
                    ret (t, if stored then Some (buffer, buffer_size) else None)))
            else seq (thread_exit t) (\<lambda>t. ret (t, None)))))"

definition second_section :: "'d file_ops \<Rightarrow> 'd tstate \<Rightarrow> byte list \<Rightarrow> nat \<Rightarrow> 'd tstate prog" where
  "second_section fs t buffer buffer_size = seq (send_back fs t buffer buffer_size) thread_exit"

lemma seq_assoc: "seq (seq m f) g = seq m (\<lambda>x. seq (f x) g)"
  by (simp add: seq_def split: option.split outcome.split)

lemma seq_ret: "seq m ret = m"
  by (simp add: seq_def ret_def split: option.split outcome.split)

lemma seq_cong: "(\<And>x. f x = g x) \<Longrightarrow> seq m f = seq m g"
  by (simp add: seq_def split: option.split outcome.split)

lemma threadfunc_sections:
  "threadfunc A fs use_dev t =
     seq (first_section A fs use_dev t) (\<lambda>(t, k).
       case k of None \<Rightarrow> ret t | Some (buffer, n) \<Rightarrow> second_section fs t buffer n)"
  by (auto simp: threadfunc_def first_section_def second_section_def seq_assoc seq_ret Let_def
      split: option.split prod.split intro!: seq_cong)

section \<open>Interleaving\<close>

datatype phase = Fresh | Stored "byte list" nat | Ended

record 'd system =
  mutex_held :: bool
  device :: 'd
  conns :: "('d tstate \<times> phase) list"

text \<open>A thread sees the shared mutex and device.\<close>

definition view :: "'d system \<Rightarrow> 'd tstate \<Rightarrow> 'd tstate" where
  "view sys t = t\<lparr>aesdsocket_mutex := mutex_held sys, fsys := device sys\<rparr>"

definition publish :: "'d system \<Rightarrow> nat \<Rightarrow> 'd tstate \<Rightarrow> phase \<Rightarrow> 'd system" where
  "publish sys i t p =
     sys\<lparr>mutex_held := aesdsocket_mutex t, device := fsys t, conns := (conns sys)[i := (t, p)]\<rparr>"

definition next_phase :: "(byte list \<times> nat) option \<Rightarrow> phase" where
  "next_phase k = (case k of None \<Rightarrow> Ended | Some (buffer, n) \<Rightarrow> Stored buffer n)"

inductive srv_step :: "alloc \<Rightarrow> 'd file_ops \<Rightarrow> 'd system \<Rightarrow> 'd system \<Rightarrow> bool" for A fs where
  receive: "i < length (conns sys) \<Longrightarrow> conns sys ! i = (t, Fresh) \<Longrightarrow>
    first_section A fs True (view sys t) = ret (t', k) \<Longrightarrow> srv_step A fs sys (publish sys i t' (next_phase k))"
| reply: "i < length (conns sys) \<Longrightarrow> conns sys ! i = (t, Stored buffer n) \<Longrightarrow>
    second_section fs (view sys t) buffer n = ret t' \<Longrightarrow> srv_step A fs sys (publish sys i t' Ended)"

inductive_cases srv_step_cases: "srv_step A fs sys sys'"

text \<open>The connections considered: each sends something, which fits the buffers the allocator serves.\<close>

definition speaks :: "alloc \<Rightarrow> nat \<Rightarrow> 'd tstate \<Rightarrow> bool" where
  "speaks A limit t \<longleftrightarrow> 2 * (length (concat (rx t)) + 1) \<le> limit \<and> received_message A (rx t) \<noteq> []"

text \<open>What holds of a thread in each phase.\<close>

fun conn_ok :: "alloc \<Rightarrow> nat \<Rightarrow> 'd tstate \<times> phase \<Rightarrow> bool" where
  "conn_ok A limit (t, Fresh) \<longleftrightarrow> speaks A limit t \<and> closes t = 0 \<and> live_bufs t = 0 \<and> tx t = []"
| "conn_ok A limit (t, Stored buffer n) \<longleftrightarrow>
     n = length buffer \<and> 0 < n \<and> n < 2 ^ 64 \<and> closes t = 0 \<and> live_bufs t = 1 \<and> tx t = []"
| "conn_ok A limit (t, Ended) \<longleftrightarrow> closes t = 1 \<and> live_bufs t = 0 \<and> status t"

lemma first_section_received:
  assumes "alloc_ok A" and "alloc_serves A limit" and "limit < 2 ^ 63" and "speaks A limit t" and "\<not> aesdsocket_mutex t"
    and m: "m = received_message A (rx t)"
  obtains buffer n rest where "holds buffer m" "n = length buffer" "0 < n" "n < 2 ^ 64" "length m < 2 ^ 63" "m \<noteq> []"
    "first_section A fs use_dev t =
       (let t = t\<lparr>live_bufs := live_bufs t + 1, aesdsocket_mutex := True, rx := rest\<rparr>
        in if is_command m then seq (ioctl_request fs t buffer n) (\<lambda>t. ret (t, None))
           else seq (store_message fs use_dev t buffer (length m)) (\<lambda>(t, stored).
             ret (t, if stored then Some (buffer, n) else None)))"
proof -
  have ne: "m \<noteq> []" and lim: "2 * (length (concat (rx t)) + 1) \<le> limit" using assms(4) m by (simp_all add: speaks_def)
  obtain b0 buffer n rest where rc: "malloc A 1024 = Some b0"
      "recv_loop A b0 1024 0 (rx t) = Some (buffer, n, length m, rest)" "holds buffer m" "length buffer = n" "n \<le> limit"
    using receive_facts [OF assms(1,2) lim] m by metis
  show thesis
    by (rule that [OF rc(3)])
      (use rc assms(3,5) ne is_ioctl_cmd_eq [OF rc(3) ne] in
        \<open>auto simp: first_section_def pthread_mutex_lock_def Let_def holds_def\<close>)
qed

context log_file
begin

lemma first_section_message:
  assumes A: "alloc_ok A" "alloc_serves A limit" "limit < 2 ^ 63" "speaks A limit t" and good: "good (fsys t)"
    and free: "\<not> aesdsocket_mutex t" and path: "path = ''/dev/aesdchar''"
    and opens: "\<And>d flags. good d \<Longrightarrow> snd (fs_open fs d path flags) \<noteq> -1"
    and m: "m = received_message A (rx t)" "\<not> is_command m"
  obtains t' buffer n where "first_section A fs True t = ret (t', Some (buffer, n))"
    "\<not> aesdsocket_mutex t'" "good (fsys t')" "n = length buffer" "0 < n" "n < 2 ^ 64"
    "closes t' = closes t" "live_bufs t' = live_bufs t + 1" "tx t' = tx t"
    "if write_failed fs (fsys t) path m then refuses (content (fsys t)) (part (fsys t)) m (content (fsys t')) (part (fsys t'))
     else accepts (content (fsys t)) (part (fsys t)) m (content (fsys t')) (part (fsys t'))"
proof -
  obtain buffer n rest where rc: "holds buffer m" "n = length buffer" "0 < n" "n < 2 ^ 64" "length m < 2 ^ 63"
    and run: "first_section A fs True t =
       (let t = t\<lparr>live_bufs := live_bufs t + 1, aesdsocket_mutex := True, rx := rest\<rparr>
        in if is_command m then seq (ioctl_request fs t buffer n) (\<lambda>t. ret (t, None))
           else seq (store_message fs True t buffer (length m)) (\<lambda>(t, stored). ret (t, if stored then Some (buffer, n) else None)))"
    by (rule first_section_received [OF A free m(1)])
  let ?t1 = "t\<lparr>live_bufs := live_bufs t + 1, aesdsocket_mutex := True, rx := rest\<rparr>"
  have fp: "FILE_PATH True = path" by (simp add: FILE_PATH_def path)
  obtain d where st: "store_message fs True ?t1 buffer (length m) = ret (?t1\<lparr>fsys := d, aesdsocket_mutex := False\<rparr>, True)"
      and d: "good d" "if write_failed fs (fsys t) path m
        then refuses (content (fsys t)) (part (fsys t)) m (content d) (part d)
        else accepts (content (fsys t)) (part (fsys t)) m (content d) (part d)"
    using store_correct [of ?t1, OF _ _ rc(1,5) fp] opens good by (auto cong: if_cong)
  have "first_section A fs True t = ret (?t1\<lparr>fsys := d, aesdsocket_mutex := False\<rparr>, Some (buffer, n))"
    using run st m(2) by (simp add: Let_def)
  then show thesis by (rule that) (use d rc in \<open>simp_all cong: if_cong\<close>)
qed

lemma first_section_command:
  assumes A: "alloc_ok A" "alloc_serves A limit" "limit < 2 ^ 63" "speaks A limit t" and good: "good (fsys t)"
    and free: "\<not> aesdsocket_mutex t" and path: "path = ''/dev/aesdchar''"
    and opens: "\<And>d flags. good d \<Longrightarrow> snd (fs_open fs d path flags) \<noteq> -1"
    and m: "m = received_message A (rx t)" "is_command m"
  shows "case command_reply (content (fsys t)) m of
      None \<Rightarrow> first_section A fs True t = Some Undefined
    | Some bs \<Rightarrow> \<exists>t'. first_section A fs True t = ret (t', None) \<and> \<not> aesdsocket_mutex t' \<and> good (fsys t') \<and>
        content (fsys t') = content (fsys t) \<and> part (fsys t') = part (fsys t) \<and> closes t' = closes t + 1 \<and>
        live_bufs t' = live_bufs t \<and> status t' \<and> concat (tx t') = concat (tx t) @ bs"
proof -
  obtain buffer n rest where rc: "holds buffer m" "0 < n" "n < 2 ^ 64"
    and run: "first_section A fs True t =
       (let t = t\<lparr>live_bufs := live_bufs t + 1, aesdsocket_mutex := True, rx := rest\<rparr>
        in if is_command m then seq (ioctl_request fs t buffer n) (\<lambda>t. ret (t, None))
           else seq (store_message fs True t buffer (length m)) (\<lambda>(t, stored). ret (t, if stored then Some (buffer, n) else None)))"
    by (rule first_section_received [OF A free m(1)])
  let ?t1 = "t\<lparr>live_bufs := live_bufs t + 1, aesdsocket_mutex := True, rx := rest\<rparr>"
  have eq: "first_section A fs True t = seq (ioctl_request fs ?t1 buffer n) (\<lambda>t. ret (t, None))"
    using run m(2) by (simp add: Let_def)
  show ?thesis
    using request_correct [of ?t1, OF _ _ _ path _ rc(1) m(2) rc(2,3)] good opens
    by (auto simp: eq split: option.splits)
qed

lemma second_section_reply:
  assumes "good (fsys t)" and "\<not> aesdsocket_mutex t" and "path = ''/dev/aesdchar''"
    and "0 < n" and "n < 2 ^ 64" and "n = length buffer" and "live_bufs t = 1"
    and opens: "\<And>d flags. good d \<Longrightarrow> snd (fs_open fs d path flags) \<noteq> -1"
  obtains t' where "second_section fs t buffer n = ret t'" "\<not> aesdsocket_mutex t'" "good (fsys t')"
    "content (fsys t') = content (fsys t)" "part (fsys t') = part (fsys t)" "closes t' = closes t + 1" "live_bufs t' = 0" "status t'"
    "concat (tx t') = concat (tx t) @ concat (content (fsys t))"
proof -
  obtain d pieces where r: "send_back fs t buffer n = ret (t\<lparr>fsys := d, tx := tx t @ pieces\<rparr>)"
      "good d" "content d = content (fsys t)" "part d = part (fsys t)" "concat pieces = concat (content (fsys t))"
    using reply_correct [OF assms(1-5), of buffer] assms(6) opens [OF assms(1)] by auto
  from that [of "t\<lparr>fsys := d, tx := tx t @ pieces, closes := closes t + 1, live_bufs := 0, status := True\<rparr>"] r assms(2,7)
  show thesis by (simp add: second_section_def thread_exit_def free_buffer_def close_sock_def set_status_def)
qed

end

section \<open>Threads on the driver\<close>

definition sys_ok :: "alloc \<Rightarrow> nat \<Rightarrow> umem kernel \<Rightarrow> heap \<Rightarrow> vfs system \<Rightarrow> bool" where
  "sys_ok A limit K F sys \<longleftrightarrow> \<not> mutex_held sys \<and> vfs_good K F (device sys) \<and>
     (\<forall>c \<in> set (conns sys). conn_ok A limit c)"

lemma view_sel [simp]:
  "aesdsocket_mutex (view sys t) = mutex_held sys" "fsys (view sys t) = device sys" "rx (view sys t) = rx t"
  "tx (view sys t) = tx t" "closes (view sys t) = closes t" "live_bufs (view sys t) = live_bufs t"
  "speaks A limit (view sys t) = speaks A limit t"
  by (simp_all add: view_def speaks_def)

lemma publish_ok:
  assumes "sys_ok A limit K F sys" and "\<not> aesdsocket_mutex t" and "vfs_good K F (fsys t)" and "conn_ok A limit (t, p)"
  shows "sys_ok A limit K F (publish sys i t p)"
  using assms set_update_subset_insert [of "conns sys" i "(t, p)"] by (auto simp: sys_ok_def publish_def)

lemma sys_ok_conn:
  assumes "sys_ok A limit K F sys" and "i < length (conns sys)"
  shows "conn_ok A limit (conns sys ! i)"
  using assms by (simp add: sys_ok_def)

text \<open>What the sections of a thread do from a state with the invariant.\<close>

lemma fresh_conn:
  assumes "sys_ok A limit K F sys" and "i < length (conns sys)" "conns sys ! i = (t, Fresh)"
  shows "speaks A limit t" "closes t = 0" "live_bufs t = 0" "tx t = []"
  using sys_ok_conn [OF assms(1,2)] assms(3) by simp_all

lemma view_good:
  assumes "sys_ok A limit K F sys"
  shows "vfs_good K F (fsys (view sys t))" "\<not> aesdsocket_mutex (view sys t)"
  using assms by (simp_all add: sys_ok_def)

lemma device_opens: "vfs_good K F d \<Longrightarrow> snd (fs_open (vfs_ops K) d ''/dev/aesdchar'' flags) \<noteq> -1"
  using vfs_opens by simp

text \<open>What the calls of a section do to the driver.\<close>

lemma drain_drv:
  assumes "drain_loop (vfs_ops K) d fd room n sent = ret (d', sent')"
  shows "vdrv d' = vdrv d"
proof -
  let ?P = "\<lambda>fs d fd room n sent x. \<forall>d' sent'. fs = vfs_ops K \<and> x = Returned (d', sent') \<longrightarrow> vdrv d' = vdrv d"
  have "?P (vfs_ops K) d fd room n sent (Returned (d', sent'))"
  proof (rule drain_loop.raw_induct [where P = ?P])
    fix loop fs d fd room n sent x
    assume IH: "\<And>fs d fd room n sent x. loop fs d fd room n sent = Some x \<Longrightarrow> ?P fs d fd room n sent x"
      and body: "(case fs_read fs d fd n of
          Undefined \<Rightarrow> Some Undefined
        | Blocked \<Rightarrow> Some Blocked
        | Returned (d', r) \<Rightarrow>
            (case r of
               None \<Rightarrow> Some (Returned (d', sent))
             | Some bs \<Rightarrow>
                 if bs = [] then Some (Returned (d', sent))
                 else if room < length bs then Some Undefined
                 else loop fs d' fd room n (sent @ [bs]))) = Some x"
    show "?P fs d fd room n sent x"
    proof (intro allI impI)
      fix d' sent' assume x: "fs = vfs_ops K \<and> x = Returned (d', sent')"
      then obtain d1 r where rd: "vfs_read K d fd n = Returned (d1, r)" using body by (cases "vfs_read K d fd n") auto
      have "d' = d1 \<or> (\<exists>bs. loop fs d1 fd room n (sent @ [bs]) = Some x)"
        using body x rd by (auto split: option.splits if_splits)
      then have "vdrv d' = vdrv d1" using IH x by blast
      then show "vdrv d' = vdrv d" using vfs_calls_drv(2) [OF rd] by simp
    qed
  qed (use assms in \<open>simp add: ret_def\<close>)
  then show ?thesis by blast
qed

lemma request_drv:
  assumes run: "ioctl_request (vfs_ops K) t buffer n = ret t'" and free: "\<not> locked (vdrv (fsys t'))"
  shows "vdrv (fsys t') = vdrv (fsys t)"
proof -
  let ?finish = "\<lambda>t. seq (free_buffer (close_sock t)) (\<lambda>t. pthread_mutex_unlock (set_status t))"
  have fin: "fsys t' = fsys u" if "?finish u = ret t'" for u
  proof -
    have "live_bufs u \<noteq> 0" "aesdsocket_mutex u"
      using that by (auto simp: free_buffer_def close_sock_def set_status_def pthread_mutex_unlock_def split: if_splits)
    then show ?thesis using that by (auto simp: free_buffer_def close_sock_def set_status_def pthread_mutex_unlock_def)
  qed
  obtain args where args: "c_string (drop (length IOCTL_CMD_STR) buffer) = Some args"
    using run by (cases "c_string (drop (length IOCTL_CMD_STR) buffer)") (simp_all add: ioctl_request_def)
  show ?thesis
  proof (cases "sscanf_u_u args")
    case No_match
    then have "?finish t = ret t'" using run args by (simp add: ioctl_request_def)
    then show ?thesis using fin by simp
  next
    case Out_of_range
    then show ?thesis using run args by (simp add: ioctl_request_def)
  next
    case (Scanned p r)
    obtain c off where p: "p = (c, off)" by fastforce
    obtain d fd where op: "vfs_open (fsys t) ''/dev/aesdchar'' [O_RDWR] = (d, fd)" by fastforce
    note d = vfs_calls_drv(1) [OF op]
    show ?thesis
    proof (cases "fd < 0")
      case True
      then have "?finish (t\<lparr>fsys := d\<rparr>) = ret t'" using run args Scanned p op by (simp add: ioctl_request_def)
      then show ?thesis using fin d by fastforce
    next
      case False
      then obtain d1 r1 where io: "vfs_ioctl K d fd \<lparr>write_cmd = c, write_cmd_offset = off\<rparr> = Returned (d1, r1)" "r1 \<noteq> -1"
        using run args Scanned p op
        by (cases "vfs_ioctl K d fd \<lparr>write_cmd = c, write_cmd_offset = off\<rparr>")
          (auto simp: ioctl_request_def seq_eq_ret pthread_mutex_unlock_def free_buffer_def split: if_splits)
      then obtain d2 sent where dr: "drain_loop (vfs_ops K) d1 fd n n (tx t) = ret (d2, sent)"
          "?finish (t\<lparr>fsys := fs_close (vfs_ops K) d2 fd, tx := sent\<rparr>) = ret t'"
        using run args Scanned p op False by (auto simp: ioctl_request_def seq_eq_ret)
      then have "vdrv (fsys t') = vdrv d1" using fin [OF dr(2)] drain_drv [OF dr(1)] by simp
      then show ?thesis using vfs_calls_drv(3) [OF io(1)] d free by auto
    qed
  qed
qed

lemma send_back_drv:
  assumes "send_back (vfs_ops K) t buffer n = ret t'"
  shows "vdrv (fsys t') = vdrv (fsys t)"
proof -
  obtain d fd where op: "vfs_open (fsys t) ''/dev/aesdchar'' [O_RDONLY] = (d, fd)" by fastforce
  have m: "\<not> aesdsocket_mutex t" using assms by (auto simp: send_back_def pthread_mutex_lock_def)
  show ?thesis
  proof (cases "fd = -1")
    case True
    then show ?thesis using assms op m vfs_calls_drv(1) [OF op]
      by (auto simp: send_back_def pthread_mutex_lock_def pthread_mutex_unlock_def)
  next
    case False
    then show ?thesis using assms op m vfs_calls_drv(1) [OF op]
      by (auto simp: send_back_def seq_eq_ret pthread_mutex_lock_def pthread_mutex_unlock_def dest: drain_drv)
  qed
qed

lemma store_driver:
  assumes "store_message (vfs_ops K) True t buffer n = ret (t', True)" and "vfs_good K F (fsys t)" and "n < 2 ^ 63" and "n \<le> length buffer"
  shows "driver_takes K (vdrv (fsys t)) (take n buffer) (vdrv (fsys t'))"
proof -
  obtain d fd where op: "vfs_open (fsys t) ''/dev/aesdchar'' [O_CREAT, O_WRONLY, O_APPEND] = (d, fd)" by fastforce
  have d: "vfs_good K F d" "vdrv d = vdrv (fsys t)" "0 \<le> fd" using vfs_open_good [OF assms(2) op] by simp_all
  have f: "vfiles d fd = Some \<lparr>private_data = Some Aesd_device, f_pos = 0\<rparr>"
    using op d(3) by (auto simp: vfs_open_def aesd_open_def split: if_splits)
  obtain d2 r where w: "vfs_write K d fd (take n buffer) = Returned (d2, r)" "vdrv (fsys t') = vdrv d2"
    using assms(1,4) op d(3)
    by (cases "vfs_write K d fd (take n buffer)")
      (auto simp: store_message_def FILE_PATH_def seq_eq_ret pthread_mutex_unlock_def split: if_splits)
  have "length (take n buffer) < 2 ^ 63" using assms(3) by simp
  from vfs_write_driver [OF d(1) f this w(1)] show ?thesis using d(2) w(2) by simp
qed

lemma first_section_driver:
  assumes A: "alloc_ok A" "alloc_serves A limit" "limit < 2 ^ 63" "speaks A limit t" and good: "vfs_good K F (fsys t)" "\<not> aesdsocket_mutex t"
    and run: "first_section A (vfs_ops K) True t = ret (t', k)" and free: "\<not> locked (vdrv (fsys t'))"
  shows "if is_command (received_message A (rx t)) then vdrv (fsys t') = vdrv (fsys t)
    else k \<noteq> None \<longrightarrow> driver_takes K (vdrv (fsys t)) (received_message A (rx t)) (vdrv (fsys t'))"
proof -
  let ?m = "received_message A (rx t)"
  obtain buffer n rest where rc: "holds buffer ?m" "length ?m < 2 ^ 63"
    and eq: "first_section A (vfs_ops K) True t =
       (let t = t\<lparr>live_bufs := live_bufs t + 1, aesdsocket_mutex := True, rx := rest\<rparr>
        in if is_command ?m then seq (ioctl_request (vfs_ops K) t buffer n) (\<lambda>t. ret (t, None))
           else seq (store_message (vfs_ops K) True t buffer (length ?m)) (\<lambda>(t, stored). ret (t, if stored then Some (buffer, n) else None)))"
    by (rule first_section_received [OF A good(2) refl])
  let ?t = "t\<lparr>live_bufs := live_bufs t + 1, aesdsocket_mutex := True, rx := rest\<rparr>"
  show ?thesis
  proof (cases "is_command ?m")
    case True
    then have "seq (ioctl_request (vfs_ops K) ?t buffer n) (\<lambda>t. ret (t, None)) = ret (t', k)" using eq run by (simp add: Let_def)
    then have "ioctl_request (vfs_ops K) ?t buffer n = ret t'" by (auto simp: seq_eq_ret)
    from request_drv [OF this free] show ?thesis using True by simp
  next
    case False
    have "take (length ?m) buffer = ?m" "length ?m \<le> length buffer" using rc(1) by (simp_all add: holds_def)
    moreover have "store_message (vfs_ops K) True ?t buffer (length ?m) = ret (t', True)" if "k \<noteq> None"
    proof -
      have "seq (store_message (vfs_ops K) True ?t buffer (length ?m)) (\<lambda>(t, stored). ret (t, if stored then Some (buffer, n) else None)) = ret (t', k)"
        using eq run False by (simp add: Let_def)
      then show ?thesis using that by (auto simp: seq_eq_ret split: if_splits)
    qed
    ultimately show ?thesis using store_driver [of K ?t buffer "length ?m" t' F] False good(1) rc(2) by auto
  qed
qed

lemma fresh_message:
  assumes A: "alloc_ok A" "alloc_serves A limit" "limit < 2 ^ 63" and ok: "sys_ok A limit K F sys"
    and i: "i < length (conns sys)" "conns sys ! i = (t, Fresh)" and m: "\<not> is_command (received_message A (rx t))"
  obtains t' buffer n where "first_section A (vfs_ops K) True (view sys t) = ret (t', Some (buffer, n))"
    "sys_ok A limit K F (publish sys i t' (Stored buffer n))"
    "driver_takes K (vdrv (device sys)) (received_message A (rx t)) (vdrv (fsys t'))"
proof -
  note c = fresh_conn [OF ok i]
  have s: "speaks A limit (view sys t)" "\<not> is_command (received_message A (rx (view sys t)))" using c(1) m by simp_all
  obtain t' buffer n where r: "first_section A (vfs_ops K) True (view sys t) = ret (t', Some (buffer, n))"
    "\<not> aesdsocket_mutex t'" "vfs_good K F (fsys t')" "n = length buffer" "0 < n" "n < 2 ^ 64"
    "closes t' = closes (view sys t)" "live_bufs t' = live_bufs (view sys t) + 1" "tx t' = tx (view sys t)"
    by (rule aesdchar.first_section_message [OF A s(1) view_good [OF ok] refl device_opens [of K F] refl s(2)])
  have "\<not> locked (vdrv (fsys t'))" using r(3) by (simp add: vfs_good_def)
  then have "driver_takes K (vdrv (device sys)) (received_message A (rx t)) (vdrv (fsys t'))"
    using first_section_driver [OF A s(1) view_good [OF ok] r(1)] m by simp
  then show thesis by (intro that [OF r(1)]) (use r c publish_ok [OF ok r(2,3)] in simp_all)
qed

lemma fresh_command:
  assumes A: "alloc_ok A" "alloc_serves A limit" "limit < 2 ^ 63" and ok: "sys_ok A limit K F sys"
    and i: "i < length (conns sys)" "conns sys ! i = (t, Fresh)" and m: "is_command (received_message A (rx t))"
  shows "case command_reply (vfs_log (device sys)) (received_message A (rx t)) of
      None \<Rightarrow> first_section A (vfs_ops K) True (view sys t) = Some Undefined
    | Some bs \<Rightarrow> \<exists>t'. first_section A (vfs_ops K) True (view sys t) = ret (t', None) \<and>
        sys_ok A limit K F (publish sys i t' Ended) \<and> concat (tx t') = bs \<and> vdrv (fsys t') = vdrv (device sys)"
proof -
  note c = fresh_conn [OF ok i]
  have s: "speaks A limit (view sys t)" "is_command (received_message A (rx (view sys t)))" using c(1) m by simp_all
  note r = aesdchar.first_section_command [OF A s(1) view_good [OF ok] refl device_opens [of K F] refl s(2)]
  show ?thesis
  proof (cases "command_reply (vfs_log (device sys)) (received_message A (rx t))")
    case None
    then show ?thesis using r by simp
  next
    case (Some bs)
    then obtain t' where t': "first_section A (vfs_ops K) True (view sys t) = ret (t', None)" "\<not> aesdsocket_mutex t'"
      "vfs_good K F (fsys t')" "vfs_log (fsys t') = vfs_log (device sys)" "vfs_part (fsys t') = vfs_part (device sys)"
      "closes t' = 1" "live_bufs t' = 0" "status t'" "concat (tx t') = bs"
      using r c by auto
    moreover have "vdrv (fsys t') = vdrv (device sys)"
      using first_section_driver [OF A s(1) view_good [OF ok] t'(1)] t'(3) m by (simp add: vfs_good_def)
    ultimately show ?thesis using Some publish_ok [OF ok t'(2,3), of Ended i] by auto
  qed
qed

lemma stored_section:
  assumes ok: "sys_ok A limit K F sys" and i: "i < length (conns sys)" "conns sys ! i = (t, Stored buffer n)"
  obtains t' where "second_section (vfs_ops K) (view sys t) buffer n = ret t'"
    "sys_ok A limit K F (publish sys i t' Ended)" "vdrv (fsys t') = vdrv (device sys)"
    "concat (tx t') = concat (vfs_log (device sys))"
proof -
  have c: "n = length buffer" "0 < n" "n < 2 ^ 64" "closes t = 0" "live_bufs t = 1" "tx t = []"
    using sys_ok_conn [OF ok i(1)] i(2) by auto
  have live: "live_bufs (view sys t) = 1" using c(5) by simp
  obtain t' where r: "second_section (vfs_ops K) (view sys t) buffer n = ret t'" "\<not> aesdsocket_mutex t'" "vfs_good K F (fsys t')"
    "vfs_log (fsys t') = vfs_log (fsys (view sys t))" "vfs_part (fsys t') = vfs_part (fsys (view sys t))" "closes t' = closes (view sys t) + 1" "live_bufs t' = 0" "status t'"
    "concat (tx t') = concat (tx (view sys t)) @ concat (vfs_log (fsys (view sys t)))"
    by (rule aesdchar.second_section_reply [OF view_good [OF ok] refl c(2,3,1) live device_opens [of K F]])
  have "vdrv (fsys t') = vdrv (device sys)"
    using r(1) send_back_drv [of K "view sys t" buffer n]
    by (auto simp: second_section_def thread_exit_def seq_eq_ret free_buffer_def close_sock_def set_status_def split: if_splits)
  then show thesis
    by (intro that [OF r(1)]) (use r c publish_ok [OF ok r(2,3)] in simp_all)
qed

lemma srv_step_ok:
  assumes A: "alloc_ok A" "alloc_serves A limit" "limit < 2 ^ 63" and "srv_step A (vfs_ops K) sys sys'"
    and ok: "sys_ok A limit K F sys"
  shows "sys_ok A limit K F sys'"
  using assms(4)
proof (cases rule: srv_step.cases)
  case (receive i t t' k)
  show ?thesis
  proof (cases "is_command (received_message A (rx t))")
    case True
    then show ?thesis using fresh_command [OF A ok receive(2,3)] receive
      by (auto simp: next_phase_def split: option.splits)
  next
    case False
    obtain t1 buffer n where "first_section A (vfs_ops K) True (view sys t) = ret (t1, Some (buffer, n))"
      "sys_ok A limit K F (publish sys i t1 (Stored buffer n))"
      using fresh_message [OF A ok receive(2,3) False] by blast
    then show ?thesis using receive by (simp add: next_phase_def)
  qed
next
  case (reply i t buffer n t')
  obtain t1 where "second_section (vfs_ops K) (view sys t) buffer n = ret t1" "sys_ok A limit K F (publish sys i t1 Ended)"
    using stored_section [OF ok reply(2,3)] by blast
  then show ?thesis using reply by simp
qed

lemma srv_steps_ok:
  assumes "alloc_ok A" "alloc_serves A limit" "limit < 2 ^ 63" and "(srv_step A (vfs_ops K))\<^sup>*\<^sup>* sys sys'"
    and "sys_ok A limit K F sys"
  shows "sys_ok A limit K F sys'"
  using assms(4,5) by (induction rule: rtranclp_induct) (auto intro: srv_step_ok [OF assms(1-3)])

section \<open>Properties\<close>

text \<open>
  Concurrent connections: however the critical sections of any number of threads that each receive
  something are interleaved on the driver, the mutex is free between sections, the device keeps its
  invariant, and every thread that has ended has closed its socket once, freed its buffer and set its
  flag. A thread that has not ended can always run its next section to the end without blocking:
  a message is handed to the log; a reply is exactly the log at that moment, which it leaves
  unchanged; a seek command is answered from the log at that moment, and only one that the device then
  rejects, or with a number that does not fit, is undefined.
\<close>

theorem server_threads:
  assumes "alloc_ok A" and "alloc_serves A limit" and "limit < 2 ^ 63" and "sys_ok A limit K F sys0"
    and "(srv_step A (vfs_ops K))\<^sup>*\<^sup>* sys0 sys" and "i < length (conns sys)" and "conns sys ! i = (t, p)"
  shows "sys_ok A limit K F sys \<and>
    (case p of
       Ended \<Rightarrow> True
     | Fresh \<Rightarrow>
         if is_command (received_message A (rx t)) then
           (case command_reply (vfs_log (device sys)) (received_message A (rx t)) of
              None \<Rightarrow> first_section A (vfs_ops K) True (view sys t) = Some Undefined
            | Some bs \<Rightarrow> \<exists>t'. srv_step A (vfs_ops K) sys (publish sys i t' Ended) \<and>
                concat (tx t') = bs \<and> vfs_log (fsys t') = vfs_log (device sys))
         else \<exists>t' buffer n. srv_step A (vfs_ops K) sys (publish sys i t' (Stored buffer n)) \<and>
           driver_takes K (vdrv (device sys)) (received_message A (rx t)) (vdrv (fsys t'))
     | Stored buffer n \<Rightarrow> \<exists>t'. srv_step A (vfs_ops K) sys (publish sys i t' Ended) \<and>
         concat (tx t') = concat (vfs_log (device sys)) \<and> vfs_log (fsys t') = vfs_log (device sys))"
proof -
  have ok: "sys_ok A limit K F sys" using srv_steps_ok [OF assms(1-3,5,4)] .
  note step = srv_step.receive [where A = A and fs = "vfs_ops K", OF assms(6)]
  show ?thesis
  proof (cases p)
    case Fresh
    then have c: "conns sys ! i = (t, Fresh)" using assms(7) by simp
    show ?thesis
    proof (cases "is_command (received_message A (rx t))")
      case True
      then show ?thesis
        using fresh_command [OF assms(1-3) ok assms(6) c] step [OF c] ok Fresh
        by (fastforce simp: next_phase_def split: option.splits)
    next
      case False
      obtain t' buffer n where r: "first_section A (vfs_ops K) True (view sys t) = ret (t', Some (buffer, n))"
        "driver_takes K (vdrv (device sys)) (received_message A (rx t)) (vdrv (fsys t'))"
        using fresh_message [OF assms(1-3) ok assms(6) c False] by blast
      then show ?thesis using step [OF c r(1)] ok Fresh False by (auto simp: next_phase_def)
    qed
  next
    case (Stored buffer n)
    then obtain t' where "second_section (vfs_ops K) (view sys t) buffer n = ret t'"
      "vdrv (fsys t') = vdrv (device sys)" "concat (tx t') = concat (vfs_log (device sys))"
      using stored_section [OF ok assms(6)] assms(7) by blast
    with srv_step.reply [OF assms(6) _ this(1), of A] assms(7) Stored ok show ?thesis by auto
  next
    case Ended
    then show ?thesis using ok by simp
  qed
qed

text \<open>Two connections on the concrete device.\<close>

definition demo_sys :: "vfs system" where
  "demo_sys = \<lparr>mutex_held = False, device = demo_vfs,
     conns = [(demo_thread [[97, 10]], Fresh), (demo_thread [[97, 10]], Fresh)]\<rparr>"

lemma demo_message: "received_message zero_alloc [[97, 10]] = [97, 10]" "\<not> is_command [97, 10]"
  using receive_one_piece [OF zero_alloc_ok, of "[97, 10]" "[]"] zero_alloc_serves
  by (simp_all add: alloc_serves_def complete_def is_command_def IOCTL_CMD_STR_bytes)

lemma demo_sys_ok: "sys_ok zero_alloc 1048575 srv_kernel Map.empty demo_sys"
  using demo_vfs_good demo_message by (simp add: sys_ok_def demo_sys_def speaks_def)

theorem server_threads_witness:
  "\<exists>t' buffer n. srv_step zero_alloc (vfs_ops srv_kernel) demo_sys (publish demo_sys 1 t' (Stored buffer n))"
  using server_threads [OF zero_alloc_ok zero_alloc_serves _ demo_sys_ok rtranclp.rtrancl_refl,
      of 1 "demo_thread [[97, 10]]" Fresh] demo_message
  by (auto simp: demo_sys_def)

end
