(* ===== verification/Server_Steps.thy ===== *)
theory Server_Steps
  imports Server_Threads
begin

text \<open>
  The thread function of \<open>src/server/aesdsocket.c\<close> one call at a time. \<open>thread_step\<close> executes the next call
  of a thread, with the tests that follow it; the program points carry the local variables that are
  still needed. Running the steps of one thread alone gives \<open>threadfunc\<close>, so the steps are those of
  the same code; \<open>Server_Interleave\<close> interleaves them.
\<close>

section \<open>Program points\<close>

text \<open>The calls of straight-line code: closing the socket, freeing the buffer, and so on.\<close>

datatype act = Shut | Free | Unlock | Set_status | Close_fd int | Fsync_fd int

text \<open>
  \<open>At_acts as k\<close> is at the calls \<open>as\<close>; after them the thread has ended when \<open>k\<close> is \<open>None\<close>, and otherwise it
  is at the second \<open>pthread_mutex_lock\<close>, with the buffer and its size. \<open>At_read room n fd as\<close> is at the
  loop that reads \<open>n\<close> bytes into a block of \<open>room\<close> bytes and sends them.
\<close>

datatype tpc =
    At_malloc
  | At_lock "byte list"
  | At_recv "byte list" nat nat
  | At_test "byte list" nat nat
  | At_scan "byte list" nat
  | At_seek_open nat aesd_seekto
  | At_ioctl nat int aesd_seekto
  | At_open "byte list" nat nat
  | At_write "byte list" nat nat int
  | At_reply_open "byte list" nat
  | At_read nat nat int "act list"
  | At_acts "act list" "(byte list \<times> nat) option"

abbreviation At_end :: tpc where
  "At_end \<equiv> At_acts [] None"

fun do_act :: "'d file_ops \<Rightarrow> act \<Rightarrow> 'd tstate \<Rightarrow> 'd tstate prog" where
  "do_act fs Shut t = ret (close_sock t)"
| "do_act fs Free t = free_buffer t"
| "do_act fs Unlock t = pthread_mutex_unlock t"
| "do_act fs Set_status t = ret (set_status t)"
| "do_act fs (Close_fd fd) t = ret (t\<lparr>fsys := fs_close fs (fsys t) fd\<rparr>)"
| "do_act fs (Fsync_fd fd) t = ret (t\<lparr>fsys := fs_fsync fs (fsys t) fd\<rparr>)"

text \<open>The ends of the thread.\<close>

abbreviation exit_acts :: "act list" where
  "exit_acts \<equiv> [Shut, Free, Set_status]"

abbreviation seek_exit_acts :: "act list" where
  "seek_exit_acts \<equiv> [Shut, Free, Set_status, Unlock]"

section \<open>Steps\<close>

text \<open>One round of the receive loop; the flag tells whether the loop goes on.\<close>

definition recv_round ::
  "alloc \<Rightarrow> byte list \<Rightarrow> nat \<Rightarrow> nat \<Rightarrow> byte list list \<Rightarrow> (byte list \<times> nat \<times> nat \<times> byte list list \<times> bool) option" where
  "recv_round A buffer buffer_size total_received input =
     (case recv input (usub (usub buffer_size total_received) 1) of
        (bytes, input') \<Rightarrow>
          if bytes = [] then Some (buffer, buffer_size, total_received, input', False)
          else if length buffer \<le> total_received + length bytes then None
          else
            (let buffer = overwrite total_received (bytes @ [0]) buffer;
                 total_received = total_received + length bytes
             in case grow_buffer A buffer buffer_size total_received of
                  (grown, buffer, buffer_size) \<Rightarrow>
                    if \<not> grown then Some (buffer, buffer_size, total_received, input', False)
                    else map_option (\<lambda>complete. (buffer, buffer_size, total_received, input', \<not> complete)) (message_complete buffer)))"

fun thread_step :: "alloc \<Rightarrow> 'd file_ops \<Rightarrow> bool \<Rightarrow> tpc \<Rightarrow> 'd tstate \<Rightarrow> ('d tstate \<times> tpc) prog" where
  "thread_step A fs use_dev At_malloc t =
     (case malloc A 1024 of
        None \<Rightarrow> ret (t, At_acts [Shut] None)
      | Some buffer \<Rightarrow> ret (t\<lparr>live_bufs := live_bufs t + 1\<rparr>, At_lock buffer))"
| "thread_step A fs use_dev (At_lock buffer) t =
     seq (pthread_mutex_lock t) (\<lambda>t. ret (t, At_recv buffer 1024 0))"
| "thread_step A fs use_dev (At_recv buffer n k) t =
     seq (of_option (recv_round A buffer n k (rx t))) (\<lambda>(buffer, n, k, input, again).
       ret (t\<lparr>rx := input\<rparr>, if again then At_recv buffer n k else At_test buffer n k))"
| "thread_step A fs use_dev (At_test buffer n k) t =
     (if 0 < k then
        seq (of_option (is_ioctl_cmd buffer)) (\<lambda>cmd. ret (t, if cmd then At_scan buffer n else At_open buffer n k))
      else ret (t, At_acts exit_acts None))"
| "thread_step A fs use_dev (At_scan buffer n) t =
     seq (of_option (c_string (drop (length IOCTL_CMD_STR) buffer))) (\<lambda>args.
       case sscanf_u_u args of
         Out_of_range \<Rightarrow> Some Undefined
       | No_match \<Rightarrow> ret (t, At_acts seek_exit_acts None)
       | Scanned (cmd, cmd_offset) rest \<Rightarrow> ret (t, At_seek_open n \<lparr>write_cmd = cmd, write_cmd_offset = cmd_offset\<rparr>))"
| "thread_step A fs use_dev (At_seek_open n sk) t =
     (case fs_open fs (fsys t) ''/dev/aesdchar'' [O_RDWR] of
        (d, fd) \<Rightarrow> ret (t\<lparr>fsys := d\<rparr>, if fd < 0 then At_acts seek_exit_acts None else At_ioctl n fd sk))"
| "thread_step A fs use_dev (At_ioctl n fd sk) t =
     seq (Some (fs_ioctl fs (fsys t) fd sk)) (\<lambda>(d, r).
       ret (t\<lparr>fsys := d\<rparr>,
         if r = -1 then At_acts [Close_fd fd, Unlock, Free, Unlock, Set_status] None
         else At_read n n fd (Close_fd fd # seek_exit_acts)))"
| "thread_step A fs use_dev (At_open buffer n k) t =
     (case fs_open fs (fsys t) (FILE_PATH use_dev) [O_CREAT, O_WRONLY, O_APPEND] of
        (d, fd) \<Rightarrow> ret (t\<lparr>fsys := d\<rparr>, if fd = -1 then At_acts [Shut, Free, Unlock] None else At_write buffer n k fd))"
| "thread_step A fs use_dev (At_write buffer n k fd) t =
     (if length buffer < k then Some Undefined
      else
        seq (Some (fs_write fs (fsys t) fd (take k buffer))) (\<lambda>(d, r).
          ret (t\<lparr>fsys := d\<rparr>, At_acts [Fsync_fd fd, Close_fd fd, Unlock] (Some (buffer, n)))))"
| "thread_step A fs use_dev (At_reply_open buffer n) t =
     (case fs_open fs (fsys t) ''/dev/aesdchar'' [O_RDONLY] of
        (d, fd) \<Rightarrow> ret (t\<lparr>fsys := d\<rparr>,
          if fd \<noteq> -1 then At_read (length buffer) n fd (Close_fd fd # Unlock # exit_acts) else At_acts (Unlock # exit_acts) None))"
| "thread_step A fs use_dev (At_read room n fd acts) t =
     seq (Some (fs_read fs (fsys t) fd n)) (\<lambda>(d, r).
       case r of
         None \<Rightarrow> ret (t\<lparr>fsys := d\<rparr>, At_acts acts None)
       | Some bs \<Rightarrow>
           if bs = [] then ret (t\<lparr>fsys := d\<rparr>, At_acts acts None)
           else if room < length bs then Some Undefined
           else ret (t\<lparr>fsys := d, tx := tx t @ [bs]\<rparr>, At_read room n fd acts))"
| "thread_step A fs use_dev (At_acts (a # acts) k) t = seq (do_act fs a t) (\<lambda>t. ret (t, At_acts acts k))"
| "thread_step A fs use_dev (At_acts [] (Some (buffer, n))) t =
     seq (pthread_mutex_lock t) (\<lambda>t. ret (t, At_reply_open buffer n))"
| "thread_step A fs use_dev (At_acts [] None) t = ret (t, At_acts [] None)"

section \<open>A thread alone\<close>

fun boundary :: "tpc \<Rightarrow> (byte list \<times> nat) option option" where
  "boundary (At_acts [] k) = Some k"
| "boundary pc = None"

text \<open>The steps up to the end of a critical section and of what follows it without the mutex.\<close>

partial_function (option) run_section ::
  "alloc \<Rightarrow> 'd file_ops \<Rightarrow> bool \<Rightarrow> tpc \<Rightarrow> 'd tstate \<Rightarrow> ('d tstate \<times> (byte list \<times> nat) option) prog" where
  "run_section A fs use_dev pc t =
     (case boundary pc of
        Some k \<Rightarrow> Some (Returned (t, k))
      | None \<Rightarrow>
          (case thread_step A fs use_dev pc t of
             None \<Rightarrow> None
           | Some Undefined \<Rightarrow> Some Undefined
           | Some Blocked \<Rightarrow> Some Blocked
           | Some (Returned r) \<Rightarrow> run_section A fs use_dev (snd r) (fst r)))"

lemma run_boundary [simp]: "run_section A fs use_dev (At_acts [] k) t = ret (t, k)"
  by (subst run_section.simps) (simp add: ret_def)

lemma run_step: "boundary pc = None \<Longrightarrow>
  run_section A fs use_dev pc t = seq (thread_step A fs use_dev pc t) (\<lambda>(t, pc). run_section A fs use_dev pc t)"
  by (subst run_section.simps) (simp add: seq_def split: option.split outcome.split)

lemma run_act [simp]:
  "run_section A fs use_dev (At_acts (a # acts) k) t = seq (do_act fs a t) (\<lambda>t. run_section A fs use_dev (At_acts acts k) t)"
  by (simp add: run_step seq_assoc)

text \<open>The loops.\<close>

lemma recv_loop_round:
  "recv_loop A buffer n k input =
     (case recv_round A buffer n k input of
        None \<Rightarrow> None
      | Some (buffer, n, k, input, again) \<Rightarrow> if again then recv_loop A buffer n k input else Some (buffer, n, k, input))"
  by (subst recv_loop.simps)
    (auto simp: recv_round_def Let_def split: prod.split option.split bind_splits)

lemma recv_round_shrinks:
  assumes "recv_round A buffer n k input = Some (buffer', n', k', input', True)"
  shows "length (concat input') < length (concat input)"
proof -
  obtain bytes rest where r: "recv input (usub (usub n k) 1) = (bytes, rest)" by fastforce
  then have "input' = rest" "bytes \<noteq> []"
    using assms by (auto simp: recv_round_def Let_def split: prod.splits if_splits)
  then show ?thesis using recv_concat [OF r] by simp
qed

lemma run_recv:
  "run_section A fs use_dev (At_recv buffer n k) t =
     seq (of_option (recv_loop A buffer n k (rx t))) (\<lambda>(buffer, n, k, input).
       run_section A fs use_dev (At_test buffer n k) (t\<lparr>rx := input\<rparr>))"
proof (induction "length (concat (rx t))" arbitrary: buffer n k t rule: less_induct)
  case less
  show ?case
  proof (cases "recv_round A buffer n k (rx t)")
    case None
    then show ?thesis by (simp add: run_step recv_loop_round [of A buffer n k])
  next
    case (Some r)
    obtain buffer' n' k' input again where r: "r = (buffer', n', k', input, again)" by (metis prod_cases5)
    show ?thesis
    proof (cases again)
      case True
      then have "length (concat (rx (t\<lparr>rx := input\<rparr>))) < length (concat (rx t))" using Some r recv_round_shrinks by fastforce
      from less [OF this, of buffer' n' k'] Some r True show ?thesis
        by (simp add: run_step [of "At_recv buffer n k"] recv_loop_round [of A buffer n k])
    next
      case False
      then show ?thesis using Some r by (simp add: run_step [of "At_recv buffer n k"] recv_loop_round [of A buffer n k])
    qed
  qed
qed

text \<open>Updates of different fields commute.\<close>

lemma tstate_commute:
  fixes t :: "'d tstate"
  shows "t\<lparr>tx := x, fsys := d\<rparr> = t\<lparr>fsys := d, tx := x\<rparr>"
    "t\<lparr>aesdsocket_mutex := b, fsys := d\<rparr> = t\<lparr>fsys := d, aesdsocket_mutex := b\<rparr>"
    "t\<lparr>live_bufs := n, fsys := d\<rparr> = t\<lparr>fsys := d, live_bufs := n\<rparr>"
    "t\<lparr>live_bufs := n, aesdsocket_mutex := b\<rparr> = t\<lparr>aesdsocket_mutex := b, live_bufs := n\<rparr>"
    "t\<lparr>tx := x, aesdsocket_mutex := b\<rparr> = t\<lparr>aesdsocket_mutex := b, tx := x\<rparr>"
  by (cases t; simp)+

lemma read_step:
  "thread_step A fs use_dev (At_read room n fd acts) t =
     (case fs_read fs (fsys t) fd n of
        Undefined \<Rightarrow> Some Undefined
      | Blocked \<Rightarrow> Some Blocked
      | Returned (d, r) \<Rightarrow>
          (case r of
             None \<Rightarrow> ret (t\<lparr>fsys := d\<rparr>, At_acts acts None)
           | Some bs \<Rightarrow>
               if bs = [] then ret (t\<lparr>fsys := d\<rparr>, At_acts acts None)
               else if room < length bs then Some Undefined
               else ret (t\<lparr>fsys := d, tx := tx t @ [bs]\<rparr>, At_read room n fd acts)))"
  by (auto split: outcome.split)

lemma run_drain:
  assumes "drain_loop fs d fd room n sent = Some r"
  shows "run_section A fs use_dev (At_read room n fd acts) (t\<lparr>fsys := d, tx := sent\<rparr>) =
    seq (Some r) (\<lambda>(d, sent). run_section A fs use_dev (At_acts acts None) (t\<lparr>fsys := d, tx := sent\<rparr>))"
proof -
  let ?P = "\<lambda>fs d fd room n sent r. run_section A fs use_dev (At_read room n fd acts) (t\<lparr>fsys := d, tx := sent\<rparr>) =
    seq (Some r) (\<lambda>(d, sent). run_section A fs use_dev (At_acts acts None) (t\<lparr>fsys := d, tx := sent\<rparr>))"
  show ?thesis
  proof (rule drain_loop.raw_induct [OF _ assms, where P = ?P])
    fix loop fs d fd room n sent r
    assume ih: "\<And>fs d fd room n sent r. loop fs d fd room n sent = Some r \<Longrightarrow> ?P fs d fd room n sent r"
      and run: "(case fs_read fs d fd n of
        Undefined \<Rightarrow> Some Undefined
      | Blocked \<Rightarrow> Some Blocked
      | Returned (d', r) \<Rightarrow>
          (case r of
             None \<Rightarrow> Some (Returned (d', sent))
           | Some bs \<Rightarrow>
               if bs = [] then Some (Returned (d', sent))
               else if room < length bs then Some Undefined
               else loop fs d' fd room n (sent @ [bs]))) = Some r"
    show "?P fs d fd room n sent r"
    proof (subst run_step)
      show "boundary (At_read room n fd acts) = None" by simp
      show "seq (thread_step A fs use_dev (At_read room n fd acts) (t\<lparr>fsys := d, tx := sent\<rparr>))
          (\<lambda>(t, pc). run_section A fs use_dev pc t) =
        seq (Some r) (\<lambda>(d, sent). run_section A fs use_dev (At_acts acts None) (t\<lparr>fsys := d, tx := sent\<rparr>))"
        using run ih
        by (auto simp: read_step tstate_commute simp del: thread_step.simps split: outcome.splits option.splits if_splits)
    qed
  qed
qed

lemma run_drain_ends:
  assumes "run_section A fs use_dev pc t = Some r" and "pc = At_read room n fd acts"
  shows "drain_loop fs (fsys t) fd room n (tx t) \<noteq> None"
proof -
  let ?P = "\<lambda>A (fs :: 'a file_ops) (use_dev :: bool) pc t (r :: ('a tstate \<times> (byte list \<times> nat) option) outcome).
    pc = At_read room n fd acts \<longrightarrow> drain_loop fs (fsys t) fd room n (tx t) \<noteq> None"
  have "?P A fs use_dev pc t r"
  proof (rule run_section.raw_induct [OF _ assms(1), where P = ?P])
    fix loop A and fs :: "'a file_ops" and use_dev pc t r
    assume ih: "\<And>A fs use_dev pc t r. loop A fs use_dev pc t = Some r \<Longrightarrow> ?P A fs use_dev pc t r"
      and run: "(case boundary pc of
        Some k \<Rightarrow> Some (Returned (t, k))
      | None \<Rightarrow>
          (case thread_step A fs use_dev pc t of
             None \<Rightarrow> None
           | Some Undefined \<Rightarrow> Some Undefined
           | Some Blocked \<Rightarrow> Some Blocked
           | Some (Returned r) \<Rightarrow> loop A fs use_dev (snd r) (fst r))) = Some r"
    show "?P A fs use_dev pc t r"
    proof
      assume pc: "pc = At_read room n fd acts"
      show "drain_loop fs (fsys t) fd room n (tx t) \<noteq> None"
        using run ih unfolding pc
        by (subst drain_loop.simps)
          (fastforce simp: read_step ret_def simp del: thread_step.simps split: outcome.splits option.splits if_splits)
    qed
  qed
  with assms(2) show ?thesis by simp
qed

lemma run_read:
  "run_section A fs use_dev (At_read room n fd acts) t =
     seq (drain_loop fs (fsys t) fd room n (tx t)) (\<lambda>(d, sent).
       run_section A fs use_dev (At_acts acts None) (t\<lparr>fsys := d, tx := sent\<rparr>))"
proof (cases "drain_loop fs (fsys t) fd room n (tx t)")
  case None
  then have "run_section A fs use_dev (At_read room n fd acts) t = None" using run_drain_ends by fastforce
  then show ?thesis using None by simp
next
  case (Some r)
  then show ?thesis using run_drain [OF Some, of A use_dev acts t] by simp
qed

text \<open>The parts of the thread function.\<close>

lemma run_exit: "run_section A fs use_dev (At_acts exit_acts None) t = seq (thread_exit t) (\<lambda>t. ret (t, None))"
  by (simp add: thread_exit_def seq_assoc)

lemma run_ioctl:
  "run_section A fs use_dev (At_ioctl n fd sk) t =
     seq (Some (fs_ioctl fs (fsys t) fd sk)) (\<lambda>(d, r).
       if r = -1 then
         seq (pthread_mutex_unlock (t\<lparr>fsys := fs_close fs d fd\<rparr>)) (\<lambda>t.
         seq (free_buffer t) (\<lambda>t. seq (pthread_mutex_unlock t) (\<lambda>t. ret (set_status t, None))))
       else
         seq (drain_loop fs d fd n n (tx t)) (\<lambda>(d, sent).
         seq (free_buffer (close_sock (t\<lparr>fsys := fs_close fs d fd, tx := sent\<rparr>))) (\<lambda>t.
         seq (pthread_mutex_unlock (set_status t)) (\<lambda>t. ret (t, None)))))"
  by (simp add: run_step [of "At_ioctl n fd sk"] seq_assoc)
    (auto simp: run_read tstate_commute intro!: seq_cong split: prod.split)

lemma run_request: "run_section A fs use_dev (At_scan buffer n) t = seq (ioctl_request fs t buffer n) (\<lambda>t. ret (t, None))"
proof -
  have seek: "run_section A fs use_dev (At_seek_open n \<lparr>write_cmd = c, write_cmd_offset = off\<rparr>) t =
    (case fs_open fs (fsys t) ''/dev/aesdchar'' [O_RDWR] of
       (d, fd) \<Rightarrow> run_section A fs use_dev (if fd < 0 then At_acts seek_exit_acts None
         else At_ioctl n fd \<lparr>write_cmd = c, write_cmd_offset = off\<rparr>) (t\<lparr>fsys := d\<rparr>))" for c off
    by (simp add: run_step [of "At_seek_open n sk" for sk] split: prod.split)
  show ?thesis
    by (simp add: run_step [of "At_scan buffer n"] ioctl_request_def Let_def seq_assoc)
      (auto simp: seek run_ioctl seq_assoc intro!: seq_cong split: scan.split prod.split)
qed

lemma run_store_message:
  "run_section A fs use_dev (At_open buffer n k) t =
     seq (store_message fs use_dev t buffer k) (\<lambda>(t, stored). ret (t, if stored then Some (buffer, n) else None))"
proof -
  have wr: "run_section A fs use_dev (At_write buffer n k fd) t =
    (if length buffer < k then Some Undefined
     else seq (Some (fs_write fs (fsys t) fd (take k buffer))) (\<lambda>(d, r).
       seq (pthread_mutex_unlock (t\<lparr>fsys := fs_close fs (fs_fsync fs d fd) fd\<rparr>)) (\<lambda>t. ret (t, Some (buffer, n)))))" for fd t
    by (simp add: run_step [of "At_write buffer n k fd"] seq_assoc) (auto intro!: seq_cong split: prod.split)
  show ?thesis
    by (simp add: run_step [of "At_open buffer n k"] wr store_message_def seq_assoc split: prod.split)
      (auto simp: seq_assoc intro!: seq_cong split: prod.split)
qed

lemma run_test:
  "run_section A fs use_dev (At_test buffer n k) t =
     (if 0 < k then
        seq (of_option (is_ioctl_cmd buffer)) (\<lambda>cmd.
          if cmd then seq (ioctl_request fs t buffer n) (\<lambda>t. ret (t, None))
          else seq (store_message fs use_dev t buffer k) (\<lambda>(t, stored). ret (t, if stored then Some (buffer, n) else None)))
      else seq (thread_exit t) (\<lambda>t. ret (t, None)))"
  by (simp add: run_step [of "At_test buffer n k"] run_exit seq_assoc del: run_act)
    (auto simp: run_request run_store_message intro!: seq_cong)

lemma run_first: "run_section A fs use_dev At_malloc t = first_section A fs use_dev t"
  by (simp add: run_step [of At_malloc] run_step [of "At_lock b" for b] run_recv run_test first_section_def seq_assoc Let_def
      split: option.split)

lemma run_second:
  "seq (pthread_mutex_lock t) (run_section A fs use_dev (At_reply_open buffer n)) =
     seq (second_section fs t buffer n) (\<lambda>t. ret (t, None))"
proof -
  have "run_section A fs use_dev (At_reply_open buffer n) t =
    seq (case fs_open fs (fsys t) ''/dev/aesdchar'' [O_RDONLY] of
         (d, fd) \<Rightarrow>
           if fd \<noteq> -1 then
             seq (drain_loop fs d fd (length buffer) n (tx t)) (\<lambda>(d, sent).
             pthread_mutex_unlock (t\<lparr>fsys := fs_close fs d fd, tx := sent\<rparr>))
           else pthread_mutex_unlock (t\<lparr>fsys := d\<rparr>)) (\<lambda>t. seq (thread_exit t) (\<lambda>t. ret (t, None)))" for t
    by (simp add: run_step [of "At_reply_open buffer n"] seq_assoc thread_exit_def split: prod.split)
      (auto simp: run_read seq_assoc thread_exit_def tstate_commute intro!: seq_cong split: prod.split)
  then show ?thesis by (auto simp: second_section_def send_back_def seq_assoc intro!: seq_cong)
qed

section \<open>Runs of a thread alone\<close>

inductive lone_step :: "alloc \<Rightarrow> 'd file_ops \<Rightarrow> bool \<Rightarrow> 'd tstate \<times> tpc \<Rightarrow> 'd tstate \<times> tpc \<Rightarrow> bool" for A fs use_dev where
  "thread_step A fs use_dev pc t = ret (t', pc') \<Longrightarrow> pc \<noteq> At_end \<Longrightarrow> lone_step A fs use_dev (t, pc) (t', pc')"

inductive_simps lone_step_simp: "lone_step A fs use_dev (t, pc) (t', pc')"

text \<open>The rest of the thread from a program point on.\<close>

definition rest_of :: "alloc \<Rightarrow> 'd file_ops \<Rightarrow> bool \<Rightarrow> tpc \<Rightarrow> 'd tstate \<Rightarrow> 'd tstate prog" where
  "rest_of A fs use_dev pc t =
     seq (run_section A fs use_dev pc t) (\<lambda>(t, k).
       case k of None \<Rightarrow> ret t | Some (buffer, n) \<Rightarrow> second_section fs t buffer n)"

lemma rest_of_malloc: "rest_of A fs use_dev At_malloc t = threadfunc A fs use_dev t"
  by (simp add: rest_of_def run_first threadfunc_sections)

lemma rest_of_end [simp]: "rest_of A fs use_dev At_end t = ret t"
  by (simp add: rest_of_def)

lemma rest_of_step:
  assumes "pc \<noteq> At_end"
  shows "rest_of A fs use_dev pc t = seq (thread_step A fs use_dev pc t) (\<lambda>(t, pc). rest_of A fs use_dev pc t)"
proof (cases "boundary pc")
  case None
  then show ?thesis by (auto simp: rest_of_def run_step seq_assoc intro!: seq_cong split: prod.split)
next
  case (Some k)
  with assms obtain buffer n where pc: "pc = At_acts [] (Some (buffer, n))" by (cases pc rule: boundary.cases) auto
  have "seq (pthread_mutex_lock t) (\<lambda>t. rest_of A fs use_dev (At_reply_open buffer n) t) = second_section fs t buffer n"
    by (simp add: rest_of_def seq_assoc [symmetric] run_second) (simp add: seq_assoc seq_ret)
  then show ?thesis unfolding pc by (simp add: seq_assoc) (simp add: rest_of_def)
qed

lemma lone_steps_rest:
  assumes "(lone_step A fs use_dev)\<^sup>*\<^sup>* (t, pc) (t', pc')"
  shows "rest_of A fs use_dev pc t = rest_of A fs use_dev pc' t'"
  using assms
  by (induction rule: converse_rtranclp_induct2) (auto simp: lone_step_simp rest_of_step)

text \<open>How a computation that gives \<open>r\<close> shows in the steps.\<close>

definition shows_as ::
  "alloc \<Rightarrow> 'd file_ops \<Rightarrow> bool \<Rightarrow> 'd tstate \<times> tpc \<Rightarrow> ('a \<Rightarrow> 'd tstate \<times> tpc) \<Rightarrow> 'a outcome \<Rightarrow> bool" where
  "shows_as A fs use_dev c final r \<longleftrightarrow>
     (case r of
        Returned x \<Rightarrow> (lone_step A fs use_dev)\<^sup>*\<^sup>* c (final x)
      | Undefined \<Rightarrow> \<exists>t pc. (lone_step A fs use_dev)\<^sup>*\<^sup>* c (t, pc) \<and> thread_step A fs use_dev pc t = Some Undefined
      | Blocked \<Rightarrow> \<exists>t pc. (lone_step A fs use_dev)\<^sup>*\<^sup>* c (t, pc) \<and> thread_step A fs use_dev pc t = Some Blocked)"

lemma shows_as_prefix:
  "(lone_step A fs use_dev)\<^sup>*\<^sup>* c c' \<Longrightarrow> shows_as A fs use_dev c' final r \<Longrightarrow> shows_as A fs use_dev c final r"
  by (cases r) (force simp: shows_as_def intro: rtranclp_trans)+

lemma run_shows:
  assumes "run_section A fs use_dev pc t = Some r"
  shows "shows_as A fs use_dev (t, pc) (\<lambda>(t, k). (t, At_acts [] k)) r"
proof -
  let ?P = "\<lambda>A fs use_dev pc t r. shows_as A fs use_dev (t, pc) (\<lambda>(t, k). (t, At_acts [] k)) r"
  show ?thesis
  proof (rule run_section.raw_induct [OF _ assms, where P = ?P])
    fix loop A and fs :: "'a file_ops" and use_dev pc t r
    assume ih: "\<And>A fs use_dev pc t r. loop A fs use_dev pc t = Some r \<Longrightarrow> ?P A fs use_dev pc t r"
      and run: "(case boundary pc of
        Some k \<Rightarrow> Some (Returned (t, k))
      | None \<Rightarrow>
          (case thread_step A fs use_dev pc t of
             None \<Rightarrow> None
           | Some Undefined \<Rightarrow> Some Undefined
           | Some Blocked \<Rightarrow> Some Blocked
           | Some (Returned r) \<Rightarrow> loop A fs use_dev (snd r) (fst r))) = Some r"
    show "?P A fs use_dev pc t r"
    proof (cases "boundary pc")
      case (Some k)
      then show ?thesis using run by (cases pc rule: boundary.cases) (auto simp: shows_as_def)
    next
      case None
      then have ne: "pc \<noteq> At_end" by auto
      show ?thesis
      proof (cases "\<exists>t' pc'. thread_step A fs use_dev pc t = ret (t', pc')")
        case True
        then obtain t' pc' where st: "thread_step A fs use_dev pc t = ret (t', pc')" by blast
        then have "lone_step A fs use_dev (t, pc) (t', pc')" using ne by (rule lone_step.intros)
        moreover have "?P A fs use_dev pc' t' r" using ih run None st by (simp add: ret_def)
        ultimately show ?thesis by (blast intro: shows_as_prefix)
      next
        case False
        then show ?thesis using run None by (auto simp: shows_as_def ret_def split: option.splits outcome.splits)
      qed
    qed
  qed
qed

lemma rest_shows:
  assumes "rest_of A fs use_dev pc t = Some r"
  shows "shows_as A fs use_dev (t, pc) (\<lambda>t. (t, At_end)) r"
proof -
  obtain r1 where r1: "run_section A fs use_dev pc t = Some r1" using assms by (auto simp: rest_of_def seq_def split: option.splits)
  note s1 = run_shows [OF r1]
  show ?thesis
  proof (cases "\<exists>t1 k. r1 = Returned (t1, k)")
    case False
    then show ?thesis using s1 r1 assms by (cases r1) (auto simp: shows_as_def rest_of_def)
  next
    case True
    then obtain t1 k where t1: "r1 = Returned (t1, k)" by blast
    then have pre: "(lone_step A fs use_dev)\<^sup>*\<^sup>* (t, pc) (t1, At_acts [] k)" using s1 by (simp add: shows_as_def)
    show ?thesis
    proof (cases k)
      case None
      then show ?thesis using assms r1 t1 pre by (auto simp: rest_of_def shows_as_def ret_def)
    next
      case (Some p)
      obtain buffer n where p: "p = (buffer, n)" by fastforce
      have sec: "second_section fs t1 buffer n = Some r" using assms r1 t1 Some p by (simp add: rest_of_def)
      have st: "thread_step A fs use_dev (At_acts [] k) t1 =
          (if aesdsocket_mutex t1 then Some Blocked else ret (t1\<lparr>aesdsocket_mutex := True\<rparr>, At_reply_open buffer n))"
        using Some p by (simp add: pthread_mutex_lock_def)
      show ?thesis
      proof (cases "aesdsocket_mutex t1")
        case True
        then have "r = Blocked" using sec by (simp add: second_section_def send_back_def pthread_mutex_lock_def)
        then show ?thesis using st True pre by (auto simp: shows_as_def)
      next
        case False
        let ?c = "(t1\<lparr>aesdsocket_mutex := True\<rparr>, At_reply_open buffer n)"
        have "lone_step A fs use_dev (t1, At_acts [] k) ?c" using st False Some by (simp add: lone_step_simp)
        with pre have pre2: "(lone_step A fs use_dev)\<^sup>*\<^sup>* (t, pc) ?c" by simp
        have eq: "run_section A fs use_dev (At_reply_open buffer n) (t1\<lparr>aesdsocket_mutex := True\<rparr>) = seq (Some r) (\<lambda>t. ret (t, None))"
          using run_second [of t1 A fs use_dev buffer n] False sec by (simp add: pthread_mutex_lock_def)
        show ?thesis
          using run_shows [of A fs use_dev "At_reply_open buffer n" "t1\<lparr>aesdsocket_mutex := True\<rparr>"] eq
          by (intro shows_as_prefix [OF pre2]) (cases r; simp add: shows_as_def ret_def)
      qed
    qed
  qed
qed

section \<open>Properties\<close>

text \<open>
  The steps are those of the thread function: a thread alone reaches its end by steps exactly when \<open>threadfunc\<close>
  returns, and with the same state; it comes to a step that is undefined, or that blocks, exactly
  when \<open>threadfunc\<close> is undefined, or blocks.
\<close>

theorem thread_steps:
  "(threadfunc A fs use_dev t = ret t' \<longleftrightarrow> (lone_step A fs use_dev)\<^sup>*\<^sup>* (t, At_malloc) (t', At_end)) \<and>
   (threadfunc A fs use_dev t = Some Undefined \<longleftrightarrow>
      (\<exists>t1 pc. (lone_step A fs use_dev)\<^sup>*\<^sup>* (t, At_malloc) (t1, pc) \<and> thread_step A fs use_dev pc t1 = Some Undefined)) \<and>
   (threadfunc A fs use_dev t = Some Blocked \<longleftrightarrow>
      (\<exists>t1 pc. (lone_step A fs use_dev)\<^sup>*\<^sup>* (t, At_malloc) (t1, pc) \<and> thread_step A fs use_dev pc t1 = Some Blocked))"
proof (intro conjI iffI)
  have undef: "rest_of A fs use_dev pc t1 = Some Undefined" if "thread_step A fs use_dev pc t1 = Some Undefined" for pc t1
    using that by (subst rest_of_step) auto
  have block: "rest_of A fs use_dev pc t1 = Some Blocked" if "thread_step A fs use_dev pc t1 = Some Blocked" for pc t1
    using that by (subst rest_of_step) auto
  note fwd = rest_shows [of A fs use_dev At_malloc t, unfolded rest_of_malloc shows_as_def]
  note bwd = lone_steps_rest [of A fs use_dev t At_malloc, unfolded rest_of_malloc]
  show "(lone_step A fs use_dev)\<^sup>*\<^sup>* (t, At_malloc) (t', At_end)" if "threadfunc A fs use_dev t = ret t'"
    using fwd that by (simp add: ret_def)
  show "threadfunc A fs use_dev t = ret t'" if "(lone_step A fs use_dev)\<^sup>*\<^sup>* (t, At_malloc) (t', At_end)"
    using bwd [OF that] by simp
  show "\<exists>t1 pc. (lone_step A fs use_dev)\<^sup>*\<^sup>* (t, At_malloc) (t1, pc) \<and> thread_step A fs use_dev pc t1 = Some Undefined"
    if "threadfunc A fs use_dev t = Some Undefined"
    using fwd [OF that] by simp
  show "threadfunc A fs use_dev t = Some Undefined"
    if "\<exists>t1 pc. (lone_step A fs use_dev)\<^sup>*\<^sup>* (t, At_malloc) (t1, pc) \<and> thread_step A fs use_dev pc t1 = Some Undefined"
    using that bwd undef by auto
  show "\<exists>t1 pc. (lone_step A fs use_dev)\<^sup>*\<^sup>* (t, At_malloc) (t1, pc) \<and> thread_step A fs use_dev pc t1 = Some Blocked"
    if "threadfunc A fs use_dev t = Some Blocked"
    using fwd [OF that] by simp
  show "threadfunc A fs use_dev t = Some Blocked"
    if "\<exists>t1 pc. (lone_step A fs use_dev)\<^sup>*\<^sup>* (t, At_malloc) (t1, pc) \<and> thread_step A fs use_dev pc t1 = Some Blocked"
    using that bwd block by auto
qed

end
