(* ===== verification/Server_Interleave.thy ===== *)
theory Server_Interleave
  imports Server_Steps Simulation
begin

text \<open>
  Any number of connection threads of \<open>src/server/aesdsocket.c\<close>, interleaved call by call. The mutex knows its
  owner: locking blocks while another thread holds it, unlocking is undefined unless the thread
  itself holds it. The main result is that the threads behave as if their critical sections were
  executed one after the other (\<open>srv_step\<close>), however their calls are interleaved.
\<close>

section \<open>The threads\<close>

text \<open>A client that \<open>hangs\<close> keeps its connection open and silent after the data it has sent.\<close>

record 'd worker =
  wst :: "'d tstate"
  wpc :: tpc
  hangs :: bool

record 'd pool =
  holder :: "nat option"
  shared :: 'd
  workers :: "'d worker list"

fun wants_lock :: "tpc \<Rightarrow> bool" where
  "wants_lock (At_lock buffer) = True"
| "wants_lock (At_acts [] (Some p)) = True"
| "wants_lock pc = False"

text \<open>
  What thread \<open>i\<close> sees of the shared state: a thread that locks asks whether anybody holds the
  mutex, a thread that unlocks whether it holds the mutex itself.
\<close>

definition look :: "'d pool \<Rightarrow> nat \<Rightarrow> 'd tstate" where
  "look P i =
     (let w = workers P ! i
      in (wst w)\<lparr>aesdsocket_mutex := (if wants_lock (wpc w) then holder P \<noteq> None else holder P = Some i), fsys := shared P\<rparr>)"

definition put :: "'d pool \<Rightarrow> nat \<Rightarrow> 'd tstate \<Rightarrow> tpc \<Rightarrow> 'd pool" where
  "put P i t pc =
     (let w = workers P ! i
      in P\<lparr>holder := (if wants_lock (wpc w) then Some i
                       else if holder P = Some i \<and> \<not> aesdsocket_mutex t then None else holder P),
           shared := fsys t, workers := (workers P)[i := w\<lparr>wst := t, wpc := pc\<rparr>]\<rparr>)"

definition waiting :: "'d worker \<Rightarrow> bool" where
  "waiting w \<longleftrightarrow> hangs w \<and> rx (wst w) = [] \<and> (\<exists>buffer n k. wpc w = At_recv buffer n k)"

abbreviation next_of :: "alloc \<Rightarrow> 'd file_ops \<Rightarrow> 'd pool \<Rightarrow> nat \<Rightarrow> ('d tstate \<times> tpc) prog" where
  "next_of A fs P i \<equiv> thread_step A fs True (wpc (workers P ! i)) (look P i)"

inductive pool_step :: "alloc \<Rightarrow> 'd file_ops \<Rightarrow> 'd pool \<Rightarrow> 'd pool \<Rightarrow> bool" for A fs where
  "i < length (workers P) \<Longrightarrow> wpc (workers P ! i) \<noteq> At_end \<Longrightarrow> \<not> waiting (workers P ! i) \<Longrightarrow>
   next_of A fs P i = ret (t, pc) \<Longrightarrow> pool_step A fs P (put P i t pc)"

inductive_cases pool_step_cases: "pool_step A fs P P'"

section \<open>Steps and the mutex\<close>

text \<open>Two states of a thread that differ at most in what is shared.\<close>

definition same :: "'d tstate \<Rightarrow> 'd tstate \<Rightarrow> bool" where
  "same t u \<longleftrightarrow> rx t = rx u \<and> tx t = tx u \<and> closes t = closes u \<and> live_bufs t = live_bufs u \<and> status t = status u"

lemma same_refl [simp]: "same t t"
  by (simp add: same_def)

lemma same_update: "same t u \<Longrightarrow> t\<lparr>aesdsocket_mutex := b, fsys := d\<rparr> = u\<lparr>aesdsocket_mutex := b, fsys := d\<rparr>"
  by (cases t; cases u) (simp add: same_def)

text \<open>Where the steps lead that are not covered by simplification.\<close>

lemma scan_step:
  assumes "thread_step A fs use_dev (At_scan buffer n) t = ret (t', pc)"
  shows "t' = t" "pc = At_acts seek_exit_acts None \<or> (\<exists>sk. pc = At_seek_open n sk)"
proof -
  obtain args where "c_string (drop (length IOCTL_CMD_STR) buffer) = Some args"
    using assms by (cases "c_string (drop (length IOCTL_CMD_STR) buffer)") simp_all
  then have "t' = t \<and> (pc = At_acts seek_exit_acts None \<or> (\<exists>sk. pc = At_seek_open n sk))"
    using assms by (cases "sscanf_u_u args") (auto split: prod.splits)
  then show "t' = t" "pc = At_acts seek_exit_acts None \<or> (\<exists>sk. pc = At_seek_open n sk)" by simp_all
qed

lemma read_step_cases:
  assumes "thread_step A fs use_dev (At_read room n fd acts) t = ret (t', pc)"
  shows "aesdsocket_mutex t' = aesdsocket_mutex t" "pc = At_acts acts None \<or> pc = At_read room n fd acts"
  using assms by (auto simp: read_step simp del: thread_step.simps split: outcome.splits option.splits if_splits)

text \<open>Only unlocking releases the mutex.\<close>

lemma step_keeps_mutex:
  assumes "thread_step A fs use_dev pc t = ret (t', pc')" and "aesdsocket_mutex t"
  shows "aesdsocket_mutex t' \<or>
    (\<exists>acts k. pc = At_acts (Unlock # acts) k \<and> pc' = At_acts acts k \<and> t' = t\<lparr>aesdsocket_mutex := False\<rparr>)"
proof (cases pc)
  case (At_acts as k)
  then show ?thesis using assms
    by (cases as; cases "hd as"; cases k)
      (auto simp: close_sock_def set_status_def free_buffer_def pthread_mutex_unlock_def pthread_mutex_lock_def split: if_splits)
next
  case (At_scan buffer n)
  then show ?thesis using assms scan_step by fastforce
next
  case (At_read room n fd acts)
  then show ?thesis using assms read_step_cases by blast
qed (use assms in \<open>auto simp: seq_eq_ret pthread_mutex_lock_def split: option.splits prod.splits if_splits\<close>)

text \<open>After it has unlocked, a thread only closes its socket, frees its buffer and sets its flag.\<close>

abbreviation local_acts :: "act set" where
  "local_acts \<equiv> {Shut, Free, Set_status}"

definition after_unlock :: "act list \<Rightarrow> act list" where
  "after_unlock acts = tl (dropWhile (\<lambda>a. a \<noteq> Unlock) acts)"

fun pc_ok :: "tpc \<Rightarrow> bool" where
  "pc_ok (At_acts acts None) \<longleftrightarrow> set (after_unlock acts) \<subseteq> insert Unlock local_acts"
| "pc_ok (At_acts acts (Some p)) \<longleftrightarrow> after_unlock acts = []"
| "pc_ok (At_read room n fd acts) \<longleftrightarrow> set (after_unlock acts) \<subseteq> insert Unlock local_acts"
| "pc_ok pc \<longleftrightarrow> True"

lemma after_unlock_Cons: "after_unlock (a # acts) = (if a = Unlock then acts else after_unlock acts)"
  by (simp add: after_unlock_def)

lemma after_unlock_subset: "set (after_unlock acts) \<subseteq> set acts"
  by (induction acts) (auto simp: after_unlock_Cons, simp add: after_unlock_def)

lemma pc_ok_acts: "pc_ok (At_acts (a # acts) k) \<Longrightarrow> pc_ok (At_acts acts k)"
  using after_unlock_subset [of acts] by (cases k) (auto simp: after_unlock_Cons split: if_splits)

lemma pc_ok_step:
  assumes "thread_step A fs use_dev pc t = ret (t', pc')" and "pc_ok pc"
  shows "pc_ok pc'"
proof (cases pc)
  case (At_acts as k)
  show ?thesis
  proof (cases as)
    case Nil
    then show ?thesis using assms At_acts by (cases k) (auto simp: seq_eq_ret)
  next
    case (Cons a acts)
    then have "pc' = At_acts acts k" using assms(1) At_acts by (auto simp: seq_eq_ret)
    then show ?thesis using assms(2) At_acts Cons pc_ok_acts by blast
  qed
next
  case (At_scan buffer n)
  then show ?thesis using assms scan_step(2) by (fastforce simp: after_unlock_def)
next
  case (At_read room n fd acts)
  then show ?thesis using assms read_step_cases(2) by fastforce
qed (use assms in \<open>auto simp: seq_eq_ret after_unlock_def split: option.splits prod.splits if_splits\<close>)

lemma local_act:
  assumes "do_act fs a t = ret t'" and "a \<in> local_acts"
  shows "aesdsocket_mutex t' = aesdsocket_mutex t" "fsys t' = fsys t"
  using assms by (auto simp: close_sock_def set_status_def free_buffer_def split: if_splits)

lemma run_local:
  assumes "run_section A fs use_dev (At_acts acts k) t = ret (t', k')" and "set acts \<subseteq> insert Unlock local_acts"
    and "\<not> aesdsocket_mutex t"
  shows "set acts \<subseteq> local_acts \<and> k' = k \<and> fsys t' = fsys t \<and> \<not> aesdsocket_mutex t'"
  using assms
proof (induction acts arbitrary: t)
  case (Cons a acts)
  then obtain t1 where t1: "do_act fs a t = ret t1" "run_section A fs use_dev (At_acts acts k) t1 = ret (t', k')"
    by (auto simp: seq_eq_ret)
  then have a: "a \<in> local_acts" using Cons.prems by (auto simp: pthread_mutex_unlock_def)
  note l = local_act [OF t1(1) a]
  have "set acts \<subseteq> local_acts \<and> k' = k \<and> fsys t' = fsys t1 \<and> \<not> aesdsocket_mutex t'"
    by (rule Cons.IH [OF t1(2)]) (use Cons.prems l in auto)
  then show ?case using a l(2) by simp
qed simp

text \<open>Local calls do not depend on what is shared.\<close>

lemma local_act_same:
  assumes "do_act fs a t = ret t'" and "a \<in> local_acts" and "same t u"
  shows "\<exists>u'. do_act fs a u = ret u' \<and> same t' u'"
  using assms by (auto simp: close_sock_def set_status_def free_buffer_def same_def split: if_splits)

lemma run_local_same:
  assumes "run_section A fs use_dev (At_acts acts k) t = ret (t', k')" and "set acts \<subseteq> local_acts" and "same t u"
  shows "\<exists>u'. run_section A fs use_dev (At_acts acts k) u = ret (u', k') \<and> same t' u'"
  using assms
proof (induction acts arbitrary: t u)
  case (Cons a acts)
  then obtain t1 where t1: "do_act fs a t = ret t1" "run_section A fs use_dev (At_acts acts k) t1 = ret (t', k')"
    by (auto simp: seq_eq_ret)
  then obtain u1 where "do_act fs a u = ret u1" "same t1 u1" using local_act_same Cons.prems by (metis insert_subset list.simps(15))
  then show ?case using Cons.IH [OF t1(2), of u1] Cons.prems by auto
qed simp

section \<open>Atomic sections\<close>

text \<open>The next section of a thread, from the state of the system of \<open>srv_step\<close>.\<close>

definition section_at :: "alloc \<Rightarrow> 'd file_ops \<Rightarrow> 'd system \<Rightarrow> nat \<Rightarrow> ('d tstate \<times> (byte list \<times> nat) option) prog" where
  "section_at A fs S i =
     (case conns S ! i of
        (t, Fresh) \<Rightarrow> first_section A fs True (view S t)
      | (t, Stored buffer n) \<Rightarrow> seq (second_section fs (view S t) buffer n) (\<lambda>t. ret (t, None))
      | (t, Ended) \<Rightarrow> ret (view S t, None))"

text \<open>A section that goes wrong: it does not end, or it keeps the mutex.\<close>

definition bad_section :: "alloc \<Rightarrow> 'd file_ops \<Rightarrow> 'd system \<Rightarrow> nat \<Rightarrow> bool" where
  "bad_section A fs S i \<longleftrightarrow> \<not> (\<exists>t' k. section_at A fs S i = ret (t', k) \<and> \<not> aesdsocket_mutex t')"

lemma section_step:
  assumes "i < length (conns S)" and "snd (conns S ! i) \<noteq> Ended" and "section_at A fs S i = ret (t', k)"
  shows "srv_step A fs S (publish S i t' (next_phase k))"
proof (cases "conns S ! i")
  case (Pair t p)
  then show ?thesis
  proof (cases p)
    case (Stored buffer n)
    then obtain u where "second_section fs (view S t) buffer n = ret u" "t' = u" "k = None"
      using assms(3) Pair by (auto simp: section_at_def seq_eq_ret)
    then show ?thesis using srv_step.reply [OF assms(1)] Pair Stored by (simp add: next_phase_def)
  qed (use assms Pair srv_step.receive [OF assms(1)] in \<open>auto simp: section_at_def\<close>)
qed

text \<open>
  A thread that does not hold the mutex has not begun the section that its counterpart is about
  to execute, or it has left it and only local calls remain.
\<close>

fun outside :: "alloc \<Rightarrow> 'd file_ops \<Rightarrow> tpc \<Rightarrow> 'd tstate \<Rightarrow> 'd tstate \<times> phase \<Rightarrow> bool" where
  "outside A fs At_malloc w (t, p) \<longleftrightarrow> p = Fresh \<and> same w t"
| "outside A fs (At_lock buffer) w (t, p) \<longleftrightarrow>
     p = Fresh \<and> malloc A 1024 = Some buffer \<and> same w (t\<lparr>live_bufs := live_bufs t + 1\<rparr>)"
| "outside A fs (At_acts [] (Some (buffer, n))) w (t, p) \<longleftrightarrow> p = Stored buffer n \<and> same w t"
| "outside A fs (At_acts acts None) w (t, p) \<longleftrightarrow> p = Ended \<and> set acts \<subseteq> local_acts \<and>
     (\<exists>t'. run_section A fs True (At_acts acts None) w = ret (t', None) \<and> same t' t)"
| "outside A fs pc w c \<longleftrightarrow> False"

text \<open>A thread that holds the mutex will end the section with the result it has for its counterpart.\<close>

definition inside :: "alloc \<Rightarrow> 'd file_ops \<Rightarrow> 'd system \<Rightarrow> nat \<Rightarrow> tpc \<Rightarrow> 'd tstate \<Rightarrow> bool" where
  "inside A fs S i pc u \<longleftrightarrow> \<not> wants_lock pc \<and> pc_ok pc \<and> snd (conns S ! i) \<noteq> Ended \<and>
     (\<exists>t' k. section_at A fs S i = ret (t', k) \<and> \<not> aesdsocket_mutex t' \<and> run_section A fs True pc u = ret (t', k))"

definition matches :: "alloc \<Rightarrow> 'd file_ops \<Rightarrow> 'd pool \<Rightarrow> 'd system \<Rightarrow> bool" where
  "matches A fs P S \<longleftrightarrow> length (conns S) = length (workers P) \<and> \<not> mutex_held S \<and>
     (holder P = None \<longrightarrow> shared P = device S) \<and> (\<forall>h. holder P = Some h \<longrightarrow> h < length (workers P)) \<and>
     (\<forall>i < length (workers P).
        if holder P = Some i then inside A fs S i (wpc (workers P ! i)) (look P i)
        else outside A fs (wpc (workers P ! i)) (wst (workers P ! i)) (conns S ! i))"

lemma matchesD:
  assumes "matches A fs P S" and "i < length (workers P)"
  shows "holder P = Some i \<Longrightarrow> inside A fs S i (wpc (workers P ! i)) (look P i)"
    and "holder P \<noteq> Some i \<Longrightarrow> outside A fs (wpc (workers P ! i)) (wst (workers P ! i)) (conns S ! i)"
  using assms by (auto simp: matches_def split: if_splits)

lemma put_sel [simp]:
  "length (workers (put P i t pc)) = length (workers P)" "shared (put P i t pc) = fsys t"
  "j \<noteq> i \<Longrightarrow> workers (put P i t pc) ! j = workers P ! j"
  "i < length (workers P) \<Longrightarrow> workers (put P i t pc) ! i = (workers P ! i)\<lparr>wst := t, wpc := pc\<rparr>"
  by (simp_all add: put_def Let_def)

lemma holder_put:
  "holder (put P i t pc) = (if wants_lock (wpc (workers P ! i)) then Some i
     else if holder P = Some i \<and> \<not> aesdsocket_mutex t then None else holder P)"
  by (simp add: put_def Let_def)

lemma look_put_other:
  "j \<noteq> i \<Longrightarrow> holder (put P i t pc) = holder P \<Longrightarrow> fsys t = shared P \<Longrightarrow> look (put P i t pc) j = look P j"
  by (simp add: look_def Let_def)

lemma look_put_self:
  assumes "i < length (workers P)" and "holder (put P i t pc) = Some i" and "aesdsocket_mutex t"
  shows "look (put P i t pc) i = t"
  using assms by (cases t) (simp add: look_def)

text \<open>The other threads do not notice a step that keeps the device or the owner of the mutex.\<close>

lemma matches_put:
  assumes m: "matches A fs P S" and i: "i < length (workers P)"
    and len: "length (conns S') = length (conns S)" "\<not> mutex_held S'" "\<And>j. j \<noteq> i \<Longrightarrow> conns S' ! j = conns S ! j"
    and dev: "holder (put P i t pc) = None \<Longrightarrow> fsys t = device S'"
    and own: "\<And>h. h \<noteq> i \<Longrightarrow> holder P = Some h \<or> holder (put P i t pc) = Some h \<Longrightarrow>
      holder (put P i t pc) = holder P \<and> fsys t = shared P \<and> device S' = device S"
    and self: "if holder (put P i t pc) = Some i then inside A fs S' i pc t \<and> aesdsocket_mutex t
      else outside A fs pc t (conns S' ! i)"
  shows "matches A fs (put P i t pc) S'"
proof -
  let ?P = "put P i t pc"
  have "if holder ?P = Some j then inside A fs S' j (wpc (workers ?P ! j)) (look ?P j)
    else outside A fs (wpc (workers ?P ! j)) (wst (workers ?P ! j)) (conns S' ! j)" if j: "j < length (workers P)" for j
  proof (cases "j = i")
    case True
    then show ?thesis using self i look_put_self [OF i, of t pc] by (auto split: if_splits)
  next
    case False
    then have w: "workers ?P ! j = workers P ! j" by simp
    show ?thesis
    proof (cases "holder ?P = Some j \<or> holder P = Some j")
      case True
      then have o: "holder ?P = holder P" "fsys t = shared P" "device S' = device S" using own False by blast+
      have "view S' = view S" by (rule ext) (use len(2) o(3) m in \<open>simp add: view_def matches_def\<close>)
      then have "section_at A fs S' j = section_at A fs S j" using len(3) False by (simp add: section_at_def split: prod.split phase.split)
      then show ?thesis using matchesD [OF m j] look_put_other [OF False o(1,2)] w len(3) [OF False] True o(1)
        by (auto simp: inside_def)
    next
      case False
      then show ?thesis using matchesD(2) [OF m j] w len(3) \<open>j \<noteq> i\<close> by simp
    qed
  qed
  moreover have "h < length (workers P)" if "holder ?P = Some h" for h
    using that m i by (auto simp: holder_put matches_def split: if_splits)
  ultimately show ?thesis using m len dev by (simp add: matches_def)
qed

text \<open>A step of the thread that holds the mutex; unlocking it completes the section.\<close>

lemma boundary_SomeD: "boundary pc = Some k \<Longrightarrow> pc = At_acts [] k"
  by (cases pc rule: boundary.cases) auto

text \<open>The number of steps a thread has left in its section.\<close>

definition steps_left :: "alloc \<Rightarrow> 'd file_ops \<Rightarrow> tpc \<Rightarrow> 'd tstate \<Rightarrow> nat" where
  "steps_left A fs pc u = (LEAST n. \<exists>t k. (lone_step A fs True ^^ n) (u, pc) (t, At_acts [] k))"

lemma steps_left_step:
  assumes b: "boundary pc = None" and st: "thread_step A fs True pc u = ret (u', pc')"
    and run: "run_section A fs True pc u = ret (t, k)"
  shows "steps_left A fs pc u = Suc (steps_left A fs pc' u')"
proof -
  have one: "lone_step A fs True (u, pc) c \<longleftrightarrow> c = (u', pc')" for c
    using st b by (cases c) (auto simp: lone_step_simp)
  have suc: "(lone_step A fs True ^^ Suc m) (u, pc) x \<longleftrightarrow> (lone_step A fs True ^^ m) (u', pc') x" for m x
    using one by (metis relpowp_Suc_E2 relpowp_Suc_I2)
  have "(lone_step A fs True)\<^sup>*\<^sup>* (u, pc) (t, At_acts [] k)"
    using run_shows [of A fs True pc u] run by (simp add: shows_as_def ret_def)
  then obtain n where n: "(lone_step A fs True ^^ n) (u, pc) (t, At_acts [] k)" using rtranclp_imp_relpowp by metis
  moreover have "\<not> (\<exists>t k. (lone_step A fs True ^^ 0) (u, pc) (t, At_acts [] k))" using b by auto
  ultimately show ?thesis unfolding steps_left_def by (subst Least_Suc [of _ n]) (auto simp only: suc)
qed

text \<open>
  What a thread has left to do before its next lock, or in the section it is in; and the order
  that the steps within sections decrease.
\<close>

fun local_left :: "tpc \<Rightarrow> nat" where
  "local_left At_malloc = 1"
| "local_left (At_acts acts None) = length acts"
| "local_left pc = 0"

definition effort :: "alloc \<Rightarrow> 'd file_ops \<Rightarrow> 'd pool \<Rightarrow> nat \<Rightarrow> nat" where
  "effort A fs P i = (if holder P = Some i then steps_left A fs (wpc (workers P ! i)) (look P i) else local_left (wpc (workers P ! i)))"

definition less_work :: "alloc \<Rightarrow> 'd file_ops \<Rightarrow> ('d pool \<times> 'd pool) set" where
  "less_work A fs = inv_image (less_than <*lex*> less_than)
     (\<lambda>P. (if holder P = None then 1 else 0, \<Sum>i < length (workers P). effort A fs P i))"

lemma wf_less_work: "wf (less_work A fs)"
  by (simp add: less_work_def wf_lex_prod)

lemma less_work_put:
  assumes i: "i < length (workers P)" and h: "holder (put P i t pc) = holder P" and d: "holder P = Some i \<or> fsys t = shared P"
    and e: "effort A fs (put P i t pc) i < effort A fs P i"
  shows "(put P i t pc, P) \<in> less_work A fs"
proof -
  have "effort A fs (put P i t pc) j = effort A fs P j" if "j \<noteq> i" for j
    using that h d look_put_other [OF that h] by (auto simp: effort_def)
  then have "effort A fs (put P i t pc) j \<le> effort A fs P j" for j using e by (cases "j = i") auto
  then have "(\<Sum>j < length (workers P). effort A fs (put P i t pc) j) < (\<Sum>j < length (workers P). effort A fs P j)"
    using e i by (intro sum_strict_mono_ex1) auto
  then show ?thesis using h by (simp add: less_work_def)
qed

lemma sim_inside:
  assumes m: "matches A fs P S" and i: "i < length (workers P)" and h: "holder P = Some i"
    and st: "next_of A fs P i = ret (t, pc)"
  shows "matches A fs (put P i t pc) S \<and> (put P i t pc, P) \<in> less_work A fs \<or>
    (\<exists>S'. srv_step A fs S S' \<and> matches A fs (put P i t pc) S') \<and> holder (put P i t pc) = None"
proof -
  let ?pc = "wpc (workers P ! i)"
  obtain t' k where ins: "\<not> wants_lock ?pc" "pc_ok ?pc" "snd (conns S ! i) \<noteq> Ended" "section_at A fs S i = ret (t', k)"
      "\<not> aesdsocket_mutex t'" "run_section A fs True ?pc (look P i) = ret (t', k)"
    using matchesD(1) [OF m i h] by (auto simp: inside_def)
  have mx: "aesdsocket_mutex (look P i)" using h ins(1) by (simp add: look_def)
  have b: "boundary ?pc = None"
  proof (cases "boundary ?pc")
    case (Some k')
    then show ?thesis using boundary_SomeD [OF Some] ins(5,6) mx by simp
  qed simp
  have run: "run_section A fs True pc t = ret (t', k)" using ins(6) st by (simp add: run_step [OF b])
  have ok: "pc_ok pc" using pc_ok_step [OF st ins(2)] .
  consider (keep) "aesdsocket_mutex t"
    | (unlock) acts k' where "?pc = At_acts (Unlock # acts) k'" "pc = At_acts acts k'" "\<not> aesdsocket_mutex t"
    using step_keeps_mutex [OF st mx] by auto
  then show ?thesis
  proof cases
    case keep
    have "\<not> wants_lock pc" using run keep ins(5) by (cases pc rule: wants_lock.cases) (auto simp: run_step pthread_mutex_lock_def)
    then have "inside A fs S i pc t" using run ok ins by (auto simp: inside_def)
    moreover have own: "holder (put P i t pc) = Some i" using keep h ins(1) by (simp add: holder_put)
    ultimately have "matches A fs (put P i t pc) S"
      using keep m h by (intro matches_put [OF m i]) (auto simp: matches_def)
    moreover have "effort A fs (put P i t pc) i < effort A fs P i"
      using own h i look_put_self [OF i own keep] steps_left_step [OF b st ins(6)] by (simp add: effort_def)
    then have "(put P i t pc, P) \<in> less_work A fs" using less_work_put [OF i] own h by simp
    ultimately show ?thesis by simp
  next
    case unlock
    have ac: "set acts \<subseteq> insert Unlock local_acts" "k' \<noteq> None \<Longrightarrow> acts = []"
      using ins(2) unlock(1) by (cases k'; simp add: after_unlock_Cons)+
    have l: "set acts \<subseteq> local_acts" "k = k'" "fsys t' = fsys t"
      using run_local [OF run [unfolded unlock(2)] ac(1) unlock(3)] by simp_all
    let ?S = "publish S i t' (next_phase k)"
    have len: "i < length (conns S)" using m i by (simp add: matches_def)
    have "outside A fs pc t (t', next_phase k)"
    proof (cases k')
      case None
      then show ?thesis using l run unlock(2) by (cases acts) (auto simp: next_phase_def)
    next
      case (Some p)
      then show ?thesis using l(2) ac(2) run unlock(2) by (cases p) (simp add: next_phase_def)
    qed
    moreover have free: "holder (put P i t pc) = None" using unlock h ins(1) by (simp add: holder_put)
    ultimately have "matches A fs (put P i t pc) ?S"
      using h l(3) ins(5) len by (intro matches_put [OF m i]) (auto simp: publish_def)
    then show ?thesis using section_step [OF len ins(3,4)] free by blast
  qed
qed

text \<open>A step that takes the mutex begins the section of its counterpart.\<close>

lemma lock_section:
  assumes "outside A fs pc0 w (conns S ! i)" and "wants_lock pc0" and "\<not> mutex_held S"
    and "thread_step A fs True pc0 (w\<lparr>aesdsocket_mutex := False, fsys := device S\<rparr>) = ret (t, pc)"
  shows "section_at A fs S i = run_section A fs True pc t" "aesdsocket_mutex t" "\<not> wants_lock pc" "pc_ok pc"
    "snd (conns S ! i) \<noteq> Ended"
proof -
  obtain u p where c: "conns S ! i = (u, p)" by fastforce
  let ?goal = "section_at A fs S i = run_section A fs True pc t \<and> aesdsocket_mutex t \<and> \<not> wants_lock pc \<and> pc_ok pc \<and> p \<noteq> Ended"
  have ?goal
  proof (cases pc0 rule: wants_lock.cases)
    case (1 buffer)
    then have o: "p = Fresh" "malloc A 1024 = Some buffer" "same w (u\<lparr>live_bufs := live_bufs u + 1\<rparr>)" using assms(1) c by simp_all
    have t: "t = w\<lparr>aesdsocket_mutex := True, fsys := device S\<rparr>" "pc = At_recv buffer 1024 0"
      using assms(4) 1 by (auto simp: pthread_mutex_lock_def tstate_commute)
    have "section_at A fs S i = run_section A fs True pc ((u\<lparr>live_bufs := live_bufs u + 1\<rparr>)\<lparr>aesdsocket_mutex := True, fsys := device S\<rparr>)"
      using c o(1,2) assms(3) t(2)
      by (simp add: section_at_def run_first [symmetric] run_step [of At_malloc] run_step [of "At_lock buffer"]
          pthread_mutex_lock_def view_def tstate_commute)
    then show ?thesis using same_update [OF o(3)] t o(1) by simp
  next
    case (2 q)
    obtain buffer n where q: "q = (buffer, n)" by fastforce
    then have o: "p = Stored buffer n" "same w u" using assms(1) c 2 by simp_all
    have t: "t = w\<lparr>aesdsocket_mutex := True, fsys := device S\<rparr>" "pc = At_reply_open buffer n"
      using assms(4) 2 q by (auto simp: pthread_mutex_lock_def tstate_commute)
    have "section_at A fs S i = run_section A fs True pc (u\<lparr>aesdsocket_mutex := True, fsys := device S\<rparr>)"
      using c o(1) assms(3) t(2)
      by (simp add: section_at_def run_second [symmetric, where A = A and use_dev = True] pthread_mutex_lock_def view_def tstate_commute)
    then show ?thesis using same_update [OF o(2)] t o(1) by simp
  qed (use assms(2) in simp_all)
  then show "section_at A fs S i = run_section A fs True pc t" "aesdsocket_mutex t" "\<not> wants_lock pc" "pc_ok pc"
    "snd (conns S ! i) \<noteq> Ended" using c by simp_all
qed

lemma lock_free:
  assumes "next_of A fs P i = ret (t, pc)" and "wants_lock (wpc (workers P ! i))"
  shows "holder P = None"
  using assms by (cases "wpc (workers P ! i)" rule: wants_lock.cases)
    (auto simp: look_def Let_def pthread_mutex_lock_def split: if_splits)

lemma sim_lock:
  assumes m: "matches A fs P S" and i: "i < length (workers P)" and w: "wants_lock (wpc (workers P ! i))"
    and h: "holder P \<noteq> Some i" and st: "next_of A fs P i = ret (t, pc)"
  shows "matches A fs (put P i t pc) S \<and> (put P i t pc, P) \<in> less_work A fs \<or> bad_section A fs S i"
proof -
  let ?w = "workers P ! i"
  have free: "holder P = None" by (rule lock_free [OF st w])
  then have lk: "look P i = (wst ?w)\<lparr>aesdsocket_mutex := False, fsys := device S\<rparr>"
    using m w by (simp add: look_def Let_def matches_def)
  have mx: "\<not> mutex_held S" using m by (simp add: matches_def)
  note l = lock_section [OF matchesD(2) [OF m i h] w mx st [unfolded lk]]
  have own: "holder (put P i t pc) = Some i" using w by (simp add: holder_put)
  show ?thesis
  proof (cases "bad_section A fs S i")
    case False
    then have "inside A fs S i pc t" using l by (auto simp: inside_def bad_section_def)
    then have "matches A fs (put P i t pc) S"
      using own free l(2) m by (intro matches_put [OF m i]) (auto simp: matches_def)
    then show ?thesis using own free by (simp add: less_work_def)
  qed simp
qed

text \<open>A step that neither needs the mutex nor holds it.\<close>

lemma sim_local:
  assumes m: "matches A fs P S" and i: "i < length (workers P)" and w: "\<not> wants_lock (wpc (workers P ! i))"
    and e: "wpc (workers P ! i) \<noteq> At_end" and h: "holder P \<noteq> Some i" and st: "next_of A fs P i = ret (t, pc)"
  shows "(matches A fs (put P i t pc) S \<and> (put P i t pc, P) \<in> less_work A fs \<or>
    (\<exists>S'. srv_step A fs S S' \<and> matches A fs (put P i t pc) S' \<and> device S' = device S)) \<and> fsys t = shared P"
proof -
  let ?w = "workers P ! i"
  have own: "holder (put P i t pc) = holder P" using w h by (simp add: holder_put)
  have mx: "\<not> mutex_held S" and len: "length (conns S) = length (workers P)" and dev: "holder P = None \<Longrightarrow> shared P = device S"
    using m by (simp_all add: matches_def)
  have lk: "same (look P i) (wst ?w)" "fsys (look P i) = shared P" by (simp_all add: look_def Let_def same_def)
  obtain u p where c: "conns S ! i = (u, p)" by fastforce
  note o = matchesD(2) [OF m i h, unfolded c]
  have stay: "matches A fs (put P i t pc) S \<and> (put P i t pc, P) \<in> less_work A fs"
    if "fsys t = shared P" "outside A fs pc t (u, p)" "local_left pc < local_left (wpc ?w)"
  proof
    show "matches A fs (put P i t pc) S" using that own h mx dev c by (intro matches_put [OF m i]) auto
    show "(put P i t pc, P) \<in> less_work A fs"
      by (rule less_work_put [OF i own]) (use that own h i in \<open>simp_all add: effort_def\<close>)
  qed
  show ?thesis
  proof (cases "wpc ?w")
    case At_malloc
    then have p: "p = Fresh" "same (wst ?w) u" using o by simp_all
    show ?thesis
    proof (cases "malloc A 1024")
      case (Some buffer)
      then have "t = (look P i)\<lparr>live_bufs := live_bufs (look P i) + 1\<rparr>" "pc = At_lock buffer" using st At_malloc by auto
      then show ?thesis using stay Some p lk At_malloc by (simp add: same_def)
    next
      case None
      then have t: "t = look P i" "pc = At_acts [Shut] None" using st At_malloc by auto
      let ?S = "publish S i (close_sock (view S u)) Ended"
      have sec: "section_at A fs S i = ret (close_sock (view S u), None)" using c p None by (simp add: section_at_def first_section_def)
      have "srv_step A fs S ?S"
        using section_step [of i S A fs, OF _ _ sec] i len c p by (simp add: next_phase_def)
      moreover have "outside A fs pc t (close_sock (view S u), Ended)"
        using t lk p by (auto simp: close_sock_def same_def view_def)
      then have "matches A fs (put P i t pc) ?S"
        using own h mx dev t lk len i by (intro matches_put [OF m i]) (auto simp: publish_def close_sock_def view_def)
      moreover have "device ?S = device S" by (simp add: publish_def close_sock_def view_def)
      ultimately show ?thesis using t(1) lk(2) by blast
    qed
  next
    case (At_acts acts k)
    then obtain a as where as: "acts = a # as" "k = None" using o w e by (cases acts; cases k) auto
    then obtain t' where r: "a \<in> local_acts" "set as \<subseteq> local_acts" "p = Ended" "same t' u"
        "run_section A fs True (At_acts (a # as) None) (wst ?w) = ret (t', None)"
      using o At_acts by auto
    then obtain u1 where u1: "do_act fs a (wst ?w) = ret u1" "run_section A fs True (At_acts as None) u1 = ret (t', None)"
      by (auto simp: seq_eq_ret)
    have t: "do_act fs a (look P i) = ret t" "pc = At_acts as None" using st At_acts as by (auto simp: seq_eq_ret)
    have sm: "same u1 t" using local_act_same [OF u1(1) r(1), of "look P i"] lk(1) t(1) by (auto simp: same_def)
    obtain t'' where "run_section A fs True (At_acts as None) t = ret (t'', None)" "same t' t''"
      using run_local_same [OF u1(2) r(2) sm] by blast
    then have "outside A fs pc t (u, p)" using t(2) r by (cases as) (auto simp: same_def)
    moreover have "fsys t = shared P" using local_act(2) [OF t(1) r(1)] lk(2) by simp
    moreover have "local_left pc < local_left (wpc ?w)" using t(2) At_acts as by simp
    ultimately show ?thesis using stay by simp
  qed (use o w in simp_all)
qed

text \<open>A thread takes the mutex for a section that goes wrong.\<close>

definition goes_wrong :: "alloc \<Rightarrow> 'd file_ops \<Rightarrow> 'd pool \<Rightarrow> 'd system \<Rightarrow> 'd pool \<Rightarrow> bool" where
  "goes_wrong A fs P S P' \<longleftrightarrow> (\<exists>i < length (workers P). wants_lock (wpc (workers P ! i)) \<and> holder P = None \<and>
     holder P' = Some i \<and> bad_section A fs S i)"

lemma pool_step_sim:
  assumes m: "matches A fs P S" and "pool_step A fs P P'"
  shows "matches A fs P' S \<and> (P', P) \<in> less_work A fs \<or> (\<exists>S'. srv_step A fs S S' \<and> matches A fs P' S') \<or> goes_wrong A fs P S P'"
proof -
  obtain i t pc where i: "i < length (workers P)" "wpc (workers P ! i) \<noteq> At_end" "next_of A fs P i = ret (t, pc)"
      and P': "P' = put P i t pc" using assms(2) by (auto elim!: pool_step_cases)
  consider "holder P = Some i" | "holder P \<noteq> Some i" "\<not> wants_lock (wpc (workers P ! i))"
    | (lock) "holder P \<noteq> Some i" "wants_lock (wpc (workers P ! i))" by blast
  then show ?thesis
  proof cases
    case lock
    have "holder P' = Some i" using lock(2) P' by (simp add: holder_put)
    then show ?thesis using sim_lock [OF m i(1) lock(2,1) i(3)] lock_free [OF i(3) lock(2)] lock(2) i(1) P'
      unfolding goes_wrong_def by blast
  qed (use sim_inside [OF m i(1) _ i(3)] sim_local [OF m i(1) _ i(2) _ i(3)] P' in blast)+
qed

interpretation sections: stuttering "pool_step A fs" "srv_step A fs" "matches A fs" "goes_wrong A fs" "less_work A fs" for A fs
  by unfold_locales (use pool_step_sim wf_less_work in blast)+

section \<open>Progress\<close>

text \<open>The next step of a thread is never undefined, and it blocks only where another thread holds the mutex.\<close>

lemma inside_next:
  assumes m: "matches A fs P S" and i: "i < length (workers P)" and h: "holder P = Some i"
  shows "\<exists>t pc. next_of A fs P i = ret (t, pc)" "wpc (workers P ! i) \<noteq> At_end"
proof -
  let ?pc = "wpc (workers P ! i)"
  obtain t' k where ins: "\<not> wants_lock ?pc" "\<not> aesdsocket_mutex t'" "run_section A fs True ?pc (look P i) = ret (t', k)"
    using matchesD(1) [OF m i h] by (auto simp: inside_def)
  have mx: "aesdsocket_mutex (look P i)" using h ins(1) by (simp add: look_def)
  then have b: "boundary ?pc = None" using ins(2,3) boundary_SomeD [of ?pc] by (cases "boundary ?pc") auto
  show "\<exists>t pc. next_of A fs P i = ret (t, pc)" using ins(3) by (auto simp: run_step [OF b] seq_eq_ret)
  show "?pc \<noteq> At_end" using b by auto
qed

lemma outside_next:
  assumes m: "matches A fs P S" and i: "i < length (workers P)" and h: "holder P \<noteq> Some i"
  shows "(\<exists>t pc. next_of A fs P i = ret (t, pc)) \<or>
    next_of A fs P i = Some Blocked \<and> wants_lock (wpc (workers P ! i)) \<and> holder P \<noteq> None"
proof -
  let ?w = "workers P ! i"
  obtain u p where c: "conns S ! i = (u, p)" by fastforce
  note o = matchesD(2) [OF m i h, unfolded c]
  have lk: "aesdsocket_mutex (look P i) \<longleftrightarrow> holder P \<noteq> None" if "wants_lock (wpc ?w)" using that by (simp add: look_def)
  show ?thesis
  proof (cases "wpc ?w")
    case At_malloc
    then show ?thesis by (cases "malloc A 1024") auto
  next
    case (At_lock buffer)
    then show ?thesis using lk by (cases "holder P") (auto simp: pthread_mutex_lock_def)
  next
    case (At_acts acts k)
    show ?thesis
    proof (cases acts)
      case Nil
      then show ?thesis using At_acts lk by (cases k; cases "holder P") (auto simp: pthread_mutex_lock_def)
    next
      case (Cons a as)
      then have r: "k = None" "a \<in> local_acts" "\<exists>t'. do_act fs a (wst ?w) = ret t'"
        using o At_acts by (cases k; auto simp: seq_eq_ret)+
      moreover have "same (wst ?w) (look P i)" by (simp add: look_def Let_def same_def)
      ultimately show ?thesis using local_act_same [of fs a "wst ?w" _ "look P i"] At_acts Cons by fastforce
    qed
  qed (use o in simp_all)
qed

lemma matches_safe:
  assumes "matches A fs P S" and "i < length (workers P)"
  shows "next_of A fs P i \<noteq> Some Undefined" and "next_of A fs P i \<noteq> None"
    and "next_of A fs P i = Some Blocked \<Longrightarrow> wants_lock (wpc (workers P ! i)) \<and> holder P \<noteq> None \<and> holder P \<noteq> Some i"
proof -
  have "(\<exists>t pc. next_of A fs P i = ret (t, pc)) \<or>
    next_of A fs P i = Some Blocked \<and> wants_lock (wpc (workers P ! i)) \<and> holder P \<noteq> None \<and> holder P \<noteq> Some i"
    using inside_next(1) [OF assms] outside_next [OF assms] by (cases "holder P = Some i") auto
  then show "next_of A fs P i \<noteq> Some Undefined" and "next_of A fs P i \<noteq> None"
    and "next_of A fs P i = Some Blocked \<Longrightarrow> wants_lock (wpc (workers P ! i)) \<and> holder P \<noteq> None \<and> holder P \<noteq> Some i"
    by (auto simp: ret_def)
qed

lemma matches_progress:
  assumes m: "matches A fs P S" and i: "i < length (workers P)" "wpc (workers P ! i) \<noteq> At_end"
    and talk: "\<forall>w \<in> set (workers P). \<not> waiting w"
  shows "\<exists>P'. pool_step A fs P P'"
proof (cases "holder P")
  case (Some h)
  then have h: "h < length (workers P)" using m by (simp add: matches_def)
  then show ?thesis using inside_next [OF m h Some] talk pool_step.intros [OF h] by (metis nth_mem)
next
  case None
  then show ?thesis using outside_next [OF m i(1)] i talk pool_step.intros [OF i] by (metis nth_mem option.distinct(1))
qed

text \<open>The sections left decrease with every section.\<close>

fun phases_left :: "phase \<Rightarrow> nat" where
  "phases_left Fresh = 2"
| "phases_left (Stored buffer n) = 1"
| "phases_left Ended = 0"

definition sections_left :: "'d system \<Rightarrow> nat" where
  "sections_left S = (\<Sum>c \<leftarrow> conns S. phases_left (snd c))"

lemma sections_left_publish:
  assumes "i < length (conns S)" and "phases_left p < phases_left (snd (conns S ! i))"
  shows "sections_left (publish S i t p) < sections_left S"
proof -
  let ?xs = "map (\<lambda>c. phases_left (snd c)) (conns S)"
  have "?xs ! i \<le> sum_list ?xs" using assms(1) by (intro elem_le_sum_list) simp
  then show ?thesis using assms
    by (simp add: sections_left_def publish_def map_update sum_list_update)
qed

lemma srv_step_sections_left: "srv_step A fs S S' \<Longrightarrow> sections_left S' < sections_left S"
  by (erule srv_step_cases)
    (auto intro!: sections_left_publish simp: next_phase_def split: option.split prod.split)

section \<open>On the driver\<close>

text \<open>
  The only section that goes wrong on the driver is a seek command that the device rejects. The
  thread \<open>i\<close> is before the first section, the mutex is free, and the device does not have the position
  that its client asks for.
\<close>

definition refused :: "alloc \<Rightarrow> vfs pool \<Rightarrow> nat \<Rightarrow> bool" where
  "refused A P i \<longleftrightarrow> i < length (workers P) \<and> holder P = None \<and> (\<exists>buffer. wpc (workers P ! i) = At_lock buffer) \<and>
     (let m = received_message A (rx (wst (workers P ! i)))
      in is_command m \<and> command_reply (vfs_log (shared P)) m = None)"

text \<open>On the way from \<open>P0\<close> to \<open>P\<close> such a thread has taken the mutex.\<close>

definition rejection :: "alloc \<Rightarrow> umem kernel \<Rightarrow> vfs pool \<Rightarrow> vfs pool \<Rightarrow> bool" where
  "rejection A K P0 P \<longleftrightarrow> (\<exists>P1 P2 i. (pool_step A (vfs_ops K))\<^sup>*\<^sup>* P0 P1 \<and> refused A P1 i \<and>
     pool_step A (vfs_ops K) P1 P2 \<and> holder P2 = Some i \<and> (pool_step A (vfs_ops K))\<^sup>*\<^sup>* P2 P)"

lemma bad_section_command:
  assumes A: "alloc_ok A" "alloc_serves A limit" "limit < 2 ^ 63" and ok: "sys_ok A limit K F S"
    and i: "i < length (conns S)" "bad_section A (vfs_ops K) S i"
  obtains t where "conns S ! i = (t, Fresh)" "is_command (received_message A (rx t))"
    "command_reply (vfs_log (device S)) (received_message A (rx t)) = None"
proof -
  obtain t p where c: "conns S ! i = (t, p)" by fastforce
  have free: "\<not> aesdsocket_mutex t'" if "sys_ok A limit K F (publish S i t' q)" for t' q
    using that by (simp add: sys_ok_def publish_def)
  show thesis
  proof (cases p)
    case Fresh
    show ?thesis
    proof (cases "is_command (received_message A (rx t))")
      case True
      then have "command_reply (vfs_log (device S)) (received_message A (rx t)) = None"
        using fresh_command [OF A ok i(1)] c Fresh i(2) free
        by (fastforce simp: bad_section_def section_at_def split: option.splits)
      then show ?thesis using that True c Fresh by blast
    next
      case False
      obtain t' buffer n where "first_section A (vfs_ops K) True (view S t) = ret (t', Some (buffer, n))"
        "sys_ok A limit K F (publish S i t' (Stored buffer n))"
        using fresh_message [OF A ok i(1)] c Fresh False by blast
      then show ?thesis using i(2) c Fresh free by (auto simp: bad_section_def section_at_def)
    qed
  next
    case (Stored buffer n)
    obtain t' where "second_section (vfs_ops K) (view S t) buffer n = ret t'" "sys_ok A limit K F (publish S i t' Ended)"
      using stored_section [OF ok i(1)] c Stored by blast
    then show ?thesis using i(2) c Stored free by (auto simp: bad_section_def section_at_def)
  next
    case Ended
    then show ?thesis using i(2) c ok by (auto simp: bad_section_def section_at_def sys_ok_def)
  qed
qed

lemma goes_wrong_refused:
  assumes A: "alloc_ok A" "alloc_serves A limit" "limit < 2 ^ 63" and ok: "sys_ok A limit K F S"
    and m: "matches A (vfs_ops K) P S" and "goes_wrong A (vfs_ops K) P S P'"
  shows "\<exists>i. refused A P i \<and> holder P' = Some i"
proof -
  obtain i where i: "i < length (workers P)" "wants_lock (wpc (workers P ! i))" "holder P = None" "holder P' = Some i"
      "bad_section A (vfs_ops K) S i" using assms(6) by (auto simp: goes_wrong_def)
  have "i < length (conns S)" using i(1) m by (simp add: matches_def)
  then obtain t where t: "conns S ! i = (t, Fresh)" "is_command (received_message A (rx t))"
      "command_reply (vfs_log (device S)) (received_message A (rx t)) = None"
    by (rule bad_section_command [OF A ok _ i(5)])
  have "outside A (vfs_ops K) (wpc (workers P ! i)) (wst (workers P ! i)) (t, Fresh)"
    using matchesD(2) [OF m i(1)] i(3) t(1) by simp
  then have "(\<exists>buffer. wpc (workers P ! i) = At_lock buffer) \<and> rx (wst (workers P ! i)) = rx t"
    using i(2) by (cases "wpc (workers P ! i)" rule: wants_lock.cases) (auto simp: same_def)
  moreover have "shared P = device S" using m i(3) by (simp add: matches_def)
  ultimately have "refused A P i" using t i(1,3) by (simp add: refused_def Let_def)
  then show ?thesis using i(4) by blast
qed

text \<open>The threads before their first call, for the connections of a system.\<close>

definition starts :: "'d pool \<Rightarrow> 'd system \<Rightarrow> bool" where
  "starts P S \<longleftrightarrow> holder P = None \<and> shared P = device S \<and> length (workers P) = length (conns S) \<and>
     (\<forall>i < length (conns S). snd (conns S ! i) = Fresh \<and> wpc (workers P ! i) = At_malloc \<and> wst (workers P ! i) = fst (conns S ! i))"

lemma outside_malloc: "outside A fs At_malloc w c \<longleftrightarrow> snd c = Fresh \<and> same w (fst c)"
  by (cases c) simp

lemma start_matches:
  assumes "sys_ok A limit K F S" and "starts P S"
  shows "matches A fs P S"
  using assms by (auto simp: matches_def starts_def sys_ok_def outside_malloc)

text \<open>A step changes neither the number of threads nor the behaviour of the clients.\<close>

lemma pool_steps_hangs:
  assumes "(pool_step A fs)\<^sup>*\<^sup>* P P'"
  shows "map hangs (workers P') = map hangs (workers P)"
  using assms
proof (induction rule: rtranclp_induct)
  case (step Q R)
  have "map hangs (workers R) = map hangs (workers Q)"
    using step(2) by (auto elim!: pool_step_cases simp: put_def Let_def map_update list_update_same_conv)
  then show ?case using step(3) by simp
qed simp

lemma pool_steps_length: "(pool_step A fs)\<^sup>*\<^sup>* P P' \<Longrightarrow> length (workers P') = length (workers P)"
  using pool_steps_hangs [of A fs P P'] by (metis length_map)

end
