(* ===== verification/Interleave_Claims.thy ===== *)
theory Interleave_Claims
  imports Server_Interleave
begin

text \<open>
  The properties of the connection threads interleaved call by call on the character driver: they
  are atomic, they finish, their replies are those of a sequential log, and what a client that
  keeps its connection open and silent does to the others.
\<close>

section \<open>Atomicity\<close>

lemma atomic_run:
  assumes "alloc_ok A" and "alloc_serves A limit" and "limit < 2 ^ 63" and "sys_ok A limit K F S0" and "starts P0 S0"
    and "(pool_step A (vfs_ops K))\<^sup>*\<^sup>* P0 P" and "\<not> rejection A K P0 P"
  obtains S where "(srv_step A (vfs_ops K))\<^sup>*\<^sup>* S0 S" "sys_ok A limit K F S" "matches A (vfs_ops K) P S"
proof -
  let ?c = "pool_step A (vfs_ops K)"
  obtain S where S: "(srv_step A (vfs_ops K))\<^sup>*\<^sup>* S0 S"
      "matches A (vfs_ops K) P S \<or>
       (\<exists>P1 P2. ?c\<^sup>*\<^sup>* P0 P1 \<and> matches A (vfs_ops K) P1 S \<and> goes_wrong A (vfs_ops K) P1 S P2 \<and> ?c P1 P2 \<and> ?c\<^sup>*\<^sup>* P2 P)"
    using sections.runs [OF assms(6) start_matches [OF assms(4,5)]] by blast
  have ok: "sys_ok A limit K F S" by (rule srv_steps_ok [OF assms(1-3) S(1) assms(4)])
  then have "matches A (vfs_ops K) P S"
    using S(2) goes_wrong_refused [OF assms(1-3) ok] assms(7) by (fastforce simp: rejection_def)
  then show thesis using that S(1) ok by blast
qed

lemma matches_end:
  assumes "matches A fs P S" and "i < length (workers P)" and "wpc (workers P ! i) = At_end"
  shows "snd (conns S ! i) = Ended \<and> same (wst (workers P ! i)) (fst (conns S ! i))"
proof -
  have "holder P \<noteq> Some i" using inside_next(2) [OF assms(1,2)] assms(3) by blast
  from matchesD(2) [OF assms(1,2) this] assms(3) show ?thesis by (cases "conns S ! i") auto
qed

lemma matches_observed:
  assumes "matches A fs P S"
  shows "(holder P = None \<longrightarrow> shared P = device S) \<and>
     (\<forall>i < length (workers P).
        next_of A fs P i \<noteq> None \<and> next_of A fs P i \<noteq> Some Undefined \<and>
        (next_of A fs P i = Some Blocked \<longrightarrow> wants_lock (wpc (workers P ! i)) \<and> holder P \<noteq> None \<and> holder P \<noteq> Some i) \<and>
        (wpc (workers P ! i) = At_end \<longrightarrow> snd (conns S ! i) = Ended \<and> same (wst (workers P ! i)) (fst (conns S ! i))))"
  by (intro conjI [OF _ allI] impI conjI matches_safe [OF assms] matches_end [OF assms, THEN conjunct1]
      matches_end [OF assms, THEN conjunct2])
    (use assms matches_safe(3) [OF assms] in \<open>auto simp: matches_def\<close>)


text \<open>
  A thread before its section has received nothing yet, so a connection that did not begin with a seek command
  is never refused.
\<close>

lemma unlocked_step:
  assumes "thread_step A fs use_dev pc0 t = ret (t', pc')" and "pc' = At_malloc \<or> (\<exists>buffer. pc' = At_lock buffer)"
  shows "pc0 = At_malloc \<and> rx t' = rx t"
proof (cases pc0)
  case (At_acts as k)
  then show ?thesis using assms by (cases as; cases k) (auto simp: seq_eq_ret)
next
  case (At_scan buffer n)
  then show ?thesis using assms scan_step(2) by fastforce
next
  case (At_read room n fd acts)
  then show ?thesis using assms read_step_cases(2) by fastforce
qed (use assms in \<open>auto simp: seq_eq_ret split: option.splits prod.splits if_splits\<close>)

lemma unlocked_rx:
  assumes "(pool_step A fs)\<^sup>*\<^sup>* P0 P" and "i < length (workers P0)"
    and "wpc (workers P ! i) = At_malloc \<or> (\<exists>buffer. wpc (workers P ! i) = At_lock buffer)"
  shows "rx (wst (workers P ! i)) = rx (wst (workers P0 ! i))"
  using assms
proof (induction rule: rtranclp_induct)
  case (step Q R)
  obtain j t pc where j: "j < length (workers Q)" "next_of A fs Q j = ret (t, pc)" "R = put Q j t pc"
    using step(2) by (auto elim!: pool_step_cases)
  show ?case
  proof (cases "j = i")
    case True
    then have "wpc (workers Q ! i) = At_malloc" "rx t = rx (look Q i)" using unlocked_step [OF j(2)] step(5) j by auto
    moreover have "rx (look Q i) = rx (wst (workers Q ! i))" by (simp add: look_def Let_def)
    ultimately show ?thesis using step(3) [OF step(4)] True j by simp
  qed (use step j in simp)
qed simp

lemma no_commands_no_rejection:
  assumes "\<forall>w \<in> set (workers P0). \<not> is_command (received_message A (rx (wst w)))"
  shows "\<not> rejection A K P0 P"
proof
  assume "rejection A K P0 P"
  then obtain P1 i where P1: "(pool_step A (vfs_ops K))\<^sup>*\<^sup>* P0 P1" "refused A P1 i" by (auto simp: rejection_def)
  then have i: "i < length (workers P0)" using pool_steps_length [OF P1(1)] by (simp add: refused_def)
  then have "rx (wst (workers P1 ! i)) = rx (wst (workers P0 ! i))"
    using P1(2) by (intro unlocked_rx [OF P1(1)]) (auto simp: refused_def)
  then show False using P1(2) assms i by (auto simp: refused_def Let_def)
qed

text \<open>Two connections on the concrete device.\<close>

definition demo_pool :: "vfs pool" where
  "demo_pool = \<lparr>holder = None, shared = demo_vfs,
     workers = [\<lparr>wst = demo_thread [[97, 10]], wpc = At_malloc, hangs = False\<rparr>, \<lparr>wst = demo_thread [[97, 10]], wpc = At_malloc, hangs = False\<rparr>]\<rparr>"

lemma demo_starts: "starts demo_pool demo_sys"
  by (auto simp: starts_def demo_pool_def demo_sys_def less_Suc_eq)

text \<open>The first thread has allocated its buffer and locked the mutex.\<close>

definition demo_pool_locked :: "vfs pool" where
  "demo_pool_locked = \<lparr>holder = Some 0, shared = demo_vfs,
     workers = [\<lparr>wst = (demo_thread [[97, 10]])\<lparr>live_bufs := 1, aesdsocket_mutex := True\<rparr>, wpc = At_recv (replicate 1024 0) 1024 0, hangs = False\<rparr>,
       \<lparr>wst = demo_thread [[97, 10]], wpc = At_malloc, hangs = False\<rparr>]\<rparr>"

lemma demo_locked: "(pool_step zero_alloc (vfs_ops srv_kernel))\<^sup>*\<^sup>* demo_pool demo_pool_locked"
proof -
  let ?t = "(look demo_pool 0)\<lparr>live_bufs := live_bufs (look demo_pool 0) + 1\<rparr>"
  let ?P = "put demo_pool 0 ?t (At_lock (replicate 1024 0))"
  have "malloc zero_alloc 1024 = Some (replicate 1024 0)" by (simp add: zero_alloc_def)
  then have "pool_step zero_alloc (vfs_ops srv_kernel) demo_pool ?P"
    by (intro pool_step.intros) (simp_all add: demo_pool_def waiting_def)
  moreover have "pool_step zero_alloc (vfs_ops srv_kernel) ?P (put ?P 0 ((look ?P 0)\<lparr>aesdsocket_mutex := True\<rparr>) (At_recv (replicate 1024 0) 1024 0))"
    by (intro pool_step.intros)
      (simp_all add: demo_pool_def waiting_def look_def put_def Let_def pthread_mutex_lock_def)
  moreover have "put ?P 0 ((look ?P 0)\<lparr>aesdsocket_mutex := True\<rparr>) (At_recv (replicate 1024 0) 1024 0) = demo_pool_locked"
    by (simp add: demo_pool_locked_def demo_pool_def look_def put_def Let_def demo_thread_def)
  ultimately show ?thesis by (metis r_into_rtranclp rtranclp.rtrancl_into_rtrancl)
qed

lemma demo_no_rejection: "\<not> rejection zero_alloc K demo_pool P"
  by (rule no_commands_no_rejection) (simp add: demo_pool_def demo_message)


section \<open>Termination\<close>

text \<open>
  (C8) Every interleaving finishes. The clients each send at least one byte and the allocator serves
  buffers for what they send (\<open>sys_ok\<close>, \<open>alloc_serves\<close>), and the device can be opened (\<open>vfs_good\<close>).
  When moreover no client stays silent and no seek command to a position outside the log is begun, there is no infinite sequence of steps; and where no step is possible any more the mutex is free and every
  thread has returned, closed its socket once, freed its buffer and set its flag.
\<close>

theorem interleavings_finish:
  assumes "alloc_ok A" and "alloc_serves A limit" and "limit < 2 ^ 63" and "sys_ok A limit K F S0" and "starts P0 S0"
    and "\<forall>w \<in> set (workers P0). \<not> hangs w" and "\<forall>P. (pool_step A (vfs_ops K))\<^sup>*\<^sup>* P0 P \<longrightarrow> \<not> rejection A K P0 P"
  shows "\<not> (\<exists>f. f 0 = P0 \<and> (\<forall>n. pool_step A (vfs_ops K) (f n) (f (Suc n)))) \<and>
    (\<forall>P. (pool_step A (vfs_ops K))\<^sup>*\<^sup>* P0 P \<and> \<not> (\<exists>P'. pool_step A (vfs_ops K) P P') \<longrightarrow>
       holder P = None \<and>
       (\<forall>w \<in> set (workers P). wpc w = At_end \<and> closes (wst w) = 1 \<and> live_bufs (wst w) = 0 \<and> status (wst w)))"
proof (intro conjI allI impI)
  have no_bad: "\<not> goes_wrong A (vfs_ops K) P1 S P2" if "(pool_step A (vfs_ops K))\<^sup>*\<^sup>* P0 P1" "(srv_step A (vfs_ops K))\<^sup>*\<^sup>* S0 S"
      "matches A (vfs_ops K) P1 S" "pool_step A (vfs_ops K) P1 P2" for P1 S P2
  proof
    assume "goes_wrong A (vfs_ops K) P1 S P2"
    from goes_wrong_refused [OF assms(1-3) srv_steps_ok [OF assms(1-3) that(2) assms(4)] that(3) this]
    have "rejection A K P0 P2" using that(1,4) unfolding rejection_def by blast
    then show False using assms(7) rtranclp.rtrancl_into_rtrancl [OF that(1,4)] by blast
  qed
  have "Wellfounded.accp (pool_step A (vfs_ops K))\<inverse>\<inverse> P0"
    by (rule sections.runs_end [where rank = sections_left, OF srv_step_sections_left start_matches [OF assms(4,5)] no_bad])
  then show "\<not> (\<exists>f. f 0 = P0 \<and> (\<forall>n. pool_step A (vfs_ops K) (f n) (f (Suc n))))" by (rule accp_no_chain)
next
  fix P assume P: "(pool_step A (vfs_ops K))\<^sup>*\<^sup>* P0 P \<and> \<not> (\<exists>P'. pool_step A (vfs_ops K) P P')"
  obtain S where S: "(srv_step A (vfs_ops K))\<^sup>*\<^sup>* S0 S" "sys_ok A limit K F S" "matches A (vfs_ops K) P S"
    by (rule atomic_run [OF assms(1-5) conjunct1 [OF P]]) (use P assms(7) in blast)
  note m = S(3)
  have "hangs ` set (workers P) = hangs ` set (workers P0)" using pool_steps_hangs [OF conjunct1 [OF P]] by (metis list.set_map)
  then have talk: "\<forall>w \<in> set (workers P). \<not> waiting w" using assms(6) by (auto simp: waiting_def)
  have ended: "wpc (workers P ! i) = At_end" if "i < length (workers P)" for i
    using matches_progress [OF m that _ talk] P by blast
  show "holder P = None"
  proof (cases "holder P")
    case (Some h)
    then have "h < length (workers P)" using m by (simp add: matches_def)
    then show ?thesis using inside_next(2) [OF m _ Some] ended by blast
  qed simp
  show "\<forall>w \<in> set (workers P). wpc w = At_end \<and> closes (wst w) = 1 \<and> live_bufs (wst w) = 0 \<and> status (wst w)"
  proof
    fix w assume "w \<in> set (workers P)"
    then obtain i where i: "i < length (workers P)" "w = workers P ! i" by (metis in_set_conv_nth)
    then have e: "snd (conns S ! i) = Ended" "same (wst w) (fst (conns S ! i))" using matches_end [OF m i(1)] ended by simp_all
    have "i < length (conns S)" using i(1) m by (simp add: matches_def)
    from sys_ok_conn [OF S(2) this] e ended i
    show "wpc w = At_end \<and> closes (wst w) = 1 \<and> live_bufs (wst w) = 0 \<and> status (wst w)"
      by (cases "conns S ! i") (simp add: same_def)
  qed
qed

theorem interleavings_finish_witness:
  "\<not> (\<exists>f. f 0 = demo_pool \<and> (\<forall>n. pool_step zero_alloc (vfs_ops srv_kernel) (f n) (f (Suc n))))"
  using interleavings_finish [OF zero_alloc_ok zero_alloc_serves _ demo_sys_ok demo_starts] demo_no_rejection
  by (simp add: demo_pool_def)

section \<open>Silent clients\<close>

fun between_sections :: "tpc \<Rightarrow> bool" where
  "between_sections At_malloc = True"
| "between_sections (At_lock buffer) = True"
| "between_sections (At_acts [] (Some p)) = True"
| "between_sections (At_acts acts None) = (set acts \<subseteq> local_acts)"
| "between_sections pc = False"

definition unserved :: "tpc \<Rightarrow> bool" where
  "unserved pc \<longleftrightarrow> pc = At_malloc \<or> wants_lock pc"

lemma blocked_lock: "wants_lock (wpc (workers P ! j)) \<Longrightarrow> holder P \<noteq> None \<Longrightarrow> next_of A fs P j = Some Blocked"
  by (cases "wpc (workers P ! j)" rule: wants_lock.cases) (auto simp: pthread_mutex_lock_def look_def)

text \<open>What a thread that is between its sections can do while another one holds the mutex.\<close>

lemma between_step:
  assumes "between_sections (wpc (workers P ! j))" and "next_of A fs P j = ret (t, pc)" and "holder P \<noteq> None" and "holder P \<noteq> Some j"
    and "malloc A 1024 \<noteq> None"
  shows "fsys t = shared P" "tx t = tx (wst (workers P ! j))" "between_sections pc"
    "unserved (wpc (workers P ! j)) \<Longrightarrow> unserved pc" "holder (put P j t pc) = holder P"
proof -
  let ?w = "workers P ! j"
  have nl: "\<not> wants_lock (wpc ?w)" using blocked_lock [of P j A fs] assms(2,3) by auto
  then show "holder (put P j t pc) = holder P" using assms(4) by (simp add: holder_put)
  have lk: "fsys (look P j) = shared P" "tx (look P j) = tx (wst ?w)" by (simp_all add: look_def Let_def)
  have "fsys t = shared P \<and> tx t = tx (wst ?w) \<and> between_sections pc \<and> (unserved (wpc ?w) \<longrightarrow> unserved pc)"
  proof (cases "wpc ?w")
    case At_malloc
    then show ?thesis using assms(2,5) lk by (auto simp: unserved_def)
  next
    case (At_acts acts k)
    show ?thesis
    proof (cases acts)
      case Nil
      then have e: "wpc ?w = At_end" using At_acts nl by (cases k) auto
      then have "t = look P j" "pc = At_end" using assms(2) by simp_all
      then show ?thesis using e lk by (simp add: unserved_def)
    next
      case (Cons a as)
      then have k: "k = None" "a \<in> local_acts" "set as \<subseteq> local_acts" using assms(1) At_acts by (cases k; simp)+
      moreover have "between_sections (At_acts as None)" using k(3) by (cases as) simp_all
      ultimately show ?thesis using At_acts Cons assms(2) lk
        by (auto simp: seq_eq_ret unserved_def close_sock_def set_status_def free_buffer_def split: if_splits)
    qed
  qed (use assms(1) nl in simp_all)
  then show "fsys t = shared P" "tx t = tx (wst ?w)" "between_sections pc" "unserved (wpc ?w) \<Longrightarrow> unserved pc" by blast+
qed

text \<open>
  (C37) A silent client stops the server: the thread waits in \<open>recv\<close> with the mutex held, so when its client
  keeps the connection open without sending, the thread keeps the mutex for ever; the device does not change
  any more, nothing is sent to any other client, and no thread that has not been served before is
  ever served.
\<close>

theorem silent_client_blocks:
  assumes "malloc A 1024 \<noteq> None" and "i < length (workers P)" and "holder P = Some i" and "waiting (workers P ! i)"
    and "\<forall>j < length (workers P). j \<noteq> i \<longrightarrow> between_sections (wpc (workers P ! j))"
    and "(pool_step A fs)\<^sup>*\<^sup>* P P'"
  shows "holder P' = Some i \<and> workers P' ! i = workers P ! i \<and> shared P' = shared P \<and>
    (\<forall>j < length (workers P). tx (wst (workers P' ! j)) = tx (wst (workers P ! j)) \<and>
       (unserved (wpc (workers P ! j)) \<longrightarrow> unserved (wpc (workers P' ! j))))"
proof -
  let ?I = "\<lambda>Q. length (workers Q) = length (workers P) \<and> holder Q = Some i \<and> workers Q ! i = workers P ! i \<and> shared Q = shared P \<and>
    (\<forall>j < length (workers P). j \<noteq> i \<longrightarrow> between_sections (wpc (workers Q ! j))) \<and>
    (\<forall>j < length (workers P). tx (wst (workers Q ! j)) = tx (wst (workers P ! j)) \<and>
       (unserved (wpc (workers P ! j)) \<longrightarrow> unserved (wpc (workers Q ! j))))"
  have "?I P'" using assms(6)
  proof (induction rule: rtranclp_induct)
    case base
    then show ?case using assms(3,5) by simp
  next
    case (step Q R)
    note q = step(3)
    obtain j t pc where j: "j < length (workers Q)" "\<not> waiting (workers Q ! j)" "next_of A fs Q j = ret (t, pc)" "R = put Q j t pc"
      using step(2) by (auto elim!: pool_step_cases)
    then have ne: "j \<noteq> i" using q assms(4) by auto
    have bt: "between_sections (wpc (workers Q ! j))" using q j(1) ne by simp
    have h: "holder Q \<noteq> None" "holder Q \<noteq> Some j" using q ne by simp_all
    note b = between_step [OF bt j(3) h assms(1)]
    have "tx (wst (workers R ! k)) = tx (wst (workers P ! k)) \<and> (unserved (wpc (workers P ! k)) \<longrightarrow> unserved (wpc (workers R ! k))) \<and>
      (k \<noteq> i \<longrightarrow> between_sections (wpc (workers R ! k)))" if k: "k < length (workers P)" for k
      using q b j k by (cases "k = j") auto
    then show ?case using q b(1,5) j(1,4) ne by simp
  qed
  then show ?thesis by blast
qed

text \<open>The first client is silent, the second one sends a message.\<close>

definition silent_pool :: "vfs pool" where
  "silent_pool = \<lparr>holder = Some 0, shared = demo_vfs,
     workers = [\<lparr>wst = (demo_thread [])\<lparr>live_bufs := 1, aesdsocket_mutex := True\<rparr>, wpc = At_recv (replicate 1024 0) 1024 0, hangs = True\<rparr>,
       \<lparr>wst = demo_thread [[97, 10]], wpc = At_malloc, hangs = False\<rparr>]\<rparr>"

theorem silent_client_blocks_witness:
  "\<forall>P'. \<not> ((pool_step zero_alloc (vfs_ops srv_kernel))\<^sup>*\<^sup>* silent_pool P' \<and> tx (wst (workers P' ! 1)) \<noteq> [])"
proof -
  have "malloc zero_alloc 1024 \<noteq> None" using zero_alloc_serves by (simp add: alloc_serves_def)
  moreover have "waiting (workers silent_pool ! 0)" by (simp add: waiting_def silent_pool_def)
  ultimately show ?thesis
    using silent_client_blocks [of zero_alloc 0 silent_pool "vfs_ops srv_kernel"]
    by (auto simp: silent_pool_def less_Suc_eq)
qed

end
