(* ===== verification/Server_Content.thy ===== *)
theory Server_Content
  imports Interleave_Claims
begin

text \<open>
  The driver while a thread of the server is within a section. The only call of a section that changes
  it is the write, so at every moment it is as before the section or as after it.
\<close>

section \<open>Steps\<close>

text \<open>The points from which a thread may still write in its section.\<close>

fun may_store :: "tpc \<Rightarrow> bool" where
  "may_store At_malloc = True"
| "may_store (At_lock buffer) = True"
| "may_store (At_recv buffer n k) = True"
| "may_store (At_test buffer n k) = True"
| "may_store (At_open buffer n k) = True"
| "may_store (At_write buffer n k fd) = True"
| "may_store pc = False"

lemma do_act_drv: "do_act (vfs_ops K) a t = ret t' \<Longrightarrow> vdrv (fsys t') = vdrv (fsys t)"
  by (cases a) (auto simp: close_sock_def set_status_def free_buffer_def pthread_mutex_unlock_def split: if_splits)

lemma step_drv:
  assumes "thread_step A (vfs_ops K) use_dev pc t = ret (t', pc')" and "\<forall>buffer n k fd. pc \<noteq> At_write buffer n k fd"
  shows "vdrv (fsys t') = vdrv (fsys t) \<or> (\<exists>n fd sk. pc = At_ioctl n fd sk) \<and> vdrv (fsys t') = lock_dev (vdrv (fsys t))"
proof (cases pc)
  case (At_acts as k)
  then show ?thesis using assms(1) do_act_drv
    by (cases as; cases k) (auto simp: seq_eq_ret pthread_mutex_lock_def split: if_splits)
next
  case (At_scan buffer n)
  then show ?thesis using assms scan_step(1) by fastforce
next
  case (At_read room n fd acts)
  then show ?thesis using assms(1)
    by (auto simp: read_step simp del: thread_step.simps dest!: vfs_calls_drv(2) split: outcome.splits option.splits if_splits)
next
  case (At_ioctl n fd sk)
  then show ?thesis using assms(1) vfs_calls_drv(3) [of K "fsys t" fd sk]
    by (cases "vfs_ioctl K (fsys t) fd sk") (auto split: prod.splits)
next
  case (At_seek_open n sk)
  then show ?thesis using assms(1) by (auto dest!: vfs_calls_drv(1) split: prod.splits)
next
  case (At_open buffer n k)
  then show ?thesis using assms(1) by (auto dest!: vfs_calls_drv(1) split: prod.splits)
next
  case (At_reply_open buffer n)
  then show ?thesis using assms(1) by (auto dest!: vfs_calls_drv(1) split: prod.splits)
qed (use assms in \<open>auto simp: seq_eq_ret pthread_mutex_lock_def split: option.splits prod.splits if_splits\<close>)

lemma step_may_store:
  assumes "thread_step A fs use_dev pc t = ret (t', pc')" and "may_store pc'"
  shows "may_store pc \<and> (\<forall>buffer n k fd. pc \<noteq> At_write buffer n k fd)"
proof (cases pc)
  case (At_acts as k)
  then show ?thesis using assms by (cases as; cases k) (auto simp: seq_eq_ret)
next
  case (At_scan buffer n)
  then show ?thesis using assms scan_step(2) by fastforce
next
  case (At_read room n fd acts)
  then show ?thesis using assms read_step_cases(2) by fastforce
qed (use assms in \<open>auto simp: seq_eq_ret split: option.splits prod.splits if_splits\<close>)

lemma run_drv:
  assumes "run_section A (vfs_ops K) use_dev pc t = ret (t', k)" and "\<not> may_store pc" and "\<not> locked (vdrv (fsys t'))"
  shows "vdrv (fsys t') = vdrv (fsys t)"
proof -
  let ?I = "\<lambda>(u, p). (vdrv (fsys u) = vdrv (fsys t) \<or> locked (vdrv (fsys u))) \<and> \<not> may_store p"
  have "(lone_step A (vfs_ops K) use_dev)\<^sup>*\<^sup>* (t, pc) (t', At_acts [] k)"
    using run_shows [of A "vfs_ops K" use_dev pc t] assms(1) by (simp add: shows_as_def ret_def)
  then have "?I (t', At_acts [] k)"
  proof (induction rule: rtranclp_induct)
    case base
    then show ?case using assms(2) by simp
  next
    case (step x y)
    then obtain u p u' p' where x: "x = (u, p)" "y = (u', p')" "thread_step A (vfs_ops K) use_dev p u = ret (u', p')"
      by (auto elim: lone_step.cases)
    then have "\<forall>buffer n k fd. p \<noteq> At_write buffer n k fd" using step(3) by auto
    then show ?case using step(3) x step_drv [OF x(3)] step_may_store [OF x(3)] by auto
  qed
  then show ?thesis using assms(3) by simp
qed

section \<open>Simulation\<close>

text \<open>While the thread in the section may still write, the driver is as before the section.\<close>

definition intact :: "vfs pool \<Rightarrow> vfs system \<Rightarrow> bool" where
  "intact P S \<longleftrightarrow> (\<forall>i. holder P = Some i \<and> may_store (wpc (workers P ! i)) \<longrightarrow> vdrv (shared P) = vdrv (device S))"

lemma look_sel [simp]: "fsys (look P i) = shared P"
  by (simp add: look_def Let_def)

lemma intact_free: "holder P = None \<Longrightarrow> intact P S"
  by (simp add: intact_def)

lemma lock_same_fsys:
  assumes "next_of A fs P i = ret (t, pc)" and "wants_lock (wpc (workers P ! i))"
  shows "fsys t = shared P"
  using assms by (cases "wpc (workers P ! i)" rule: wants_lock.cases) (auto simp: pthread_mutex_lock_def split: if_splits)

lemma pool_step_intact:
  assumes m: "matches A (vfs_ops K) P S" and n: "intact P S" and "pool_step A (vfs_ops K) P P'"
  shows "matches A (vfs_ops K) P' S \<and> intact P' S \<or>
    (\<exists>S'. srv_step A (vfs_ops K) S S' \<and> matches A (vfs_ops K) P' S' \<and> intact P' S') \<or> goes_wrong A (vfs_ops K) P S P'"
proof -
  obtain i t pc where i: "i < length (workers P)" "wpc (workers P ! i) \<noteq> At_end" "next_of A (vfs_ops K) P i = ret (t, pc)"
      and P': "P' = put P i t pc" using assms(3) by (auto elim!: pool_step_cases)
  let ?pc = "wpc (workers P ! i)"
  consider (inside) "holder P = Some i" | (local) "holder P \<noteq> Some i" "\<not> wants_lock ?pc"
    | (lock) "holder P \<noteq> Some i" "wants_lock ?pc" by blast
  then show ?thesis
  proof cases
    case inside
    have "intact P' S" if "holder P' \<noteq> None"
    proof -
      have h: "holder P' = Some i" using that inside P' by (auto simp: holder_put split: if_splits)
      have "vdrv (fsys t) = vdrv (device S)" if "may_store pc"
        using step_may_store [OF i(3) that] step_drv [OF i(3)] n inside by (auto simp: intact_def)
      then show ?thesis using h P' i(1) by (simp add: intact_def)
    qed
    then show ?thesis using sim_inside [OF m i(1) inside i(3)] intact_free P' by blast
  next
    case local
    note l = sim_local [OF m i(1) local(2) i(2) local(1) i(3)]
    have "intact P' S'" if "device S' = device S" for S'
    proof -
      have "holder P' = holder P" using local P' by (simp add: holder_put)
      moreover have "wpc (workers P' ! j) = wpc (workers P ! j)" if "j \<noteq> i" for j using P' that by simp
      ultimately show ?thesis using n that l local(1) P' by (auto simp: intact_def)
    qed
    then show ?thesis using l P' by blast
  next
    case lock
    have "holder P = None" by (rule lock_free [OF i(3) lock(2)])
    then have "shared P = device S" using m by (simp add: matches_def)
    then have "intact P' S" using lock_same_fsys [OF i(3) lock(2)] P' by (simp add: intact_def)
    moreover have "matches A (vfs_ops K) P' S \<or> goes_wrong A (vfs_ops K) P S P'"
      using sim_lock [OF m i(1) lock(2,1) i(3)] lock_free [OF i(3) lock(2)] lock(2) i(1) P' holder_put [of P i t pc]
      unfolding goes_wrong_def by auto
    ultimately show ?thesis by blast
  qed
qed

interpretation contents: simulation "pool_step A (vfs_ops K)" "srv_step A (vfs_ops K)"
    "\<lambda>P S. matches A (vfs_ops K) P S \<and> intact P S" "goes_wrong A (vfs_ops K)" for A K
  by unfold_locales (use pool_step_intact in blast)

lemma contents_run:
  assumes "alloc_ok A" and "alloc_serves A limit" and "limit < 2 ^ 63" and "sys_ok A limit K F S0" and "starts P0 S0"
    and "(pool_step A (vfs_ops K))\<^sup>*\<^sup>* P0 P" and "\<not> rejection A K P0 P"
  obtains S where "(srv_step A (vfs_ops K))\<^sup>*\<^sup>* S0 S" "sys_ok A limit K F S" "matches A (vfs_ops K) P S" "intact P S"
proof -
  let ?c = "pool_step A (vfs_ops K)"
  have "intact P0 S0" using assms(5) by (simp add: starts_def intact_free)
  then obtain S where S: "(srv_step A (vfs_ops K))\<^sup>*\<^sup>* S0 S"
      "(matches A (vfs_ops K) P S \<and> intact P S) \<or>
       (\<exists>P1 P2. ?c\<^sup>*\<^sup>* P0 P1 \<and> (matches A (vfs_ops K) P1 S \<and> intact P1 S) \<and> goes_wrong A (vfs_ops K) P1 S P2 \<and> ?c P1 P2 \<and> ?c\<^sup>*\<^sup>* P2 P)"
    using contents.runs [OF assms(6)] start_matches [OF assms(4,5)] by blast
  have ok: "sys_ok A limit K F S" by (rule srv_steps_ok [OF assms(1-3) S(1) assms(4)])
  then have "matches A (vfs_ops K) P S \<and> intact P S"
    using S(2) goes_wrong_refused [OF assms(1-3) ok] assms(7) by (fastforce simp: rejection_def)
  then show thesis using that S(1) ok by blast
qed

text \<open>So there is a moment between two sections at which the driver is as it is now.\<close>

lemma untorn:
  assumes A: "alloc_ok A" "alloc_serves A limit" "limit < 2 ^ 63" and ok: "sys_ok A limit K F S"
    and m: "matches A (vfs_ops K) P S" and n: "intact P S"
  obtains S' where "S' = S \<or> srv_step A (vfs_ops K) S S'" "vdrv (device S') = vdrv (shared P)"
    "\<And>i. i < length (workers P) \<Longrightarrow> wpc (workers P ! i) = At_end \<Longrightarrow> conns S' ! i = conns S ! i"
proof (cases "\<exists>i. holder P = Some i \<and> \<not> may_store (wpc (workers P ! i))")
  case False
  then have "vdrv (device S) = vdrv (shared P)"
    using m n by (cases "holder P") (auto simp: matches_def intact_def)
  then show ?thesis using that [of S] by blast
next
  case True
  then obtain i where i: "holder P = Some i" "\<not> may_store (wpc (workers P ! i))" by blast
  have len: "i < length (workers P)" "i < length (conns S)" using m i(1) by (simp_all add: matches_def)
  obtain t' k where sec: "section_at A (vfs_ops K) S i = ret (t', k)" "snd (conns S ! i) \<noteq> Ended"
      "run_section A (vfs_ops K) True (wpc (workers P ! i)) (look P i) = ret (t', k)"
    using matchesD(1) [OF m len(1) i(1)] by (auto simp: inside_def)
  let ?S = "publish S i t' (next_phase k)"
  have step: "srv_step A (vfs_ops K) S ?S" by (rule section_step [OF len(2) sec(2,1)])
  have "vfs_good K F (device ?S)" using srv_step_ok [OF A step ok] by (simp add: sys_ok_def)
  then have "\<not> locked (vdrv (fsys t'))" by (simp add: vfs_good_def publish_def)
  then have "vdrv (device ?S) = vdrv (shared P)" using run_drv [OF sec(3) i(2)] by (simp add: publish_def)
  moreover have "conns ?S ! j = conns S ! j" if "j < length (workers P)" "wpc (workers P ! j) = At_end" for j
  proof -
    have "j \<noteq> i" using inside_next(2) [OF m len(1) i(1)] that(2) by blast
    then show ?thesis by (simp add: publish_def)
  qed
  ultimately show ?thesis using that [of ?S] step by blast
qed

end
