(* ===== verification/Server_History.thy ===== *)
theory Server_History
  imports Server_Content
begin

text \<open>
  The answers of the server as those of a log that handles one message at a time: for every
  interleaving there is an order of the messages stored, and every client is answered from the log
  as it stands at one moment of that order, after its own message.
\<close>

section \<open>Histories\<close>

text \<open>
  \<open>dev k\<close> is the state of the driver after the first \<open>k\<close> messages, \<open>who k\<close> the connection that
  sent message \<open>k\<close>, \<open>n\<close> the number of messages written so far. From one state to the next is one call of
  \<open>aesd_write\<close> with the message.
\<close>

definition message_of :: "alloc \<Rightarrow> 'd system \<Rightarrow> nat \<Rightarrow> byte list" where
  "message_of A S0 i = received_message A (rx (fst (conns S0 ! i)))"

text \<open>An answer to connection \<open>i\<close> that the history allows.\<close>

definition answered :: "alloc \<Rightarrow> 'd system \<Rightarrow> nat \<Rightarrow> (nat \<Rightarrow> drv) \<Rightarrow> (nat \<Rightarrow> nat) \<Rightarrow> nat \<Rightarrow> byte list \<Rightarrow> bool" where
  "answered A S0 n dev who i bs \<longleftrightarrow>
     (if is_command (message_of A S0 i) then \<exists>k \<le> n. command_reply (drv_cmds (dev k)) (message_of A S0 i) = Some bs
      else \<exists>k < n. who k = i \<and> (\<exists>k' \<le> n. k < k' \<and> bs = concat (drv_cmds (dev k'))))"

fun recorded ::
  "alloc \<Rightarrow> 'd system \<Rightarrow> nat \<Rightarrow> (nat \<Rightarrow> drv) \<Rightarrow> (nat \<Rightarrow> nat) \<Rightarrow> nat \<Rightarrow> 'd tstate \<times> phase \<Rightarrow> bool" where
  "recorded A S0 n dev who i (t, Fresh) \<longleftrightarrow> t = fst (conns S0 ! i) \<and> (\<forall>k < n. who k \<noteq> i)"
| "recorded A S0 n dev who i (t, Stored buffer m) \<longleftrightarrow> \<not> is_command (message_of A S0 i) \<and> (\<exists>k < n. who k = i)"
| "recorded A S0 n dev who i (t, Ended) \<longleftrightarrow> answered A S0 n dev who i (concat (tx t))"

definition history :: "alloc \<Rightarrow> umem kernel \<Rightarrow> vfs system \<Rightarrow> vfs system \<Rightarrow> nat \<Rightarrow> (nat \<Rightarrow> drv) \<Rightarrow> (nat \<Rightarrow> nat) \<Rightarrow> bool" where
  "history A K S0 S n dev who \<longleftrightarrow>
     dev 0 = vdrv (device S0) \<and> dev n = vdrv (device S) \<and>
     inj_on who {..<n} \<and>
     (\<forall>k < n. who k < length (conns S0) \<and> driver_takes K (dev k) (message_of A S0 (who k)) (dev (Suc k))) \<and>
     length (conns S) = length (conns S0) \<and> (\<forall>i < length (conns S0). recorded A S0 n dev who i (conns S ! i))"

lemma history_start:
  assumes "\<forall>i < length (conns S). snd (conns S ! i) = Fresh"
  shows "history A K S S 0 (\<lambda>k. vdrv (device S)) (\<lambda>k. 0)"
proof -
  have "recorded A S 0 dev who i (conns S ! i)" if "i < length (conns S)" for i dev who
    using assms that by (cases "conns S ! i") auto
  then show ?thesis by (simp add: history_def)
qed

lemma answeredI:
  "\<not> is_command (message_of A S0 i) \<Longrightarrow> k < n \<Longrightarrow> who k = i \<Longrightarrow> k < k' \<Longrightarrow> k' \<le> n \<Longrightarrow> bs = concat (drv_cmds (dev k')) \<Longrightarrow>
     answered A S0 n dev who i bs"
  unfolding answered_def by (simp only: if_False) blast

text \<open>A history goes on with a message that is stored, and with anything that keeps the log.\<close>

lemma answered_later:
  assumes "answered A S0 n dev who i bs"
  shows "answered A S0 (Suc n) (dev(Suc n := l)) (who(n := j)) i bs"
proof (cases "is_command (message_of A S0 i)")
  case True
  then obtain k where "k \<le> n" "command_reply (drv_cmds (dev k)) (message_of A S0 i) = Some bs" using assms by (auto simp: answered_def)
  then show ?thesis using True by (auto simp: answered_def intro!: exI [of _ k])
next
  case False
  then obtain k k' where "k < n" "who k = i" "k' \<le> n" "k < k'" "bs = concat (drv_cmds (dev k'))" using assms by (auto simp: answered_def)
  then show ?thesis using False by (intro answeredI [of A S0 i k _ _ k']) auto
qed

lemma recorded_later:
  assumes "recorded A S0 n dev who i c" and "i \<noteq> j"
  shows "recorded A S0 (Suc n) (dev(Suc n := l)) (who(n := j)) i c"
proof (cases c)
  case (Pair t p)
  show ?thesis
  proof (cases p)
    case Ended
    then show ?thesis using assms Pair answered_later [of A S0 n dev who i _ l j] by simp
  qed (use assms Pair in \<open>auto simp: less_Suc_eq\<close>)
qed

lemma history_store:
  assumes h: "history A K S0 S n dev who" and i: "i < length (conns S)" "conns S ! i = (t, Fresh)"
    and m: "\<not> is_command (message_of A S0 i)"
    and tk: "driver_takes K (vdrv (device S)) (message_of A S0 i) (vdrv (fsys t'))"
  shows "history A K S0 (publish S i t' (Stored buffer b)) (Suc n) (dev(Suc n := vdrv (fsys t'))) (who(n := i))"
proof -
  let ?dev = "dev(Suc n := vdrv (fsys t'))" and ?who = "who(n := i)"
  have r: "recorded A S0 n dev who j (conns S ! j)" if "j < length (conns S0)" for j using h that by (simp add: history_def)
  have len: "length (conns S) = length (conns S0)" using h by (simp add: history_def)
  have fresh: "\<forall>k < n. who k \<noteq> i" using r [of i] i len by simp
  have "recorded A S0 (Suc n) ?dev ?who j ((conns S)[i := (t', Stored buffer b)] ! j)" if "j < length (conns S0)" for j
  proof (cases "j = i")
    case True
    then show ?thesis using i m by auto
  next
    case False
    then show ?thesis using recorded_later [OF r [OF that] False] by simp
  qed
  moreover have "inj_on ?who {..<Suc n}" using h fresh by (auto simp: history_def lessThan_Suc inj_on_def)
  ultimately show ?thesis using h tk i len by (auto simp: history_def publish_def less_Suc_eq)
qed

lemma history_answer:
  assumes h: "history A K S0 S n dev who" and i: "i < length (conns S)"
    and d: "vdrv (fsys t') = vdrv (device S)"
    and a: "answered A S0 n dev who i (concat (tx t'))"
  shows "history A K S0 (publish S i t' Ended) n dev who"
proof -
  have "recorded A S0 n dev who j ((conns S)[i := (t', Ended)] ! j)" if "j < length (conns S0)" for j
    using h a i that by (cases "j = i") (auto simp: history_def)
  then show ?thesis using h d by (simp add: history_def publish_def)
qed

lemma history_step:
  assumes A: "alloc_ok A" "alloc_serves A limit" "limit < 2 ^ 63" and ok: "sys_ok A limit K F S"
    and h: "history A K S0 S n dev who" and "srv_step A (vfs_ops K) S S'"
  shows "\<exists>n dev who. history A K S0 S' n dev who"
  using assms(6)
proof (cases rule: srv_step.cases)
  case (receive i t t' k)
  have now: "dev n = vdrv (device S)" using h by (simp add: history_def)
  have t: "received_message A (rx t) = message_of A S0 i"
    using h receive(2,3) by (auto simp: history_def message_of_def)
  show ?thesis
  proof (cases "is_command (message_of A S0 i)")
    case True
    then obtain bs t1 where r: "command_reply (vfs_log (device S)) (message_of A S0 i) = Some bs"
        "first_section A (vfs_ops K) True (view S t) = ret (t1, None)" "concat (tx t1) = bs"
        "vdrv (fsys t1) = vdrv (device S)"
      using fresh_command [OF A ok receive(2,3)] receive(4) t by (auto split: option.splits)
    then have "answered A S0 n dev who i (concat (tx t1))" using True now by (auto simp: answered_def)
    then show ?thesis using history_answer [OF h receive(2) r(4)] receive r(2) by (auto simp: next_phase_def)
  next
    case False
    then obtain t1 buffer b where r: "first_section A (vfs_ops K) True (view S t) = ret (t1, Some (buffer, b))"
        "driver_takes K (vdrv (device S)) (message_of A S0 i) (vdrv (fsys t1))"
      using fresh_message [OF A ok receive(2,3)] t by metis
    then have "S' = publish S i t1 (Stored buffer b)" using receive by (simp add: next_phase_def)
    then show ?thesis using history_store [OF h receive(2,3) False r(2)] by blast
  qed
next
  case (reply i t buffer b t')
  obtain t1 where r: "second_section (vfs_ops K) (view S t) buffer b = ret t1" "vdrv (fsys t1) = vdrv (device S)" "concat (tx t1) = concat (vfs_log (device S))"
    using stored_section [OF ok reply(2,3)] by metis
  have now: "dev n = vdrv (device S)" using h by (simp add: history_def)
  have m: "\<not> is_command (message_of A S0 i)" and "\<exists>k < n. who k = i" using h reply(2,3) by (auto simp: history_def)
  then obtain k where "k < n" "who k = i" by blast
  then have "answered A S0 n dev who i (concat (tx t1))" using m r(3) now by (intro answeredI [of A S0 i k _ _ n]) auto
  then show ?thesis using history_answer [OF h reply(2) r(2)] reply r(1) by auto
qed

lemma history_exists:
  assumes "alloc_ok A" "alloc_serves A limit" "limit < 2 ^ 63" and "sys_ok A limit K F S0"
    and "\<forall>i < length (conns S0). snd (conns S0 ! i) = Fresh" and "(srv_step A (vfs_ops K))\<^sup>*\<^sup>* S0 S"
  shows "\<exists>n dev who. history A K S0 S n dev who"
  using assms(6)
proof (induction rule: rtranclp_induct)
  case base
  then show ?case using history_start [OF assms(5)] by blast
next
  case (step S S')
  have "sys_ok A limit K F S" by (rule srv_steps_ok [OF assms(1-3) step(1) assms(4)])
  then show ?case using step(2,3) history_step [OF assms(1-3)] by blast
qed

section \<open>Properties\<close>

lemma history_run:
  assumes "alloc_ok A" and "alloc_serves A limit" and "limit < 2 ^ 63" and "sys_ok A limit K F S0" and "starts P0 S0"
    and "(pool_step A (vfs_ops K))\<^sup>*\<^sup>* P0 P" and "\<not> rejection A K P0 P"
  obtains S n dev who where "(srv_step A (vfs_ops K))\<^sup>*\<^sup>* S0 S" "history A K S0 S n dev who" "dev n = vdrv (shared P)"
    "drv_inv F (vdrv (shared P)) \<and> \<not> locked (vdrv (shared P))"
    "\<And>i. i < length (workers P) \<Longrightarrow> wpc (workers P ! i) = At_end \<Longrightarrow> answered A S0 n dev who i (concat (tx (wst (workers P ! i))))"
proof -
  obtain S1 where S1: "(srv_step A (vfs_ops K))\<^sup>*\<^sup>* S0 S1" and ok: "sys_ok A limit K F S1" and m: "matches A (vfs_ops K) P S1"
      and "intact P S1" by (rule contents_run [OF assms])
  obtain S where S: "S = S1 \<or> srv_step A (vfs_ops K) S1 S" "vdrv (device S) = vdrv (shared P)"
      "\<And>i. i < length (workers P) \<Longrightarrow> wpc (workers P ! i) = At_end \<Longrightarrow> conns S ! i = conns S1 ! i"
    by (rule untorn [OF assms(1-3) ok m \<open>intact P S1\<close>]) blast
  have run: "(srv_step A (vfs_ops K))\<^sup>*\<^sup>* S0 S" using S(1) S1 rtranclp.rtrancl_into_rtrancl by metis
  have "\<forall>i < length (conns S0). snd (conns S0 ! i) = Fresh" using assms(5) by (simp add: starts_def)
  then obtain n dev who where h: "history A K S0 S n dev who" using history_exists [OF assms(1-4) _ run] by blast
  have "dev n = vdrv (shared P)" using h S(2) by (simp add: history_def)
  moreover have "sys_ok A limit K F S" by (rule srv_steps_ok [OF assms(1-3) run assms(4)])
  then have "drv_inv F (vdrv (shared P)) \<and> \<not> locked (vdrv (shared P))" using S(2) by (simp add: sys_ok_def vfs_good_def)
  moreover have "answered A S0 n dev who i (concat (tx (wst (workers P ! i))))"
    if i: "i < length (workers P)" "wpc (workers P ! i) = At_end" for i
  proof -
    obtain t where c: "conns S ! i = (t, Ended)" "same (wst (workers P ! i)) t"
      using matches_end [OF m i] S(3) [OF i] by (cases "conns S1 ! i") auto
    have "i < length (conns S0)" using i(1) pool_steps_length [OF assms(6)] assms(5) by (simp add: starts_def)
    then have "recorded A S0 n dev who i (t, Ended)" using h c(1) by (metis history_def)
    then show ?thesis using c(2) by (simp add: same_def)
  qed
  ultimately show thesis using that run h by blast
qed

text \<open>
  (C4) The server behaves like a sequential log. The clients each send at least one byte and the allocator
  serves buffers for what they send (\<open>sys_ok\<close>, \<open>alloc_serves\<close>), the device can be opened (\<open>vfs_good\<close>), and no
  seek command to a position outside the log has been begun. Then for every interleaving of the calls of the
  threads there is an order of the messages, each of a different connection, in which the driver took them: each
  by one call of \<open>aesd_write\<close> with the whole message, so that the log accepts all of it, or, exactly when that call
  returns an error, refuses it. At every moment the driver is at the end of that order, also while a thread is within
  its section. Every thread that has ended with a message is in the order, and has sent its client the whole log as it
  was at a moment after its own message; one with a seek command has sent the rest of the log, from the
  position asked for, as it was at one moment.
\<close>

theorem server_serializable:
  assumes "alloc_ok A" and "alloc_serves A limit" and "limit < 2 ^ 63" and "sys_ok A limit K F S0" and "starts P0 S0"
    and "(pool_step A (vfs_ops K))\<^sup>*\<^sup>* P0 P" and "\<not> rejection A K P0 P"
  shows "\<exists>S n dev who. (srv_step A (vfs_ops K))\<^sup>*\<^sup>* S0 S \<and> history A K S0 S n dev who \<and> dev n = vdrv (shared P) \<and>
     (\<forall>i < length (workers P). wpc (workers P ! i) = At_end \<longrightarrow> answered A S0 n dev who i (concat (tx (wst (workers P ! i)))))"
  by (rule history_run [OF assms]) blast

theorem server_serializable_witness:
  "\<exists>S n dev who. history zero_alloc srv_kernel demo_sys S n dev who \<and>
     (\<forall>i < length (workers demo_pool_locked). wpc (workers demo_pool_locked ! i) \<noteq> At_end \<or>
        answered zero_alloc demo_sys n dev who i (concat (tx (wst (workers demo_pool_locked ! i)))))"
  using server_serializable [OF zero_alloc_ok zero_alloc_serves _ demo_sys_ok demo_starts demo_locked demo_no_rejection] by (simp, blast)

end
