(* ===== verification/Whole_Server.thy ===== *)
theory Whole_Server
  imports Server_Loop Server_History
begin

text \<open>
  The server as a whole: the main thread of \<open>src/server/aesdsocket.c\<close> at the steps of \<open>Server_Loop\<close>, and the
  connection threads it starts, call by call as in \<open>Server_Interleave\<close>. They share the records of
  the list: \<open>main\<close> creates, joins and frees them, a thread reads its record when it starts and sets the
  flag in it at its end.
\<close>

section \<open>Steps\<close>

text \<open>
  The clients are the workers of the pool, in the order in which they are accepted; those that are not
  accepted yet do not run. \<open>recs i\<close> is the record of thread \<open>i\<close>, \<open>tof p\<close> the thread that was started
  last with the record \<open>p\<close>: an address may be used again after it was freed.
\<close>

record 'd whole =
  main_part :: server
  pool_part :: "'d pool"
  recs :: "nat \<Rightarrow> ptr"
  tof :: "ptr \<Rightarrow> nat"

abbreviation flag_of :: "server \<Rightarrow> ptr \<Rightarrow> bool option" where
  "flag_of m p \<equiv> map_option (\<lambda>e. slist_data_s.status (payload e)) (store_of m p)"

text \<open>What a step of thread \<open>i\<close> does to the records: nothing, unless it sets the flag or returns.\<close>

definition record_effect :: "ptr \<Rightarrow> 'd tstate \<Rightarrow> 'd tstate \<Rightarrow> tpc \<Rightarrow> server \<Rightarrow> server option" where
  "record_effect p t t' pc' m =
     (if tstate.status t' \<and> \<not> tstate.status t then
        map_option (\<lambda>e. (set_store m p (e\<lparr>payload := (payload e)\<lparr>status := True\<rparr>\<rparr>))\<lparr>running := running m - {p}\<rparr>) (store_of m p)
      else if pc' = At_end \<and> \<not> tstate.status t' then Some (m\<lparr>running := running m - {p}, silent := insert p (silent m)\<rparr>)
      else Some m)"

inductive whole_step :: "ptr \<Rightarrow> alloc \<Rightarrow> 'd file_ops \<Rightarrow> 'd whole \<Rightarrow> 'd whole \<Rightarrow> bool" for ta A fs where
  start: "pc (main_part W) = Accepting \<Longrightarrow> created (main_part W) < length (workers (pool_part W)) \<Longrightarrow>
    fd \<noteq> -1 \<Longrightarrow> p \<noteq> NULL \<Longrightarrow> store_of (main_part W) p = None \<Longrightarrow>
    whole_step ta A fs W
      (W\<lparr>main_part := (set_store (main_part W) p (new_record ta fd tid))\<lparr>pc := Inserting p,
           running := insert p (running (main_part W)), created := Suc (created (main_part W))\<rparr>,
         recs := (recs W)(created (main_part W) := p), tof := (tof W)(p := created (main_part W))\<rparr>)"
| insert: "pc (main_part W) = Inserting p \<Longrightarrow> SLIST_INSERT_HEAD (head (mst (main_part W))) p = Some l \<Longrightarrow>
    whole_step ta A fs W
      (W\<lparr>main_part := (main_part W)\<lparr>pc := Reaping (SLIST_FIRST l), mst := (mst (main_part W))\<lparr>head := l\<rparr>\<rparr>\<rparr>)"
| reap: "pc (main_part W) = Reaping node \<Longrightarrow> node \<noteq> NULL \<Longrightarrow> reap_body node (mst (main_part W)) = ret (temp, st) \<Longrightarrow>
    (flag_of (main_part W) node = Some True \<Longrightarrow> wpc (workers (pool_part W) ! tof W node) = At_end) \<Longrightarrow>
    whole_step ta A fs W (W\<lparr>main_part := (main_part W)\<lparr>pc := Reaping temp, mst := st\<rparr>\<rparr>)"
| reap_end: "pc (main_part W) = Reaping NULL \<Longrightarrow> whole_step ta A fs W (W\<lparr>main_part := (main_part W)\<lparr>pc := Accepting\<rparr>\<rparr>)"
| thread: "i < created (main_part W) \<Longrightarrow> i < length (workers (pool_part W)) \<Longrightarrow> wpc (workers (pool_part W) ! i) \<noteq> At_end \<Longrightarrow>
    \<not> waiting (workers (pool_part W) ! i) \<Longrightarrow> next_of A fs (pool_part W) i = ret (t', pc') \<Longrightarrow>
    record_effect (recs W i) (wst (workers (pool_part W) ! i)) t' pc' (main_part W) = Some m \<Longrightarrow>
    whole_step ta A fs W (W\<lparr>main_part := m, pool_part := put (pool_part W) i t' pc'\<rparr>)"

text \<open>
  The step \<open>reap\<close> includes \<open>pthread_join\<close>, so it waits until a thread whose flag is set has returned. Rounds
  in which \<open>accept\<close> or \<open>pthread_create\<close> fails change nothing here.
\<close>

definition start_whole :: "'d pool \<Rightarrow> 'd whole" where
  "start_whole P = \<lparr>main_part = start_server, pool_part = P, recs = (\<lambda>i. NULL), tof = (\<lambda>p. 0)\<rparr>"

section \<open>The flag of a thread\<close>

text \<open>After it has set its flag a thread at most unlocks the mutex.\<close>

definition after_status :: "act list \<Rightarrow> act list" where
  "after_status acts = tl (dropWhile (\<lambda>a. a \<noteq> Set_status) acts)"

fun end_ok :: "tpc \<Rightarrow> bool" where
  "end_ok (At_acts acts None) \<longleftrightarrow> after_status acts = [] \<or> after_status acts = [Unlock]"
| "end_ok (At_acts acts (Some p)) \<longleftrightarrow> Set_status \<notin> set acts"
| "end_ok (At_read room n fd acts) \<longleftrightarrow> after_status acts = [] \<or> after_status acts = [Unlock]"
| "end_ok p \<longleftrightarrow> True"

lemma after_status_Cons: "after_status (a # acts) = (if a = Set_status then acts else after_status acts)"
  by (simp add: after_status_def)

lemma end_ok_acts: "end_ok (At_acts (a # acts) k) \<Longrightarrow> end_ok (At_acts acts k)"
  by (cases k) (auto simp: after_status_Cons after_status_def split: if_splits)

lemma end_ok_step:
  assumes "thread_step A fs use_dev pc0 t = ret (t', pc')" and "end_ok pc0"
  shows "end_ok pc'"
proof (cases pc0)
  case (At_acts as k)
  show ?thesis
  proof (cases as)
    case Nil
    then show ?thesis using assms At_acts by (cases k) (auto simp: seq_eq_ret after_status_def)
  next
    case (Cons a acts)
    then have "pc' = At_acts acts k" using assms(1) At_acts by (auto simp: seq_eq_ret)
    then show ?thesis using assms(2) At_acts Cons end_ok_acts by blast
  qed
next
  case (At_scan buffer n)
  then show ?thesis using assms scan_step(2) by (fastforce simp: after_status_def)
next
  case (At_read room n fd acts)
  then show ?thesis using assms read_step_cases(2) by fastforce
qed (use assms in \<open>auto simp: seq_eq_ret after_status_def split: option.splits prod.splits if_splits\<close>)

lemma read_step_status: "thread_step A fs use_dev (At_read room n fd acts) t = ret (t', pc') \<Longrightarrow> tstate.status t' = tstate.status t"
  by (auto simp: read_step simp del: thread_step.simps split: outcome.splits option.splits if_splits)

lemma step_status:
  assumes "thread_step A fs use_dev pc0 t = ret (t', pc')"
  shows "tstate.status t' = tstate.status t \<or> (\<exists>acts k. pc0 = At_acts (Set_status # acts) k \<and> pc' = At_acts acts k \<and> tstate.status t')"
proof (cases pc0)
  case (At_acts as k)
  then show ?thesis using assms
    by (cases as; cases "hd as"; cases k)
      (auto simp: close_sock_def set_status_def free_buffer_def pthread_mutex_unlock_def pthread_mutex_lock_def split: if_splits)
next
  case (At_scan buffer n)
  then show ?thesis using assms scan_step by fastforce
next
  case (At_read room n fd acts)
  then show ?thesis using assms read_step_status by blast
qed (use assms in \<open>auto simp: seq_eq_ret pthread_mutex_lock_def split: option.splits prod.splits if_splits\<close>)

text \<open>So a thread whose flag is set has returned, or is at its last unlock.\<close>

definition closing :: "tpc \<Rightarrow> bool" where
  "closing pc0 \<longleftrightarrow> pc0 = At_end \<or> pc0 = At_acts [Unlock] None"

lemma closing_step:
  assumes st: "thread_step A fs use_dev pc0 t = ret (t', pc')" and ok: "end_ok pc0" and c: "tstate.status t \<Longrightarrow> closing pc0"
    and s: "tstate.status t'"
  shows "closing pc'"
proof (cases "tstate.status t")
  case True
  then show ?thesis using c st by (auto simp: closing_def seq_eq_ret)
next
  case False
  then obtain acts k where a: "pc0 = At_acts (Set_status # acts) k" "pc' = At_acts acts k" using step_status [OF st] s by auto
  then show ?thesis using ok by (cases k) (auto simp: closing_def after_status_Cons)
qed

section \<open>The invariant\<close>

text \<open>The thread still has its record.\<close>

definition live :: "'d whole \<Rightarrow> nat \<Rightarrow> bool" where
  "live W i \<longleftrightarrow> tof W (recs W i) = i \<and> store_of (main_part W) (recs W i) \<noteq> None"

text \<open>
  A thread with a record has the flag of the record and is running, or has ended silently, exactly
  when \<open>main\<close> counts it so; a thread without a record has returned.
\<close>

definition thread_ok :: "'d whole \<Rightarrow> nat \<Rightarrow> bool" where
  "thread_ok W i \<longleftrightarrow>
     (let w = workers (pool_part W) ! i; p = recs W i; m = main_part W
      in end_ok (wpc w) \<and> (tstate.status (wst w) \<longrightarrow> closing (wpc w)) \<and>
         (if live W i then
            flag_of m p = Some (tstate.status (wst w)) \<and>
            (p \<in> running m \<longleftrightarrow> \<not> tstate.status (wst w) \<and> wpc w \<noteq> At_end) \<and>
            (p \<in> silent m \<longleftrightarrow> \<not> tstate.status (wst w) \<and> wpc w = At_end)
          else wpc w = At_end))"

definition whole_inv :: "'d whole \<Rightarrow> bool" where
  "whole_inv W \<longleftrightarrow>
     created (main_part W) \<le> length (workers (pool_part W)) \<and>
     (\<forall>i < length (workers (pool_part W)). created (main_part W) \<le> i \<longrightarrow>
        wpc (workers (pool_part W) ! i) = At_malloc \<and> \<not> tstate.status (wst (workers (pool_part W) ! i))) \<and>
     (\<forall>i < created (main_part W). thread_ok W i) \<and>
     (\<forall>p. store_of (main_part W) p \<noteq> None \<longrightarrow> tof W p < created (main_part W) \<and> recs W (tof W p) = p)"

lemma whole_inv_start:
  assumes "\<forall>w \<in> set (workers P). wpc w = At_malloc \<and> \<not> tstate.status (wst w)"
  shows "whole_inv (start_whole P)"
  using assms by (simp add: whole_inv_def start_whole_def start_server_def)

text \<open>A step of \<open>main\<close> on the records, seen from a thread.\<close>

lemma thread_ok_main:
  assumes "thread_ok W i" and "pool_part W' = pool_part W" and "recs W' i = recs W i"
    and "live W' i \<longleftrightarrow> live W i"
    and "live W i \<Longrightarrow> flag_of (main_part W') (recs W i) = flag_of (main_part W) (recs W i)"
    and "live W i \<Longrightarrow> (recs W i \<in> running (main_part W') \<longleftrightarrow> recs W i \<in> running (main_part W)) \<and>
      (recs W i \<in> silent (main_part W') \<longleftrightarrow> recs W i \<in> silent (main_part W))"
  shows "thread_ok W' i"
  using assms by (auto simp: thread_ok_def Let_def)

lemma whole_inv_payload:
  assumes i: "whole_inv W" and same: "\<And>q. map_option payload (elems (head st) q) = map_option payload (store_of (main_part W) q)"
  shows "whole_inv (W\<lparr>main_part := (main_part W)\<lparr>pc := x, mst := st\<rparr>\<rparr>)"
proof -
  let ?W = "W\<lparr>main_part := (main_part W)\<lparr>pc := x, mst := st\<rparr>\<rparr>"
  have none: "elems (head st) q = None \<longleftrightarrow> store_of (main_part W) q = None" for q using same [of q] by (metis map_option_is_None)
  have flag: "flag_of (main_part ?W) q = flag_of (main_part W) q" for q
    using arg_cong [OF same [of q], of "map_option slist_data_s.status"] by (simp add: option.map_comp comp_def)
  have "thread_ok ?W j" if "j < created (main_part W)" for j
  proof (rule thread_ok_main [of W])
    show "thread_ok W j" using i that by (simp add: whole_inv_def)
    show "live ?W j \<longleftrightarrow> live W j" by (simp add: live_def none del: not_None_eq)
    show "flag_of (main_part ?W) (recs W j) = flag_of (main_part W) (recs W j)" by (rule flag)
  qed simp_all
  then show ?thesis using i by (simp add: whole_inv_def none del: not_None_eq)
qed

lemma whole_inv_new:
  assumes i: "whole_inv W" and si: "server_inv ps (main_part W)" and more_left: "created (main_part W) < length (workers (pool_part W))"
    and fresh: "store_of (main_part W) p = None"
  shows "whole_inv
      (W\<lparr>main_part := (set_store (main_part W) p (new_record ta fd tid))\<lparr>pc := Inserting p,
           running := insert p (running (main_part W)), created := Suc (created (main_part W))\<rparr>,
         recs := (recs W)(created (main_part W) := p), tof := (tof W)(p := created (main_part W))\<rparr>)" (is "whole_inv ?W")
proof -
  let ?m = "main_part W" and ?n = "created (main_part W)"
  have ns: "p \<notin> silent ?m" using si fresh by (auto simp: server_inv_def)
  have new: "wpc (workers (pool_part W) ! ?n) = At_malloc" "\<not> tstate.status (wst (workers (pool_part W) ! ?n))"
    using i more_left by (simp_all add: whole_inv_def)
  have "thread_ok ?W j" if "j < Suc ?n" for j
  proof (cases "j = ?n")
    case True
    then show ?thesis using new ns by (simp add: thread_ok_def Let_def live_def new_record_def)
  next
    case False
    then have j: "thread_ok W j" "j < ?n" using i that by (simp_all add: whole_inv_def)
    have l: "live ?W j \<longleftrightarrow> live W j" "live W j \<Longrightarrow> recs W j \<noteq> p" using False fresh by (auto simp: live_def)
    then show ?thesis using False by (intro thread_ok_main [OF j(1)]) auto
  qed
  moreover have "tof ?W q < Suc ?n \<and> recs ?W (tof ?W q) = q" if "store_of (main_part ?W) q \<noteq> None" for q
    using that i by (auto simp: whole_inv_def less_Suc_eq split: if_splits)
  ultimately show ?thesis using i more_left by (simp add: whole_inv_def)
qed

lemma whole_inv_reap:
  assumes i: "whole_inv W" and si: "server_inv ps (main_part W)" and at: "pc (main_part W) = Reaping node" "node \<noteq> NULL"
    and r: "reap_body node (mst (main_part W)) = ret (temp, st)"
    and joined: "flag_of (main_part W) node = Some True \<Longrightarrow> wpc (workers (pool_part W) ! tof W node) = At_end"
  shows "whole_inv (W\<lparr>main_part := (main_part W)\<lparr>pc := Reaping temp, mst := st\<rparr>\<rparr>)" (is "whole_inv ?W")
proof -
  let ?m = "main_part W"
  have f: "slist_is (head (mst ?m)) ps" "node \<in> set ps" "dom (store_of ?m) = set ps"
    using si at by (auto simp: server_inv_def pending_def)
  obtain e where e: "store_of ?m node = Some e" using f(2,3) by blast
  note b = reap_body_is [OF f(1,2) e]
  show ?thesis
  proof (cases "slist_data_s.status (payload e)")
    case False
    then have "st = mst ?m" using b r by auto
    then show ?thesis using whole_inv_payload [OF i, of "mst ?m" "Reaping temp"] by simp
  next
    case True
    have gone: "elems (head st) node = None"
      and same: "\<And>q. q \<noteq> node \<Longrightarrow> map_option payload (elems (head st) q) = map_option payload (store_of ?m q)"
      using b r True by auto
    have none: "elems (head st) q = None \<longleftrightarrow> store_of ?m q = None" if "q \<noteq> node" for q
      using same [OF that] by (metis map_option_is_None)
    have flag: "flag_of (main_part ?W) q = flag_of ?m q" if "q \<noteq> node" for q
      using arg_cong [OF same [OF that], of "map_option slist_data_s.status"] by (simp add: option.map_comp comp_def)
    have own: "tof W node < created ?m" "recs W (tof W node) = node" using i e by (simp_all add: whole_inv_def)
    have ended: "wpc (workers (pool_part W) ! tof W node) = At_end" using joined e True by simp
    have "thread_ok ?W j" if "j < created ?m" for j
    proof (cases "j = tof W node")
      case True
      have "thread_ok W j" using i that by (simp add: whole_inv_def)
      moreover have "\<not> live ?W j" using True own gone by (simp add: live_def)
      ultimately show ?thesis using ended True by (simp add: thread_ok_def Let_def)
    next
      case False
      then have ne: "live W j \<Longrightarrow> recs W j \<noteq> node" by (auto simp: live_def)
      show ?thesis
      proof (rule thread_ok_main [of W])
        show "thread_ok W j" using i that by (simp add: whole_inv_def)
        show "live ?W j \<longleftrightarrow> live W j"
          using False gone none [of "recs W j"] by (cases "recs W j = node") (auto simp: live_def simp del: not_None_eq)
        show "flag_of (main_part ?W) (recs W j) = flag_of ?m (recs W j)" if "live W j" by (rule flag) (rule ne [OF that])
      qed simp_all
    qed
    moreover have "tof W q < created ?m \<and> recs W (tof W q) = q" if "elems (head st) q \<noteq> None" for q
      using that i gone none [of q] by (cases "q = node") (simp_all add: whole_inv_def del: not_None_eq)
    ultimately show ?thesis using i by (simp add: whole_inv_def del: not_None_eq)
  qed
qed

text \<open>A step of a thread.\<close>

lemma record_effect_cases:
  assumes "record_effect p t t' pc' m = Some m'"
  obtains (sets) e where "tstate.status t'" "\<not> tstate.status t" "store_of m p = Some e"
      "m' = (set_store m p (e\<lparr>payload := (payload e)\<lparr>status := True\<rparr>\<rparr>))\<lparr>running := running m - {p}\<rparr>"
  | (returns) "\<not> tstate.status t'" "pc' = At_end" "m' = m\<lparr>running := running m - {p}, silent := insert p (silent m)\<rparr>"
  | (nothing) "tstate.status t' \<Longrightarrow> tstate.status t" "pc' = At_end \<Longrightarrow> tstate.status t'" "m' = m"
  using assms by (auto simp: record_effect_def split: if_splits)

lemma look_status [simp]: "tstate.status (look P i) = tstate.status (wst (workers P ! i))"
  by (simp add: look_def Let_def)

lemma thread_live:
  assumes "whole_inv W" and "i < created (main_part W)" and "wpc (workers (pool_part W) ! i) \<noteq> At_end"
  shows "live W i"
  using assms by (auto simp: whole_inv_def thread_ok_def Let_def split: if_splits)

lemma whole_inv_thread:
  assumes inv: "whole_inv W" and i: "i < created (main_part W)" "wpc (workers (pool_part W) ! i) \<noteq> At_end"
    and st: "next_of A fs (pool_part W) i = ret (t', pc')"
    and re: "record_effect (recs W i) (wst (workers (pool_part W) ! i)) t' pc' (main_part W) = Some m"
  shows "whole_inv (W\<lparr>main_part := m, pool_part := put (pool_part W) i t' pc'\<rparr>)" (is "whole_inv ?W")
proof -
  let ?m = "main_part W" and ?P = "pool_part W" and ?p = "recs W i"
  let ?w = "workers ?P ! i"
  have len: "i < length (workers ?P)" using inv i(1) by (simp add: whole_inv_def)
  have ok: "thread_ok W i" using inv i(1) by (simp add: whole_inv_def)
  have lv: "live W i" using thread_live [OF inv i] .
  have f: "end_ok (wpc ?w)" "tstate.status (wst ?w) \<Longrightarrow> closing (wpc ?w)" "flag_of ?m ?p = Some (tstate.status (wst ?w))"
      "?p \<in> running ?m \<longleftrightarrow> \<not> tstate.status (wst ?w)" "?p \<notin> silent ?m"
    using ok lv i(2) by (simp_all add: thread_ok_def Let_def)
  have e': "end_ok pc'" using end_ok_step [OF st f(1)] .
  have c': "tstate.status t' \<Longrightarrow> closing pc'" using closing_step [OF st f(1)] f(2) by simp
  have up: "tstate.status (wst ?w) \<Longrightarrow> tstate.status t'" using step_status [OF st] by auto
  have dom: "store_of m q = None \<longleftrightarrow> store_of ?m q = None" and cr: "created m = created ?m"
    and oth: "q \<noteq> ?p \<Longrightarrow> store_of m q = store_of ?m q \<and> (q \<in> running m \<longleftrightarrow> q \<in> running ?m) \<and> (q \<in> silent m \<longleftrightarrow> q \<in> silent ?m)" for q
    using re by (cases rule: record_effect_cases; auto)+
  have live: "live ?W j \<longleftrightarrow> live W j" for j by (simp add: live_def dom del: not_None_eq)
  have self: "flag_of m ?p = Some (tstate.status t') \<and> (?p \<in> running m \<longleftrightarrow> \<not> tstate.status t' \<and> pc' \<noteq> At_end) \<and>
      (?p \<in> silent m \<longleftrightarrow> \<not> tstate.status t' \<and> pc' = At_end)"
    using re
  proof (cases rule: record_effect_cases)
    case (sets e)
    then show ?thesis using f(5) by simp
  next
    case returns
    then show ?thesis using f(3) up by auto
  next
    case nothing
    then show ?thesis using f(3-5) up by auto
  qed
  have "thread_ok ?W j" if j: "j < created ?m" for j
  proof (cases "j = i")
    case True
    then show ?thesis using e' c' self live [of i] lv len by (simp add: thread_ok_def Let_def)
  next
    case False
    have "recs W j \<noteq> ?p" if "live W j" using that lv False by (auto simp: live_def)
    moreover have "thread_ok W j" using inv j by (simp add: whole_inv_def)
    ultimately show ?thesis using oth [of "recs W j"] False live [of j] by (auto simp: thread_ok_def Let_def)
  qed
  then show ?thesis using inv cr dom i(1) by (simp add: whole_inv_def del: not_None_eq)
qed

section \<open>The parts of the whole\<close>

text \<open>Seen from \<open>main\<close>, a step of the whole is a step of \<open>Server_Loop\<close> or none; seen from the threads, one of the pool.\<close>

lemma whole_step_main:
  assumes "whole_step ta A fs W W'" and inv: "whole_inv W"
  shows "(server_step ta)\<^sup>=\<^sup>= (main_part W) (main_part W')"
  using assms(1)
proof (cases rule: whole_step.cases)
  case (thread i t' pc' m)
  let ?w = "workers (pool_part W) ! i"
  have lv: "live W i" and ok: "thread_ok W i" using thread_live [OF inv thread(2,4)] inv thread(2) by (simp_all add: whole_inv_def)
  then have run: "recs W i \<in> running (main_part W) \<longleftrightarrow> \<not> tstate.status (wst ?w)" using thread(4) by (simp add: thread_ok_def Let_def)
  have mono: "tstate.status (wst ?w) \<Longrightarrow> tstate.status t'" using step_status [OF thread(6)] by auto
  from thread(7) show ?thesis
  proof (cases rule: record_effect_cases)
    case (sets e)
    then show ?thesis using run thread(1) server_step.thread_ends [of "recs W i" "main_part W" e ta] by simp
  next
    case returns
    then show ?thesis using run mono thread(1) server_step.thread_ends_silently [of "recs W i" "main_part W" ta] by auto
  next
    case nothing
    then show ?thesis using thread(1) by simp
  qed
qed (auto intro: server_step.intros)

lemma whole_step_pool: "whole_step ta A fs W W' \<Longrightarrow> (pool_step A fs)\<^sup>=\<^sup>= (pool_part W) (pool_part W')"
  by (induction rule: whole_step.induct) (auto intro: pool_step.intros)

lemma whole_step_inv:
  assumes "whole_step ta A fs W W'" and "whole_inv W" and si: "server_inv ps (main_part W)"
  shows "whole_inv W'"
  using assms(1)
proof (cases rule: whole_step.cases)
  case (start fd p tid)
  then show ?thesis using whole_inv_new [OF assms(2) si] by simp
next
  case (insert p l)
  then show ?thesis using whole_inv_payload [OF assms(2), of "(mst (main_part W))\<lparr>head := l\<rparr>"] SLIST_INSERT_HEAD_dom [OF insert(3)] by simp
next
  case (reap node temp st)
  then show ?thesis using whole_inv_reap [OF assms(2) si] by simp
next
  case reap_end
  then show ?thesis using whole_inv_payload [OF assms(2), of "mst (main_part W)" Accepting] by simp
next
  case (thread i t' pc' m)
  then show ?thesis using whole_inv_thread [OF assms(2)] by simp
qed

lemma whole_run:
  assumes "(whole_step ta A fs)\<^sup>*\<^sup>* (start_whole P0) W" and "\<forall>w \<in> set (workers P0). wpc w = At_malloc \<and> \<not> tstate.status (wst w)"
  shows "whole_inv W \<and> (\<exists>ps. server_inv ps (main_part W)) \<and> (server_step ta)\<^sup>*\<^sup>* start_server (main_part W) \<and> (pool_step A fs)\<^sup>*\<^sup>* P0 (pool_part W)"
  using assms(1)
proof (induction rule: rtranclp_induct)
  case base
  then show ?case using whole_inv_start [OF assms(2)] server_inv_start by (auto simp: start_whole_def)
next
  case (step W W')
  then obtain ps where ps: "whole_inv W" "server_inv ps (main_part W)" by blast
  have m: "main_part W' = main_part W \<or> server_step ta (main_part W) (main_part W')" using whole_step_main [OF step(2) ps(1)] by auto
  then have "\<exists>ps. server_inv ps (main_part W')" using ps(2) server_step_inv by metis
  moreover have "(server_step ta)\<^sup>*\<^sup>* start_server (main_part W')" using m step(3) by (auto intro: rtranclp.rtrancl_into_rtrancl)
  moreover have "(pool_step A fs)\<^sup>*\<^sup>* P0 (pool_part W')"
    using whole_step_pool [OF step(2)] step(3) by (auto intro: rtranclp.rtrancl_into_rtrancl)
  ultimately show ?case using whole_step_inv [OF step(2) ps] by blast
qed

section \<open>Properties\<close>

text \<open>The points at which a thread accesses its record: its start and the call that sets the flag.\<close>

fun uses_record :: "tpc \<Rightarrow> bool" where
  "uses_record At_malloc = True"
| "uses_record (At_acts (Set_status # acts) k) = True"
| "uses_record p = False"

text \<open>
  (C7) The whole server: in every interleaving of the steps of \<open>main\<close> with the calls of the threads it has
  started, also when an allocation or an \<open>open\<close> fails or a client sends nothing, no access to the list is invalid; a
  thread that accesses its record finds it in memory, and it is still its own although addresses may be reused; a
  thread that \<open>main\<close> is about to join has returned or is at its last unlock, so that \<open>pthread_join\<close> does not wait for a
  client. And no call of a thread is undefined, provided that the clients each send at least one byte, the
  allocator serves buffers for what they send, the device can be opened, and no seek command to a position
  outside the log has been begun.
\<close>

theorem whole_server_safe:
  assumes "\<forall>w \<in> set (workers P0). wpc w = At_malloc \<and> \<not> tstate.status (wst w)"
    and "(whole_step ta A (vfs_ops K))\<^sup>*\<^sup>* (start_whole P0) W"
  shows "\<not> faults (main_part W) \<and>
    (\<forall>i < created (main_part W). uses_record (wpc (workers (pool_part W) ! i)) \<longrightarrow>
       store_of (main_part W) (recs W i) \<noteq> None \<and> tof W (recs W i) = i) \<and>
    (\<forall>p. flag_of (main_part W) p = Some True \<longrightarrow> closing (wpc (workers (pool_part W) ! tof W p))) \<and>
    (\<forall>limit F S0. alloc_ok A \<and> alloc_serves A limit \<and> limit < 2 ^ 63 \<and> sys_ok A limit K F S0 \<and> starts P0 S0 \<and>
       \<not> rejection A K P0 (pool_part W) \<longrightarrow>
       (\<forall>i < length (workers (pool_part W)). next_of A (vfs_ops K) (pool_part W) i \<noteq> Some Undefined))"
proof (intro conjI allI impI)
  note run = whole_run [OF assms(2,1)]
  then obtain ps where ps: "server_inv ps (main_part W)" by blast
  show "\<not> faults (main_part W)" by (rule server_inv_no_fault [OF ps])
  have inv: "whole_inv W" using run by simp
  show "store_of (main_part W) (recs W i) \<noteq> None" "tof W (recs W i) = i"
    if i: "i < created (main_part W)" "uses_record (wpc (workers (pool_part W) ! i))" for i
  proof -
    from i have "wpc (workers (pool_part W) ! i) \<noteq> At_end" by auto
    from thread_live [OF inv i(1) this] show "store_of (main_part W) (recs W i) \<noteq> None" "tof W (recs W i) = i"
      by (simp_all add: live_def)
  qed
  show "closing (wpc (workers (pool_part W) ! tof W p))" if p: "flag_of (main_part W) p = Some True" for p
  proof -
    from p have "store_of (main_part W) p \<noteq> None" by auto
    then have t: "tof W p < created (main_part W)" "recs W (tof W p) = p" "live W (tof W p)" using inv by (simp_all add: whole_inv_def live_def)
    then have "thread_ok W (tof W p)" using inv by (simp add: whole_inv_def)
    then show ?thesis using p t by (auto simp: thread_ok_def Let_def)
  qed
  have steps: "(pool_step A (vfs_ops K))\<^sup>*\<^sup>* P0 (pool_part W)" using run by blast
  show "next_of A (vfs_ops K) (pool_part W) i \<noteq> Some Undefined"
    if h: "alloc_ok A \<and> alloc_serves A limit \<and> limit < 2 ^ 63 \<and> sys_ok A limit K F S0 \<and> starts P0 S0 \<and> \<not> rejection A K P0 (pool_part W)"
      and i: "i < length (workers (pool_part W))" for limit F S0 i
  proof -
    obtain S where "matches A (vfs_ops K) (pool_part W) S"
      by (rule atomic_run [of A limit K F S0 P0, OF _ _ _ _ _ steps]) (use h in auto)
    then show ?thesis using matches_safe(1) i by blast
  qed
qed

text \<open>The server has accepted one of two clients.\<close>

definition demo_whole :: "vfs whole" where
  "demo_whole = \<lparr>main_part = (set_store start_server 1 (new_record 99 4 11))\<lparr>pc := Inserting 1, running := {1}, created := 1\<rparr>,
     pool_part = demo_pool, recs = (\<lambda>i. NULL)(0 := 1), tof = (\<lambda>p. 0)(1 := 0)\<rparr>"

lemma demo_whole_reachable: "(whole_step 99 zero_alloc (vfs_ops srv_kernel))\<^sup>*\<^sup>* (start_whole demo_pool) demo_whole"
proof -
  have "whole_step 99 zero_alloc (vfs_ops srv_kernel) (start_whole demo_pool) demo_whole"
    using whole_step.start [of "start_whole demo_pool" 4 1 99 zero_alloc "vfs_ops srv_kernel" 11]
    by (simp add: demo_whole_def start_whole_def start_server_def demo_pool_def)
  then show ?thesis by blast
qed

theorem whole_server_safe_witness:
  "\<not> faults (main_part demo_whole) \<and> (store_of (main_part demo_whole) (recs demo_whole 0) \<noteq> None \<and> tof demo_whole (recs demo_whole 0) = 0) \<and>
   next_of zero_alloc (vfs_ops srv_kernel) (pool_part demo_whole) 0 \<noteq> Some Undefined"
proof -
  have "\<forall>w \<in> set (workers demo_pool). wpc w = At_malloc \<and> \<not> tstate.status (wst w)" by (simp add: demo_pool_def demo_thread_def)
  note w = whole_server_safe [OF this demo_whole_reachable]
  have "\<not> rejection zero_alloc srv_kernel demo_pool (pool_part demo_whole)" by (rule demo_no_rejection)
  then have "\<forall>i < length (workers (pool_part demo_whole)). next_of zero_alloc (vfs_ops srv_kernel) (pool_part demo_whole) i \<noteq> Some Undefined"
    using w [THEN conjunct2, THEN conjunct2, THEN conjunct2, rule_format, of 1048575 Map.empty demo_sys]
      zero_alloc_ok zero_alloc_serves demo_sys_ok demo_starts by simp
  moreover have "0 < length (workers (pool_part demo_whole))" by (simp add: demo_whole_def demo_pool_def)
  ultimately have "next_of zero_alloc (vfs_ops srv_kernel) (pool_part demo_whole) 0 \<noteq> Some Undefined" by blast
  moreover have "created (main_part demo_whole) = 1" "uses_record (wpc (workers (pool_part demo_whole) ! 0))" by (simp_all add: demo_whole_def demo_pool_def)
  ultimately show ?thesis using w by (metis less_numeral_extra(1))
qed

end
