(* ===== verification/Server_Shutdown.thy ===== *)
theory Server_Shutdown
  imports Whole_Server
begin

text \<open>
  The end of the server: \<open>handle_signal\<close> of \<open>src/server/aesdsocket.c\<close> runs while the threads are somewhere in
  their work. It neither stops nor joins them, removes the device node, and destroys the mutex they use.
\<close>

section \<open>The process\<close>

text \<open>
  The server with what the handler changes of it: the calls the handler has still to make (\<open>None\<close>
  before a signal), the paths that have been removed, the descriptors it has closed, whether the mutex
  still exists, whether the mutex was misused, and the exit code.
\<close>

record 'd process =
  server_part :: "'d whole"
  handler :: "sys_event list option"
  removed :: "string set"
  closed :: "int set"
  mutex_exists :: bool
  misused :: bool
  exit_code :: "int option"

abbreviation holder_of :: "'d process \<Rightarrow> nat option" where
  "holder_of p \<equiv> holder (pool_part (server_part p))"

text \<open>
  POSIX leaves the destruction of a locked mutex undefined. The code ignores the result and goes on; the C library of
  Linux returns \<open>EBUSY\<close> and keeps the mutex. The model does the same and records the misuse.
\<close>

fun do_event :: "sys_event \<Rightarrow> 'd process \<Rightarrow> 'd process" where
  "do_event (Remove path) p = p\<lparr>removed := insert path (removed p)\<rparr>"
| "do_event (Close fd) p = p\<lparr>closed := insert fd (closed p)\<rparr>"
| "do_event Destroy_mutex p = (if holder_of p \<noteq> None then p\<lparr>misused := True\<rparr> else p\<lparr>mutex_exists := False\<rparr>)"
| "do_event (Exit c) p = p\<lparr>exit_code := Some c\<rparr>"
| "do_event e p = p"

text \<open>The calls of the handler, with no other thread in between.\<close>

definition run_events :: "sys_event list \<Rightarrow> 'd process \<Rightarrow> 'd process" where
  "run_events es p = fold do_event es p"

text \<open>A path that has been removed cannot be opened any more; files that are open stay so.\<close>

definition without_paths :: "string set \<Rightarrow> 'd file_ops \<Rightarrow> 'd file_ops" where
  "without_paths paths fs =
     fs\<lparr>fs_open := (\<lambda>d path flags. if path \<in> paths then (d, -1) else fs_open fs d path flags)\<rparr>"

text \<open>
  The threads go on while the handler runs. Which thread it interrupts is left open: the steps of every one
  are allowed, so that the runs of the process are among these. A call that locks or unlocks the mutex after
  it was destroyed is a misuse, too.
\<close>

inductive process_step :: "ptr \<Rightarrow> alloc \<Rightarrow> 'd file_ops \<Rightarrow> int \<Rightarrow> 'd process \<Rightarrow> 'd process \<Rightarrow> bool" for ta A fs sockfd where
  work: "exit_code p = None \<Longrightarrow> whole_step ta A (without_paths (removed p) fs) (server_part p) W \<Longrightarrow>
    process_step ta A fs sockfd p
      (p\<lparr>server_part := W, misused := misused p \<or> \<not> mutex_exists p \<and> holder (pool_part W) \<noteq> holder_of p\<rparr>)"
| signal: "exit_code p = None \<Longrightarrow> handler p = None \<Longrightarrow>
    process_step ta A fs sockfd p (p\<lparr>handler := Some (handle_signal True sockfd)\<rparr>)"
| handle: "exit_code p = None \<Longrightarrow> handler p = Some (e # es) \<Longrightarrow>
    process_step ta A fs sockfd p ((do_event e p)\<lparr>handler := Some es\<rparr>)"

definition start_process :: "'d whole \<Rightarrow> 'd process" where
  "start_process W = \<lparr>server_part = W, handler = None, removed = {}, closed = {}, mutex_exists = True, misused = False, exit_code = None\<rparr>"

section \<open>The handler\<close>

lemma without_no_paths [simp]: "without_paths {} fs = fs"
  by (simp add: without_paths_def)

lemma run_handler:
  "run_events (handle_signal True sockfd) p =
     p\<lparr>removed := insert ''/dev/aesdchar'' (removed p), closed := (if sockfd = -1 then {} else {sockfd}) \<union> closed p,
       mutex_exists := mutex_exists p \<and> holder_of p \<noteq> None, misused := misused p \<or> holder_of p \<noteq> None, exit_code := Some 0\<rparr>"
  by (cases p) (simp add: run_events_def handle_signal_def FILE_PATH_def)

text \<open>Before a signal the process is the server of \<open>Whole_Server\<close>.\<close>

lemma before_signal:
  assumes "(process_step ta A fs sockfd)\<^sup>*\<^sup>* (start_process W) p" and "handler p = None"
  shows "(whole_step ta A fs)\<^sup>*\<^sup>* W (server_part p) \<and> removed p = {} \<and> closed p = {} \<and> mutex_exists p \<and> \<not> misused p \<and> exit_code p = None"
  using assms
proof (induction rule: rtranclp_induct)
  case base
  then show ?case by (simp add: start_process_def)
next
  case (step p q)
  from step(2) show ?case
  proof (cases rule: process_step.cases)
    case (work W')
    then show ?thesis using step(3,4) by (auto intro: rtranclp.rtrancl_into_rtrancl)
  qed (use step(4) in simp_all)
qed

text \<open>
  (C13) Shutdown. The clients each send at least one byte and the allocator serves buffers for what they send, the device
  can be opened, and no seek command to a position outside the log has been begun. Then whenever a signal arrives the
  driver is as a sequence of whole messages, each written by one call of \<open>aesd_write\<close>, has left it, though threads
  are stopped in the middle of their work; its invariant holds and its mutex is free. The calls of the handler, made without a thread running in between, end the process with 0, with its socket
  closed and the device node removed; they destroy the mutex of the server while it is locked exactly when a thread
  holds it, which POSIX leaves undefined.
\<close>

theorem shutdown_safe:
  assumes "alloc_ok A" and "alloc_serves A limit" and "limit < 2 ^ 63" and "sys_ok A limit K F S0" and "starts P0 S0"
    and "\<forall>w \<in> set (workers P0). \<not> tstate.status (wst w)"
    and "(process_step ta A (vfs_ops K) sockfd)\<^sup>*\<^sup>* (start_process (start_whole P0)) p" and "handler p = None"
    and "\<not> rejection A K P0 (pool_part (server_part p))"
  shows "(\<exists>S n dev who. (srv_step A (vfs_ops K))\<^sup>*\<^sup>* S0 S \<and> history A K S0 S n dev who \<and>
      dev n = vdrv (shared (pool_part (server_part p)))) \<and>
    drv_inv F (vdrv (shared (pool_part (server_part p)))) \<and> \<not> locked (vdrv (shared (pool_part (server_part p)))) \<and>
    (let q = run_events (handle_signal True sockfd) p
     in exit_code q = Some 0 \<and> server_part q = server_part p \<and> removed q = {''/dev/aesdchar''} \<and>
        closed q = (if sockfd = -1 then {} else {sockfd}) \<and> (misused q \<longleftrightarrow> holder_of p \<noteq> None))"
proof (intro conjI)
  let ?P = "pool_part (server_part p)"
  note sig = before_signal [OF assms(7,8)]
  have "\<forall>w \<in> set (workers P0). wpc w = At_malloc \<and> \<not> tstate.status (wst w)"
    using assms(5,6) by (auto simp: starts_def in_set_conv_nth)
  then have steps: "(pool_step A (vfs_ops K))\<^sup>*\<^sup>* P0 ?P" using whole_run sig by blast
  obtain S n dev who where h: "(srv_step A (vfs_ops K))\<^sup>*\<^sup>* S0 S" "history A K S0 S n dev who" "dev n = vdrv (shared ?P)"
      "drv_inv F (vdrv (shared ?P)) \<and> \<not> locked (vdrv (shared ?P))"
    by (rule history_run [OF assms(1-5) steps assms(9)]) blast
  then show "\<exists>S n dev who. (srv_step A (vfs_ops K))\<^sup>*\<^sup>* S0 S \<and> history A K S0 S n dev who \<and> dev n = vdrv (shared ?P)"
    by blast
  show "drv_inv F (vdrv (shared ?P))" "\<not> locked (vdrv (shared ?P))" using h(4) by simp_all
  show "let q = run_events (handle_signal True sockfd) p
     in exit_code q = Some 0 \<and> server_part q = server_part p \<and> removed q = {''/dev/aesdchar''} \<and>
        closed q = (if sockfd = -1 then {} else {sockfd}) \<and> (misused q \<longleftrightarrow> holder_of p \<noteq> None)"
    using sig by (auto simp: run_handler Let_def)
qed

theorem shutdown_safe_witness:
  "drv_inv Map.empty (vdrv (shared demo_pool)) \<and>
   exit_code (run_events (handle_signal True 3) (start_process (start_whole demo_pool))) = Some 0"
proof -
  have "\<forall>w \<in> set (workers demo_pool). \<not> tstate.status (wst w)" by (simp add: demo_pool_def demo_thread_def)
  from shutdown_safe [OF zero_alloc_ok zero_alloc_serves _ demo_sys_ok demo_starts this rtranclp.rtrancl_refl _ demo_no_rejection, where sockfd = 3]
  show ?thesis by (simp add: start_process_def start_whole_def Let_def)
qed

section \<open>A thread that does not let go\<close>

lemma silent_step:
  assumes "pool_step A fs P P'" and "holder P = Some i" and "waiting (workers P ! i)"
  shows "holder P' = Some i \<and> workers P' ! i = workers P ! i"
proof -
  obtain j t pc where j: "\<not> waiting (workers P ! j)" "next_of A fs P j = ret (t, pc)" "P' = put P j t pc"
    using assms(1) by (auto elim!: pool_step_cases)
  then have "j \<noteq> i" using assms(3) by blast
  moreover have "\<not> wants_lock (wpc (workers P ! j))" using blocked_lock [of P j A fs] j(2) assms(2) by auto
  ultimately show ?thesis using j(3) assms(2) by (simp add: holder_put)
qed

text \<open>
  The thread \<open>w\<close> holds the mutex, and the handler has not yet come to the call that destroys it, or has
  misused it.
\<close>

definition stuck_holder :: "int \<Rightarrow> nat \<Rightarrow> 'd worker \<Rightarrow> 'd process \<Rightarrow> bool" where
  "stuck_holder sockfd i w p \<longleftrightarrow> holder_of p = Some i \<and> workers (pool_part (server_part p)) ! i = w \<and>
     (if exit_code p = None then
        handler p \<in> {None, Some (handle_signal True sockfd), Some (tl (handle_signal True sockfd)), Some [Destroy_mutex, Closelog, Exit 0]} \<or>
        misused p \<and> handler p \<in> {Some [Closelog, Exit 0], Some [Exit 0]}
      else exit_code p = Some 0 \<and> misused p)"

lemma stuck_holder_step:
  assumes "process_step ta A fs sockfd p q" and "stuck_holder sockfd i w p" and "waiting w"
  shows "stuck_holder sockfd i w q"
  using assms(1)
proof (cases rule: process_step.cases)
  case (work W)
  let ?P = "pool_part (server_part p)"
  have "pool_part W = ?P \<or> pool_step A (without_paths (removed p) fs) ?P (pool_part W)" using whole_step_pool [OF work(3)] by auto
  then have "holder (pool_part W) = Some i \<and> workers (pool_part W) ! i = w"
    using silent_step [of A "without_paths (removed p) fs" ?P "pool_part W" i] assms(2,3) by (auto simp: stuck_holder_def)
  then show ?thesis using work(1,2) assms(2) by (auto simp: stuck_holder_def)
qed (use assms(2) in \<open>auto simp: stuck_holder_def handle_signal_def split: if_splits\<close>)

text \<open>A handler that has begun can always go on to the exit.\<close>

lemma handler_exits:
  assumes "exit_code p = None" and "handler p = Some (es @ [Exit c])" and "\<forall>e \<in> set es. \<forall>c. e \<noteq> Exit c"
  shows "\<exists>q. (process_step ta A fs sockfd)\<^sup>*\<^sup>* p q \<and> exit_code q = Some c"
  using assms
proof (induction es arbitrary: p)
  case Nil
  then have "process_step ta A fs sockfd p ((do_event (Exit c) p)\<lparr>handler := Some []\<rparr>)" by (intro process_step.handle) simp_all
  then show ?case by (intro exI [of _ "(do_event (Exit c) p)\<lparr>handler := Some []\<rparr>"]) auto
next
  case (Cons e es)
  let ?q = "(do_event e p)\<lparr>handler := Some (es @ [Exit c])\<rparr>"
  have st: "process_step ta A fs sockfd p ?q" using Cons.prems by (intro process_step.handle) simp_all
  have "exit_code (do_event e p) = None" using Cons.prems by (cases e) simp_all
  then obtain q where "(process_step ta A fs sockfd)\<^sup>*\<^sup>* ?q q" "exit_code q = Some c" using Cons.IH [of ?q] Cons.prems by auto
  then show ?case using st by (meson converse_rtranclp_into_rtranclp)
qed

text \<open>
  (C38) With a silent client the server only ends by a misuse of its mutex: a thread that waits for the client holds the
  mutex as long as the process lives, so however the threads and the handler are interleaved, before and after a signal,
  the handler never finds the mutex free. The process can still be stopped, but whenever it has exited its handler
  has destroyed the mutex while the thread held it, which POSIX leaves undefined.
\<close>

theorem silent_client_unclean_exit:
  assumes "holder_of p = Some i" and "waiting (workers (pool_part (server_part p)) ! i)"
    and "handler p = None" and "exit_code p = None"
    and "(process_step ta A fs sockfd)\<^sup>*\<^sup>* p p'"
  shows "holder_of p' = Some i \<and> (exit_code p' \<noteq> None \<longrightarrow> exit_code p' = Some 0 \<and> misused p') \<and>
    (\<exists>q. (process_step ta A fs sockfd)\<^sup>*\<^sup>* p q \<and> exit_code q = Some 0)"
proof (intro conjI)
  let ?w = "workers (pool_part (server_part p)) ! i"
  have "stuck_holder sockfd i ?w p" using assms(1,3,4) by (simp add: stuck_holder_def)
  with assms(5) have d: "stuck_holder sockfd i ?w p'"
    by (induction rule: rtranclp_induct) (auto intro: stuck_holder_step assms(2))
  then show "holder_of p' = Some i" by (simp add: stuck_holder_def)
  show "exit_code p' \<noteq> None \<longrightarrow> exit_code p' = Some 0 \<and> misused p'" using d by (auto simp: stuck_holder_def split: if_splits)
  let ?p = "p\<lparr>handler := Some (handle_signal True sockfd)\<rparr>"
  have st: "process_step ta A fs sockfd p ?p" using assms(3,4) by (intro process_step.signal)
  have "\<exists>q. (process_step ta A fs sockfd)\<^sup>*\<^sup>* ?p q \<and> exit_code q = Some 0"
    by (rule handler_exits [of ?p "butlast (handle_signal True sockfd)"]) (use assms(4) in \<open>auto simp: handle_signal_def\<close>)
  then show "\<exists>q. (process_step ta A fs sockfd)\<^sup>*\<^sup>* p q \<and> exit_code q = Some 0" using st by (meson converse_rtranclp_into_rtranclp)
qed

theorem silent_client_unclean_exit_witness:
  "\<forall>p'. \<not> ((process_step 99 zero_alloc (vfs_ops srv_kernel) 3)\<^sup>*\<^sup>* (start_process (demo_whole\<lparr>pool_part := silent_pool\<rparr>)) p' \<and>
     exit_code p' \<noteq> None \<and> \<not> misused p')"
proof -
  have "waiting (workers silent_pool ! 0)" by (simp add: waiting_def silent_pool_def)
  moreover have "holder silent_pool = Some 0" by (simp add: silent_pool_def)
  ultimately have "(exit_code p' \<noteq> None \<longrightarrow> exit_code p' = Some 0 \<and> misused p')"
    if "(process_step 99 zero_alloc (vfs_ops srv_kernel) 3)\<^sup>*\<^sup>* (start_process (demo_whole\<lparr>pool_part := silent_pool\<rparr>)) p'" for p'
    using silent_client_unclean_exit [OF _ _ _ _ that, of 0] by (simp add: start_process_def)
  then show ?thesis by blast
qed

end
