(* ===== verification/Timestamp.thy ===== *)
theory Timestamp
  imports Server_Session
begin

text \<open>
  The timestamp thread of \<open>src/server/aesdsocket.c\<close>, which is compiled when the server works on a regular file. The
  text of each timestamp comes from the environment (\<open>strftime\<close>); the list of timestamps is as long as
  the number of rounds before \<open>stop\<close> is set.
\<close>

definition timestamp_round :: "'d file_ops \<Rightarrow> bool \<Rightarrow> 'd tstate \<Rightarrow> byte list \<Rightarrow> 'd tstate prog" where
  "timestamp_round fs use_dev t timestamp =
     seq (pthread_mutex_lock t) (\<lambda>t.
       case fs_open fs (fsys t) (FILE_PATH use_dev) [O_WRONLY, O_APPEND, O_CREAT] of
         (d, file_fd) \<Rightarrow>
           if file_fd \<noteq> -1 then
             (case fs_write fs d file_fd timestamp of
                Undefined \<Rightarrow> Some Undefined
              | Blocked \<Rightarrow> Some Blocked
              | Returned (d, _) \<Rightarrow> pthread_mutex_unlock (t\<lparr>fsys := fs_close fs d file_fd\<rparr>))
           else pthread_mutex_unlock (t\<lparr>fsys := d\<rparr>))"

fun timestamp_threadfunc :: "'d file_ops \<Rightarrow> bool \<Rightarrow> 'd tstate \<Rightarrow> byte list list \<Rightarrow> 'd tstate prog" where
  "timestamp_threadfunc fs use_dev t [] = ret t"
| "timestamp_threadfunc fs use_dev t (ts # tss) =
     seq (timestamp_round fs use_dev t ts) (\<lambda>t. timestamp_threadfunc fs use_dev t tss)"

context log_file
begin

text \<open>A round adds its timestamp to the log or, when a call fails, leaves the log alone; it gives the mutex back.\<close>

lemma timestamp_round_correct:
  assumes "good (fsys t)" and "\<not> aesdsocket_mutex t" and "length ts < 2 ^ 63" and "path = FILE_PATH use_dev"
  shows "\<exists>d. timestamp_round fs use_dev t ts = ret (t\<lparr>fsys := d\<rparr>) \<and> good d \<and>
    (case fs_open fs (fsys t) path [O_WRONLY, O_APPEND, O_CREAT] of
       (d1, fd) \<Rightarrow>
         if fd = -1 \<or> (\<exists>d2. fs_write fs d1 fd ts = Returned (d2, -1)) then refuses (content (fsys t)) (part (fsys t)) ts (content d) (part d)
         else accepts (content (fsys t)) (part (fsys t)) ts (content d) (part d))"
proof -
  obtain d fd where o: "fs_open fs (fsys t) path [O_WRONLY, O_APPEND, O_CREAT] = (d, fd)" by fastforce
  have d: "good d" "content d = content (fsys t)" "part d = part (fsys t)" "fd = -1 \<or> fpos d fd = Some 0"
    using open_law [OF assms(1) o] by auto
  have t: "t\<lparr>aesdsocket_mutex := True, fsys := x, aesdsocket_mutex := False\<rparr> = t\<lparr>fsys := x\<rparr>" for x
    using assms(2) by (cases t) simp
  show ?thesis
  proof (cases "fd = -1")
    case True
    then have "timestamp_round fs use_dev t ts = ret (t\<lparr>fsys := d\<rparr>)" using o assms(2,4) t [of d]
      by (simp add: timestamp_round_def pthread_mutex_lock_def pthread_mutex_unlock_def)
    then show ?thesis using d o True by (auto simp: refuses_def)
  next
    case False
    obtain d' r where w: "fs_write fs d fd ts = Returned (d', r)" "good d'"
        "if r = -1 then refuses (content d) (part d) ts (content d') (part d')
         else r = int (length ts) \<and> accepts (content d) (part d) ts (content d') (part d')"
      using write_law [OF d(1) _ assms(3)] d(4) False by blast
    let ?d = "fs_close fs d' fd"
    have c: "good ?d" "content ?d = content d'" "part ?d = part d'" using close_law [OF w(2)] by auto
    have "timestamp_round fs use_dev t ts = ret (t\<lparr>fsys := ?d\<rparr>)" using o w(1) False assms(2,4) t [of ?d]
      by (simp add: timestamp_round_def pthread_mutex_lock_def pthread_mutex_unlock_def)
    then show ?thesis using c d w o False by (intro exI [of _ ?d]) auto
  qed
qed

text \<open>The thread never blocks on a mutex the others leave free, and ends once \<open>stop\<close> is set.\<close>

lemma timestamp_threadfunc_ends:
  assumes "good (fsys t)" and "\<not> aesdsocket_mutex t" and "list_all (\<lambda>ts. length ts < 2 ^ 63) tss" and "path = FILE_PATH use_dev"
  shows "\<exists>d. timestamp_threadfunc fs use_dev t tss = ret (t\<lparr>fsys := d\<rparr>) \<and> good d"
  using assms(1-3)
proof (induction tss arbitrary: t)
  case Nil
  then show ?case by (intro exI [of _ "fsys t"]) simp
next
  case (Cons ts tss)
  obtain d where d: "timestamp_round fs use_dev t ts = ret (t\<lparr>fsys := d\<rparr>)" "good d"
    using timestamp_round_correct [of t ts use_dev] Cons.prems assms(4) by auto
  then show ?case using Cons.IH [of "t\<lparr>fsys := d\<rparr>"] Cons.prems by simp
qed

end

end
