(* ===== verification/Queue_List.thy ===== *)
theory Queue_List
  imports Queue_Cells
begin

text \<open>
  The doubly-linked list macros (\<open>LIST_*\<close>) of \<open>src/server/queue.h\<close>. An element points to
  its successor, and back to the cell that points to it; the head is one cell. \<open>None\<close> is the use
  of a pointer that is \<open>NULL\<close> or no live object.
\<close>

section \<open>Memory\<close>

record list_head =
  lh_first :: ptr

record 'e list_elem =
  le_next :: ptr
  le_prev :: cell
  le_data :: 'e

record 'e list_mem =
  l_heads :: "ptr \<Rightarrow> list_head option"
  l_elems :: "ptr \<Rightarrow> 'e list_elem option"

text \<open>Reading and writing through the address of a link.\<close>

fun list_load :: "'e list_mem \<Rightarrow> cell \<Rightarrow> ptr option" where
  "list_load m (First h) = map_option lh_first (deref (l_heads m) h)"
| "list_load m (Next x) = map_option le_next (deref (l_elems m) x)"

fun list_upd :: "'e list_mem \<Rightarrow> cell \<Rightarrow> ptr \<Rightarrow> 'e list_mem" where
  "list_upd m (First h) v = m\<lparr>l_heads := change (l_heads m) h (\<lambda>r. r\<lparr>lh_first := v\<rparr>)\<rparr>"
| "list_upd m (Next x) v = m\<lparr>l_elems := change (l_elems m) x (\<lambda>e. e\<lparr>le_next := v\<rparr>)\<rparr>"

definition list_store :: "'e list_mem \<Rightarrow> cell \<Rightarrow> ptr \<Rightarrow> 'e list_mem option" where
  "list_store m c v = (if list_load m c = None then None else Some (list_upd m c v))"

definition le_prev_of :: "'e list_mem \<Rightarrow> ptr \<Rightarrow> cell option" where
  "le_prev_of m x = map_option le_prev (deref (l_elems m) x)"

definition upd_le_prev :: "'e list_mem \<Rightarrow> ptr \<Rightarrow> cell \<Rightarrow> 'e list_mem" where
  "upd_le_prev m x c = m\<lparr>l_elems := change (l_elems m) x (\<lambda>e. e\<lparr>le_prev := c\<rparr>)\<rparr>"

definition set_le_prev :: "'e list_mem \<Rightarrow> ptr \<Rightarrow> cell \<Rightarrow> 'e list_mem option" where
  "set_le_prev m x c = (if le_prev_of m x = None then None else Some (upd_le_prev m x c))"

section \<open>Operations\<close>

definition LIST_FIRST :: "'e list_mem \<Rightarrow> ptr \<Rightarrow> ptr option" where
  "LIST_FIRST m head = list_load m (First head)"

definition LIST_NEXT :: "'e list_mem \<Rightarrow> ptr \<Rightarrow> ptr option" where
  "LIST_NEXT m elm = list_load m (Next elm)"

definition LIST_EMPTY :: "'e list_mem \<Rightarrow> ptr \<Rightarrow> bool option" where
  "LIST_EMPTY m head = map_option (\<lambda>p. p = NULL) (list_load m (First head))"

text \<open>
  \<open>__containerof\<close> turns the address of a link of an element into the element; the address of
  the link of another head is no element.
\<close>

definition LIST_PREV :: "'e list_mem \<Rightarrow> ptr \<Rightarrow> ptr \<Rightarrow> ptr option" where
  "LIST_PREV m elm head =
     do {
       c \<leftarrow> le_prev_of m elm;
       if c = First head then Some NULL
       else (case c of Next x \<Rightarrow> Some x | First _ \<Rightarrow> None)
     }"

definition LIST_HEAD_INITIALIZER :: list_head where
  "LIST_HEAD_INITIALIZER = \<lparr>lh_first = NULL\<rparr>"

definition LIST_INIT :: "'e list_mem \<Rightarrow> ptr \<Rightarrow> 'e list_mem option" where
  "LIST_INIT m head = list_store m (First head) NULL"

definition LIST_INSERT_HEAD :: "'e list_mem \<Rightarrow> ptr \<Rightarrow> ptr \<Rightarrow> 'e list_mem option" where
  "LIST_INSERT_HEAD m head elm =
     do {
       first \<leftarrow> list_load m (First head);
       m \<leftarrow> list_store m (Next elm) first;
       m \<leftarrow> (if first \<noteq> NULL then do { f \<leftarrow> list_load m (First head); set_le_prev m f (Next elm) } else Some m);
       m \<leftarrow> list_store m (First head) elm;
       set_le_prev m elm (First head)
     }"

definition LIST_INSERT_BEFORE :: "'e list_mem \<Rightarrow> ptr \<Rightarrow> ptr \<Rightarrow> 'e list_mem option" where
  "LIST_INSERT_BEFORE m listelm elm =
     do {
       c \<leftarrow> le_prev_of m listelm;
       m \<leftarrow> set_le_prev m elm c;
       m \<leftarrow> list_store m (Next elm) listelm;
       c \<leftarrow> le_prev_of m listelm;
       m \<leftarrow> list_store m c elm;
       set_le_prev m listelm (Next elm)
     }"

definition LIST_INSERT_AFTER :: "'e list_mem \<Rightarrow> ptr \<Rightarrow> ptr \<Rightarrow> 'e list_mem option" where
  "LIST_INSERT_AFTER m listelm elm =
     do {
       n \<leftarrow> list_load m (Next listelm);
       m \<leftarrow> list_store m (Next elm) n;
       m \<leftarrow> (if n \<noteq> NULL then do { n \<leftarrow> list_load m (Next listelm); set_le_prev m n (Next elm) } else Some m);
       m \<leftarrow> list_store m (Next listelm) elm;
       set_le_prev m elm (Next listelm)
     }"

definition LIST_REMOVE :: "'e list_mem \<Rightarrow> ptr \<Rightarrow> 'e list_mem option" where
  "LIST_REMOVE m elm =
     do {
       n \<leftarrow> list_load m (Next elm);
       m \<leftarrow> (if n \<noteq> NULL then do { c \<leftarrow> le_prev_of m elm; set_le_prev m n c } else Some m);
       c \<leftarrow> le_prev_of m elm;
       n \<leftarrow> list_load m (Next elm);
       list_store m c n
     }"

definition LIST_REPLACE :: "'e list_mem \<Rightarrow> ptr \<Rightarrow> ptr \<Rightarrow> 'e list_mem option" where
  "LIST_REPLACE m elm elm2 =
     do {
       n \<leftarrow> list_load m (Next elm);
       m \<leftarrow> list_store m (Next elm2) n;
       m \<leftarrow> (if n \<noteq> NULL then do { n \<leftarrow> list_load m (Next elm2); set_le_prev m n (Next elm2) } else Some m);
       c \<leftarrow> le_prev_of m elm;
       m \<leftarrow> set_le_prev m elm2 c;
       c \<leftarrow> le_prev_of m elm2;
       list_store m c elm2
     }"

definition LIST_SWAP :: "'e list_mem \<Rightarrow> ptr \<Rightarrow> ptr \<Rightarrow> 'e list_mem option" where
  "LIST_SWAP m head1 head2 =
     do {
       swap_tmp \<leftarrow> LIST_FIRST m head1;
       f2 \<leftarrow> LIST_FIRST m head2;
       m \<leftarrow> list_store m (First head1) f2;
       m \<leftarrow> list_store m (First head2) swap_tmp;
       swap_tmp \<leftarrow> LIST_FIRST m head1;
       m \<leftarrow> (if swap_tmp \<noteq> NULL then set_le_prev m swap_tmp (First head1) else Some m);
       swap_tmp \<leftarrow> LIST_FIRST m head2;
       if swap_tmp \<noteq> NULL then set_le_prev m swap_tmp (First head2) else Some m
     }"

definition LIST_FOREACH ::
  "(ptr \<Rightarrow> 'e list_mem \<Rightarrow> 's \<Rightarrow> ('e list_mem \<times> 's) prog) \<Rightarrow> ptr \<Rightarrow> 'e list_mem \<Rightarrow> 's \<Rightarrow> ('e list_mem \<times> 's) prog" where
  "LIST_FOREACH body head m s =
     seq (of_option (list_load m (First head))) (\<lambda>var. for_loop LIST_NEXT NULL body var m s)"

definition LIST_FOREACH_SAFE ::
  "(ptr \<Rightarrow> 'e list_mem \<Rightarrow> 's \<Rightarrow> ('e list_mem \<times> 's) prog) \<Rightarrow> ptr \<Rightarrow> 'e list_mem \<Rightarrow> 's \<Rightarrow> ('e list_mem \<times> 's) prog" where
  "LIST_FOREACH_SAFE body head m s =
     seq (of_option (LIST_FIRST m head)) (\<lambda>var. for_safe_loop LIST_NEXT NULL body var m s)"

section \<open>Reading after writing\<close>

named_theorems list_mem \<open>loads and stores of the list memory\<close>

lemma list_load_upd [list_mem]:
  "list_load (list_upd m c v) d = (if d = c \<and> list_load m c \<noteq> None then Some v else list_load m d)"
  by (cases c; cases d) (auto simp: deref_change split: option.split)

lemma list_load_upd_fun: "list_load m c \<noteq> None \<Longrightarrow> list_load (list_upd m c v) = (list_load m)(c \<mapsto> v)"
  by (rule ext) (auto simp: list_load_upd)

lemma le_prev_of_upd [list_mem]: "le_prev_of (list_upd m c v) = le_prev_of m"
  by (cases c) (auto simp: le_prev_of_def deref_change option.map_comp fun_eq_iff comp_def intro!: option.map_cong)

lemma list_load_le_prev [list_mem]: "list_load (upd_le_prev m x c) = list_load m"
proof
  show "list_load (upd_le_prev m x c) d = list_load m d" for d
    by (cases d) (auto simp: upd_le_prev_def deref_change option.map_comp comp_def intro!: option.map_cong)
qed

lemma le_prev_of_le_prev [list_mem]:
  "le_prev_of (upd_le_prev m x c) y = (if y = x \<and> le_prev_of m x \<noteq> None then Some c else le_prev_of m y)"
  by (auto simp: le_prev_of_def upd_le_prev_def deref_change split: option.split)

lemma le_prev_of_upd_fun: "le_prev_of m x \<noteq> None \<Longrightarrow> le_prev_of (upd_le_prev m x c) = (le_prev_of m)(x \<mapsto> c)"
  by (rule ext) (auto simp: le_prev_of_le_prev)

lemma live_le_prev: "list_load m (Next x) \<noteq> None \<longleftrightarrow> le_prev_of m x \<noteq> None"
  by (auto simp: le_prev_of_def)

definition list_alive :: "'e list_mem \<Rightarrow> ptr \<Rightarrow> bool" where
  "list_alive m x \<longleftrightarrow> deref (l_elems m) x \<noteq> None"

definition list_data :: "'e list_mem \<Rightarrow> ptr \<Rightarrow> 'e option" where
  "list_data m x = map_option le_data (l_elems m x)"

lemma list_alive_load: "list_alive m x \<longleftrightarrow> list_load m (Next x) \<noteq> None"
  by (simp add: list_alive_def)

lemma list_alive_prev: "list_alive m x \<longleftrightarrow> le_prev_of m x \<noteq> None"
  by (simp add: list_alive_def le_prev_of_def)

lemma list_alive_same [list_mem]:
  "list_alive (list_upd m c v) = list_alive m" "list_alive (upd_le_prev m x d) = list_alive m"
  by (cases c; auto simp: list_alive_def deref_change fun_eq_iff)
     (auto simp: list_alive_def upd_le_prev_def deref_change fun_eq_iff)

lemma list_data_same [list_mem]:
  "list_data (list_upd m c v) = list_data m" "list_data (upd_le_prev m x d) = list_data m"
  by (cases c; auto simp: list_data_def change_def fun_eq_iff option.map_comp comp_def intro!: option.map_cong)
     (auto simp: list_data_def upd_le_prev_def change_def fun_eq_iff option.map_comp comp_def intro!: option.map_cong)

declare list_load.simps [simp del] list_upd.simps [simp del]

section \<open>The list behind the pointers\<close>

definition list_is :: "'e list_mem \<Rightarrow> ptr \<Rightarrow> ptr list \<Rightarrow> bool" where
  "list_is m h ps \<longleftrightarrow> run (list_load m) NULL (First h) ps \<and> backs (le_prev_of m) (First h) ps"

text \<open>
  What an operation on the list at \<open>h\<close> may change: the links and back pointers of the
  elements in \<open>A\<close> and the link of \<open>h\<close>; never which objects are live, nor their contents.
\<close>

definition list_frame :: "ptr \<Rightarrow> ptr set \<Rightarrow> 'e list_mem \<Rightarrow> 'e list_mem \<Rightarrow> bool" where
  "list_frame h A m m' \<longleftrightarrow>
     (\<forall>c. c \<noteq> First h \<longrightarrow> c \<notin> Next ` A \<longrightarrow> list_load m' c = list_load m c) \<and>
     (\<forall>x. x \<notin> A \<longrightarrow> le_prev_of m' x = le_prev_of m x) \<and>
     list_alive m' = list_alive m \<and> list_data m' = list_data m"

lemma list_frame_other:
  assumes "list_frame h A m m'" and "list_is m k qs" and "k \<noteq> h" and "set qs \<inter> A = {}"
  shows "list_is m' k qs"
proof -
  have "run (list_load m') NULL (First k) qs = run (list_load m) NULL (First k) qs"
    using assms by (intro run_cong) (auto simp: list_frame_def)
  moreover have "backs (le_prev_of m') (First k) qs = backs (le_prev_of m) (First k) qs"
    using assms by (intro backs_cong) (auto simp: list_frame_def)
  ultimately show ?thesis using assms(2) by (simp add: list_is_def)
qed

lemma list_is_load: "list_is m h (as @ bs) \<Longrightarrow> list_load m (lastc (First h) as) = Some (case bs of [] \<Rightarrow> NULL | y # _ \<Rightarrow> y)"
  unfolding list_is_def run_append by (cases bs) auto

lemma list_is_prev: "list_is m h (as @ y # bs) \<Longrightarrow> le_prev_of m y = Some (lastc (First h) as)"
  by (simp add: list_is_def)

lemma list_is_mem:
  assumes "list_is m h ps" and "x \<in> set ps"
  shows "list_alive m x" and "x \<noteq> NULL"
  using assms run_live [of "list_load m" NULL "First h" ps x] run_fin [of "list_load m" NULL "First h" ps]
  by (auto simp: list_is_def list_alive_load)

lemma list_is_distinct: "list_is m h ps \<Longrightarrow> distinct ps"
  unfolding list_is_def using run_distinct by blast

text \<open>A memory that differs by an insertion, a removal or a replacement.\<close>

lemma list_insert_is:
  assumes l: "list_is m h (as @ bs)" and x: "x \<noteq> NULL" "x \<notin> set (as @ bs)"
    and ld: "list_load m' = (list_load m)(Next x := list_load m (lastc (First h) as), lastc (First h) as \<mapsto> x)"
    and bk: "le_prev_of m' = (set_back (le_prev_of m) bs (Next x))(x \<mapsto> lastc (First h) as)"
    and same: "list_alive m' = list_alive m" "list_data m' = list_data m"
  shows "list_is m' h (as @ x # bs) \<and> list_frame h (insert x (set (as @ bs))) m m'"
proof
  show "list_is m' h (as @ x # bs)"
    using l x list_is_distinct [OF l] unfolding list_is_def ld bk by (intro conjI run_insert backs_insert) auto
  show "list_frame h (insert x (set (as @ bs))) m m'"
    unfolding list_frame_def ld bk using same lastc_cases [of h as] by (cases bs) auto
qed

lemma list_remove_is:
  assumes l: "list_is m h (as @ x # bs)"
    and ld: "list_load m' = (list_load m)(lastc (First h) as := list_load m (Next x))"
    and bk: "le_prev_of m' = set_back (le_prev_of m) bs (lastc (First h) as)"
    and same: "list_alive m' = list_alive m" "list_data m' = list_data m"
  shows "list_is m' h (as @ bs) \<and> list_frame h (set (as @ x # bs)) m m'"
proof
  show "list_is m' h (as @ bs)"
    using l list_is_distinct [OF l] unfolding list_is_def ld bk by (intro conjI run_remove backs_remove) auto
  show "list_frame h (set (as @ x # bs)) m m'"
    unfolding list_frame_def ld bk using same lastc_cases [of h as] by (cases bs) auto
qed

lemma list_replace_is:
  assumes l: "list_is m h (as @ x # bs)" and y: "y \<noteq> NULL" "y \<notin> set (as @ x # bs)"
    and ld: "list_load m' = (list_load m)(Next y := list_load m (Next x), lastc (First h) as \<mapsto> y)"
    and bk: "le_prev_of m' = (set_back (le_prev_of m) bs (Next y))(y \<mapsto> lastc (First h) as)"
    and same: "list_alive m' = list_alive m" "list_data m' = list_data m"
  shows "list_is m' h (as @ y # bs) \<and> list_frame h (insert y (set (as @ x # bs))) m m'"
proof
  show "list_is m' h (as @ y # bs)"
    using l y list_is_distinct [OF l] unfolding list_is_def ld bk by (intro conjI run_replace backs_replace [where x = x]) auto
  show "list_frame h (insert y (set (as @ x # bs))) m m'"
    unfolding list_frame_def ld bk using same lastc_cases [of h as] by (cases bs) auto
qed

section \<open>The operations on the list\<close>

lemmas list_exec = list_store_def set_le_prev_def list_mem list_load_upd_fun le_prev_of_upd_fun

lemma LIST_INSERT_BEFORE_is:
  assumes l: "list_is m h (as @ y # bs)" and x: "list_alive m x" "x \<notin> set (as @ y # bs)" "x \<noteq> NULL"
  shows "\<exists>m'. LIST_INSERT_BEFORE m y x = Some m' \<and> list_is m' h (as @ x # y # bs) \<and>
    list_frame h (insert x (set (as @ y # bs))) m m'"
proof -
  let ?c = "lastc (First h) as"
  have y: "le_prev_of m y = Some ?c" "list_load m ?c = Some y" "y \<noteq> x" "?c \<noteq> Next x"
    using list_is_prev [OF l] list_is_load [OF l] x lastc_not_new [of "First h" x as] by auto
  obtain p n where x': "le_prev_of m x = Some p" "list_load m (Next x) = Some n"
    using x(1) list_alive_prev [of m x] list_alive_load [of m x] by auto
  let ?m = "upd_le_prev (list_upd (list_upd (upd_le_prev m x ?c) (Next x) y) ?c x) y (Next x)"
  have "LIST_INSERT_BEFORE m y x = Some ?m"
    using y x' by (simp add: LIST_INSERT_BEFORE_def list_exec)
  moreover have "list_is ?m h (as @ x # y # bs) \<and> list_frame h (insert x (set (as @ y # bs))) m ?m"
    using x y x' by (intro list_insert_is [OF l]) (simp_all add: list_exec fun_upd_twist)
  ultimately show ?thesis by blast
qed

text \<open>The element behind a cell of the list, when there is one.\<close>

lemma list_is_next:
  assumes "list_is m h (as @ bs)"
  obtains "bs = []" "list_load m (lastc (First h) as) = Some NULL"
  | z zs where "bs = z # zs" "list_load m (lastc (First h) as) = Some z" "z \<noteq> NULL" "le_prev_of m z \<noteq> None"
proof (cases bs)
  case Nil
  then show ?thesis using list_is_load [OF assms] that(1) by simp
next
  case (Cons z zs)
  then show ?thesis using list_is_load [OF assms] list_is_mem [OF assms, of z] that(2) list_alive_prev [of m z] by simp
qed

lemma LIST_INSERT_AFTER_is:
  assumes l: "list_is m h (as @ y # bs)" and x: "list_alive m x" "x \<notin> set (as @ y # bs)" "x \<noteq> NULL"
  shows "\<exists>m'. LIST_INSERT_AFTER m y x = Some m' \<and> list_is m' h (as @ y # x # bs) \<and>
    list_frame h (insert x (set (as @ y # bs))) m m'"
proof -
  have l': "list_is m h ((as @ [y]) @ bs)" using l by simp
  obtain p n where x': "le_prev_of m x = Some p" "list_load m (Next x) = Some n"
    using x(1) list_alive_prev [of m x] list_alive_load [of m x] by auto
  have y: "y \<noteq> x" using x(2) by auto
  let ?m1 = "list_upd m (Next x) (case bs of [] \<Rightarrow> NULL | z # _ \<Rightarrow> z)"
  let ?m2 = "case bs of [] \<Rightarrow> ?m1 | z # _ \<Rightarrow> upd_le_prev ?m1 z (Next x)"
  let ?m = "upd_le_prev (list_upd ?m2 (Next y) x) x (Next y)"
  from l' have "LIST_INSERT_AFTER m y x = Some ?m \<and>
    list_is ?m h ((as @ [y]) @ x # bs) \<and> list_frame h (insert x (set ((as @ [y]) @ bs))) m ?m"
  proof (cases rule: list_is_next)
    case 1
    then show ?thesis using x x' y
      by (intro conjI [OF _ list_insert_is [OF l']])
        (simp_all add: LIST_INSERT_AFTER_def list_exec fun_upd_twist)
  next
    case (2 z zs)
    then show ?thesis using x x' y
      by (intro conjI [OF _ list_insert_is [OF l']])
        (simp_all add: LIST_INSERT_AFTER_def list_exec fun_upd_twist)
  qed
  then show ?thesis by auto
qed

lemma LIST_INSERT_HEAD_is:
  assumes l: "list_is m h ps" and x: "list_alive m x" "x \<notin> set ps" "x \<noteq> NULL"
  shows "\<exists>m'. LIST_INSERT_HEAD m h x = Some m' \<and> list_is m' h (x # ps) \<and> list_frame h (insert x (set ps)) m m'"
proof -
  have l': "list_is m h ([] @ ps)" using l by simp
  obtain p n where x': "le_prev_of m x = Some p" "list_load m (Next x) = Some n"
    using x(1) list_alive_prev [of m x] list_alive_load [of m x] by auto
  let ?m1 = "list_upd m (Next x) (case ps of [] \<Rightarrow> NULL | z # _ \<Rightarrow> z)"
  let ?m2 = "case ps of [] \<Rightarrow> ?m1 | z # _ \<Rightarrow> upd_le_prev ?m1 z (Next x)"
  let ?m = "upd_le_prev (list_upd ?m2 (First h) x) x (First h)"
  from l' have "LIST_INSERT_HEAD m h x = Some ?m \<and> list_is ?m h ([] @ x # ps) \<and> list_frame h (insert x (set ([] @ ps))) m ?m"
  proof (cases rule: list_is_next)
    case 1
    then show ?thesis using x x'
      by (intro conjI [OF _ list_insert_is [OF l']]) (simp_all add: LIST_INSERT_HEAD_def list_exec fun_upd_twist)
  next
    case (2 z zs)
    then show ?thesis using x x'
      by (intro conjI [OF _ list_insert_is [OF l']]) (simp_all add: LIST_INSERT_HEAD_def list_exec fun_upd_twist)
  qed
  then show ?thesis by auto
qed

lemma LIST_REMOVE_is:
  assumes l: "list_is m h (as @ x # bs)"
  shows "\<exists>m'. LIST_REMOVE m x = Some m' \<and> list_is m' h (as @ bs) \<and> list_frame h (set (as @ x # bs)) m m'"
proof -
  let ?c = "lastc (First h) as"
  have l': "list_is m h ((as @ [x]) @ bs)" using l by simp
  have x: "le_prev_of m x = Some ?c" "list_load m ?c = Some x" "distinct (as @ x # bs)"
    using list_is_prev [OF l] list_is_load [OF l] list_is_distinct [OF l] by auto
  let ?m1 = "case bs of [] \<Rightarrow> m | z # _ \<Rightarrow> upd_le_prev m z ?c"
  let ?m = "list_upd ?m1 ?c (case bs of [] \<Rightarrow> NULL | z # _ \<Rightarrow> z)"
  from l' have "LIST_REMOVE m x = Some ?m \<and> list_is ?m h (as @ bs) \<and> list_frame h (set (as @ x # bs)) m ?m"
  proof (cases rule: list_is_next)
    case 1
    then show ?thesis using x
      by (intro conjI [OF _ list_remove_is [OF l]]) (simp_all add: LIST_REMOVE_def list_exec)
  next
    case (2 z zs)
    then show ?thesis using x
      by (intro conjI [OF _ list_remove_is [OF l]]) (simp_all add: LIST_REMOVE_def list_exec)
  qed
  then show ?thesis by auto
qed

lemma LIST_REPLACE_is:
  assumes l: "list_is m h (as @ x # bs)" and y: "list_alive m y" "y \<notin> set (as @ x # bs)" "y \<noteq> NULL"
  shows "\<exists>m'. LIST_REPLACE m x y = Some m' \<and> list_is m' h (as @ y # bs) \<and>
    list_frame h (insert y (set (as @ x # bs))) m m'"
proof -
  let ?c = "lastc (First h) as"
  have l': "list_is m h ((as @ [x]) @ bs)" using l by simp
  have x: "le_prev_of m x = Some ?c" "list_load m ?c = Some x" "distinct (as @ x # bs)" "?c \<noteq> Next y" "x \<noteq> y"
    using list_is_prev [OF l] list_is_load [OF l] list_is_distinct [OF l] y lastc_not_new [of "First h" y as] by auto
  obtain p n where y': "le_prev_of m y = Some p" "list_load m (Next y) = Some n"
    using y(1) list_alive_prev [of m y] list_alive_load [of m y] by auto
  let ?m1 = "list_upd m (Next y) (case bs of [] \<Rightarrow> NULL | z # _ \<Rightarrow> z)"
  let ?m2 = "case bs of [] \<Rightarrow> ?m1 | z # _ \<Rightarrow> upd_le_prev ?m1 z (Next y)"
  let ?m = "list_upd (upd_le_prev ?m2 y ?c) ?c y"
  from l' have "LIST_REPLACE m x y = Some ?m \<and> list_is ?m h (as @ y # bs) \<and> list_frame h (insert y (set (as @ x # bs))) m ?m"
  proof (cases rule: list_is_next)
    case 1
    then show ?thesis using x y y'
      by (intro conjI [OF _ list_replace_is [OF l]]) (simp_all add: LIST_REPLACE_def list_exec)
  next
    case (2 z zs)
    then show ?thesis using x y y'
      by (intro conjI [OF _ list_replace_is [OF l]]) (simp_all add: LIST_REPLACE_def list_exec)
  qed
  then show ?thesis by auto
qed

lemma LIST_SWAP_is:
  assumes "holds_queues list_is m [(h1, ps), (h2, qs)]"
  shows "\<exists>m'. LIST_SWAP m h1 h2 = Some m' \<and> holds_queues list_is m' [(h1, qs), (h2, ps)] \<and>
    list_alive m' = list_alive m \<and> list_data m' = list_data m"
proof -
  have l: "list_is m h1 ps" "list_is m h2 qs" and ne: "h1 \<noteq> h2" "distinct ps" "distinct qs" "set ps \<inter> set qs = {}"
    using assms by (auto simp: holds_queues_def)
  have l': "list_is m h1 ([] @ ps)" "list_is m h2 ([] @ qs)" using l by simp_all
  let ?f1 = "case ps of [] \<Rightarrow> NULL | z # _ \<Rightarrow> z" and ?f2 = "case qs of [] \<Rightarrow> NULL | z # _ \<Rightarrow> z"
  let ?m1 = "list_upd (list_upd m (First h1) ?f2) (First h2) ?f1"
  let ?m2 = "case qs of [] \<Rightarrow> ?m1 | z # _ \<Rightarrow> upd_le_prev ?m1 z (First h1)"
  let ?m = "case ps of [] \<Rightarrow> ?m2 | z # _ \<Rightarrow> upd_le_prev ?m2 z (First h2)"
  have "LIST_SWAP m h1 h2 = Some ?m \<and> list_load ?m = (list_load m)(First h1 \<mapsto> ?f2, First h2 \<mapsto> ?f1) \<and>
      le_prev_of ?m = set_back (set_back (le_prev_of m) qs (First h1)) ps (First h2) \<and>
      list_alive ?m = list_alive m \<and> list_data ?m = list_data m"
    using l'(1)
  proof (cases rule: list_is_next)
    case 1
    from l'(2) show ?thesis
      by (cases rule: list_is_next) (use 1 ne in \<open>simp_all add: LIST_SWAP_def LIST_FIRST_def list_exec\<close>)
  next
    case (2 z zs)
    from l'(2) show ?thesis
      by (cases rule: list_is_next) (use 2 ne in \<open>simp_all add: LIST_SWAP_def LIST_FIRST_def list_exec\<close>)
  qed
  then obtain m' where m': "LIST_SWAP m h1 h2 = Some m'"
      and ld: "list_load m' = (list_load m)(First h1 \<mapsto> ?f2, First h2 \<mapsto> ?f1)"
      and bk: "le_prev_of m' = set_back (set_back (le_prev_of m) qs (First h1)) ps (First h2)"
      and same: "list_alive m' = list_alive m" "list_data m' = list_data m" by blast
  have "run (list_load m') NULL (First h1) qs" "run (list_load m') NULL (First h2) ps"
    using l ne list_is_load [OF l'(1)] list_is_load [OF l'(2)] unfolding ld list_is_def
    by (auto intro: run_move [of "list_load m"])
  moreover have "backs (le_prev_of m') (First h1) qs" "backs (le_prev_of m') (First h2) ps"
    using l ne unfolding bk list_is_def by (cases qs; cases ps; auto)+
  ultimately show ?thesis using m' same ne by (auto simp: holds_queues_def list_is_def)
qed

text \<open>A head that is initialized statically is the one \<open>LIST_INIT\<close> leaves.\<close>

lemma LIST_INIT_initializer:
  assumes "h \<noteq> NULL" and "l_heads m h \<noteq> None"
  shows "LIST_INIT m h = Some (m\<lparr>l_heads := (l_heads m)(h \<mapsto> LIST_HEAD_INITIALIZER)\<rparr>)"
  using assms by (cases "the (l_heads m h)") (auto simp: LIST_INIT_def list_store_def deref_def change_def
      LIST_HEAD_INITIALIZER_def list_load.simps list_upd.simps)

lemma LIST_INIT_is:
  assumes "list_load m (First h) \<noteq> None"
  shows "\<exists>m'. LIST_INIT m h = Some m' \<and> list_is m' h [] \<and> list_frame h {} m m'"
  using assms by (auto simp: LIST_INIT_def list_exec list_is_def list_frame_def)

lemma LIST_EMPTY_is: "list_is m h ps \<Longrightarrow> LIST_EMPTY m h = Some (ps = [])"
  by (cases ps) (auto simp: LIST_EMPTY_def list_is_def)

text \<open>\<open>LIST_PREV\<close> is the element before, or the end mark for the first.\<close>

lemma LIST_PREV_is: "list_is m h (as @ x # bs) \<Longrightarrow> LIST_PREV m x h = Some (if as = [] then NULL else last as)"
  using list_is_prev [of m h as x bs] by (auto simp: LIST_PREV_def lastc_last)

lemma LIST_walk: "list_is m h ps \<Longrightarrow> \<exists>p. LIST_FIRST m h = Some p \<and> walk (LIST_NEXT m) NULL p ps"
  using run_walk [of "list_load m" NULL "First h" ps] by (simp add: list_is_def LIST_FIRST_def LIST_NEXT_def [abs_def])

section \<open>The contract\<close>

fun list_run :: "'e list_mem \<Rightarrow> ptr \<Rightarrow> qop \<Rightarrow> 'e list_mem prog" where
  "list_run m h (Insert_Head x) = of_option (LIST_INSERT_HEAD m h x)"
| "list_run m h (Insert_Before y x) = of_option (LIST_INSERT_BEFORE m y x)"
| "list_run m h (Insert_After y x) = of_option (LIST_INSERT_AFTER m y x)"
| "list_run m h (Remove y) = of_option (LIST_REMOVE m y)"
| "list_run m h (Replace y x) = of_option (LIST_REPLACE m y x)"
| "list_run m h _ = Some Undefined"

fun list_supports :: "qop \<Rightarrow> bool" where
  "list_supports (Insert_Tail x) \<longleftrightarrow> False"
| "list_supports Remove_Head \<longleftrightarrow> False"
| "list_supports (Remove_After y) \<longleftrightarrow> False"
| "list_supports (Remove_Head_Until y) \<longleftrightarrow> False"
| "list_supports _ \<longleftrightarrow> True"

lemma list_alive_NULL: "list_alive m x \<Longrightarrow> x \<noteq> NULL"
  by (auto simp: list_alive_def deref_def)

lemma list_run_is:
  assumes l: "list_is m h ps" and s: "list_supports op" and n: "list_all (list_alive m) (new_elem op)"
    and f: "set (new_elem op) \<inter> set ps = {}" and ps': "spec_op op ps = Some ps'"
  shows "\<exists>m'. list_run m h op = ret m' \<and> list_is m' h ps' \<and> list_frame h (set ps \<union> set (new_elem op)) m m'"
proof -
  have split: "list_is m h (before y ps @ y # beyond y ps)" "set (before y ps @ y # beyond y ps) = set ps"
    if "y \<in> set ps" for y
    using l split_before [OF that] by simp_all
  note nn = list_alive_NULL [of m]
  show ?thesis
  proof (cases op)
    case (Insert_Head x)
    then show ?thesis using of_option_ex [OF LIST_INSERT_HEAD_is [OF l, of x]] nn n f ps' by simp
  next
    case (Insert_Before y x)
    then have y: "y \<in> set ps" using ps' by (simp split: if_splits)
    show ?thesis
      using of_option_ex [OF LIST_INSERT_BEFORE_is [OF split(1) [OF y], of x, unfolded split(2) [OF y]]] y nn n f ps' Insert_Before by simp
  next
    case (Insert_After y x)
    then have y: "y \<in> set ps" using ps' by (simp split: if_splits)
    show ?thesis
      using of_option_ex [OF LIST_INSERT_AFTER_is [OF split(1) [OF y], of x, unfolded split(2) [OF y]]] y nn n f ps' Insert_After by simp
  next
    case (Remove y)
    then have y: "y \<in> set ps" using ps' by (simp split: if_splits)
    show ?thesis using of_option_ex [OF LIST_REMOVE_is [OF split(1) [OF y], unfolded split(2) [OF y]]] y ps' Remove by simp
  next
    case (Replace y x)
    then have y: "y \<in> set ps" using ps' by (simp split: if_splits)
    show ?thesis
      using of_option_ex [OF LIST_REPLACE_is [OF split(1) [OF y], of x, unfolded split(2) [OF y]]] y nn n f ps' Replace by simp
  qed (use s in simp_all)
qed

interpretation list_lists: shared_macros list_is list_alive list_run list_supports
proof unfold_locales
  show "\<exists>m'. list_run m h op = ret m' \<and> list_is m' h ps' \<and> list_alive m' = list_alive m"
    if "list_is m h ps" "list_supports op" "list_all (list_alive m) (new_elem op)"
      "set (new_elem op) \<inter> set ps = {}" "spec_op op ps = Some ps'" for m :: "'e list_mem" and h ps op ps'
    using list_run_is [OF that] by (auto simp: list_frame_def)
  show "list_is m' k qs"
    if "list_is m h ps" "list_supports op" "list_all (list_alive m) (new_elem op)"
      "set (new_elem op) \<inter> set ps = {}" "spec_op op ps = Some ps'" "list_run m h op = ret m'"
      "list_is m k qs" "k \<noteq> h" "set qs \<inter> (set ps \<union> set (new_elem op)) = {}"
    for m m' :: "'e list_mem" and h k ps qs op ps'
    using list_run_is [OF that(1-5)] that(6) list_frame_other [OF _ that(7-9)] by auto
qed

end
