(* ===== verification/Queue_Stailq.thy ===== *)
theory Queue_Stailq
  imports Queue_Cells
begin

text \<open>
  The singly-linked tail queue macros (\<open>STAILQ_*\<close>) of \<open>src/server/queue.h\<close>. The head holds the
  first element and the address of the last link, which is the head's own when the queue
  is empty. \<open>None\<close> is the use of a pointer that is \<open>NULL\<close> or no live object.
\<close>

section \<open>Memory\<close>

record stailq_head =
  stqh_first :: ptr
  stqh_last :: cell

record 'e stailq_elem =
  stqe_next :: ptr
  stq_data :: 'e

record 'e stailq_mem =
  stq_heads :: "ptr \<Rightarrow> stailq_head option"
  stq_elems :: "ptr \<Rightarrow> 'e stailq_elem option"

fun stailq_load :: "'e stailq_mem \<Rightarrow> cell \<Rightarrow> ptr option" where
  "stailq_load m (First h) = map_option stqh_first (deref (stq_heads m) h)"
| "stailq_load m (Next x) = map_option stqe_next (deref (stq_elems m) x)"

fun stailq_upd :: "'e stailq_mem \<Rightarrow> cell \<Rightarrow> ptr \<Rightarrow> 'e stailq_mem" where
  "stailq_upd m (First h) v = m\<lparr>stq_heads := change (stq_heads m) h (\<lambda>r. r\<lparr>stqh_first := v\<rparr>)\<rparr>"
| "stailq_upd m (Next x) v = m\<lparr>stq_elems := change (stq_elems m) x (\<lambda>e. e\<lparr>stqe_next := v\<rparr>)\<rparr>"

definition stailq_store :: "'e stailq_mem \<Rightarrow> cell \<Rightarrow> ptr \<Rightarrow> 'e stailq_mem option" where
  "stailq_store m c v = (if stailq_load m c = None then None else Some (stailq_upd m c v))"

definition stqh_last_of :: "'e stailq_mem \<Rightarrow> ptr \<Rightarrow> cell option" where
  "stqh_last_of m h = map_option stqh_last (deref (stq_heads m) h)"

definition upd_stqh_last :: "'e stailq_mem \<Rightarrow> ptr \<Rightarrow> cell \<Rightarrow> 'e stailq_mem" where
  "upd_stqh_last m h c = m\<lparr>stq_heads := change (stq_heads m) h (\<lambda>r. r\<lparr>stqh_last := c\<rparr>)\<rparr>"

definition set_stqh_last :: "'e stailq_mem \<Rightarrow> ptr \<Rightarrow> cell \<Rightarrow> 'e stailq_mem option" where
  "set_stqh_last m h c = (if stqh_last_of m h = None then None else Some (upd_stqh_last m h c))"

section \<open>Operations\<close>

definition STAILQ_FIRST :: "'e stailq_mem \<Rightarrow> ptr \<Rightarrow> ptr option" where
  "STAILQ_FIRST m head = stailq_load m (First head)"

definition STAILQ_NEXT :: "'e stailq_mem \<Rightarrow> ptr \<Rightarrow> ptr option" where
  "STAILQ_NEXT m elm = stailq_load m (Next elm)"

definition STAILQ_EMPTY :: "'e stailq_mem \<Rightarrow> ptr \<Rightarrow> bool option" where
  "STAILQ_EMPTY m head = map_option (\<lambda>p. p = NULL) (stailq_load m (First head))"

text \<open>
  The last link's address, less the offset of the entry in the element, is the last element;
  of a link that belongs to no element it is no element.
\<close>

definition STAILQ_LAST :: "'e stailq_mem \<Rightarrow> ptr \<Rightarrow> ptr option" where
  "STAILQ_LAST m head =
     do {
       e \<leftarrow> STAILQ_EMPTY m head;
       if e then Some NULL
       else do {
         c \<leftarrow> stqh_last_of m head;
         (case c of Next x \<Rightarrow> Some x | First _ \<Rightarrow> None)
       }
     }"

definition STAILQ_HEAD_INITIALIZER :: "ptr \<Rightarrow> stailq_head" where
  "STAILQ_HEAD_INITIALIZER head = \<lparr>stqh_first = NULL, stqh_last = First head\<rparr>"

definition STAILQ_INIT :: "'e stailq_mem \<Rightarrow> ptr \<Rightarrow> 'e stailq_mem option" where
  "STAILQ_INIT m head =
     do {
       m \<leftarrow> stailq_store m (First head) NULL;
       set_stqh_last m head (First head)
     }"

definition STAILQ_INSERT_HEAD :: "'e stailq_mem \<Rightarrow> ptr \<Rightarrow> ptr \<Rightarrow> 'e stailq_mem option" where
  "STAILQ_INSERT_HEAD m head elm =
     do {
       first \<leftarrow> stailq_load m (First head);
       m \<leftarrow> stailq_store m (Next elm) first;
       m \<leftarrow> (if first = NULL then set_stqh_last m head (Next elm) else Some m);
       stailq_store m (First head) elm
     }"

definition STAILQ_INSERT_AFTER :: "'e stailq_mem \<Rightarrow> ptr \<Rightarrow> ptr \<Rightarrow> ptr \<Rightarrow> 'e stailq_mem option" where
  "STAILQ_INSERT_AFTER m head listelm elm =
     do {
       n \<leftarrow> stailq_load m (Next listelm);
       m \<leftarrow> stailq_store m (Next elm) n;
       m \<leftarrow> (if n = NULL then set_stqh_last m head (Next elm) else Some m);
       stailq_store m (Next listelm) elm
     }"

definition STAILQ_INSERT_TAIL :: "'e stailq_mem \<Rightarrow> ptr \<Rightarrow> ptr \<Rightarrow> 'e stailq_mem option" where
  "STAILQ_INSERT_TAIL m head elm =
     do {
       m \<leftarrow> stailq_store m (Next elm) NULL;
       c \<leftarrow> stqh_last_of m head;
       m \<leftarrow> stailq_store m c elm;
       set_stqh_last m head (Next elm)
     }"

definition STAILQ_CONCAT :: "'e stailq_mem \<Rightarrow> ptr \<Rightarrow> ptr \<Rightarrow> 'e stailq_mem option" where
  "STAILQ_CONCAT m head1 head2 =
     do {
       e \<leftarrow> STAILQ_EMPTY m head2;
       if \<not> e then
         do {
           c \<leftarrow> stqh_last_of m head1;
           f \<leftarrow> stailq_load m (First head2);
           m \<leftarrow> stailq_store m c f;
           c2 \<leftarrow> stqh_last_of m head2;
           m \<leftarrow> set_stqh_last m head1 c2;
           STAILQ_INIT m head2
         }
       else Some m
     }"

definition STAILQ_REMOVE_HEAD :: "'e stailq_mem \<Rightarrow> ptr \<Rightarrow> 'e stailq_mem option" where
  "STAILQ_REMOVE_HEAD m head =
     do {
       f \<leftarrow> stailq_load m (First head);
       n \<leftarrow> stailq_load m (Next f);
       m \<leftarrow> stailq_store m (First head) n;
       if n = NULL then set_stqh_last m head (First head) else Some m
     }"

definition STAILQ_REMOVE_HEAD_UNTIL :: "'e stailq_mem \<Rightarrow> ptr \<Rightarrow> ptr \<Rightarrow> 'e stailq_mem option" where
  "STAILQ_REMOVE_HEAD_UNTIL m head elm =
     do {
       n \<leftarrow> STAILQ_NEXT m elm;
       m \<leftarrow> stailq_store m (First head) n;
       if n = NULL then set_stqh_last m head (First head) else Some m
     }"

definition STAILQ_REMOVE_AFTER :: "'e stailq_mem \<Rightarrow> ptr \<Rightarrow> ptr \<Rightarrow> 'e stailq_mem option" where
  "STAILQ_REMOVE_AFTER m head elm =
     do {
       q \<leftarrow> STAILQ_NEXT m elm;
       n \<leftarrow> STAILQ_NEXT m q;
       m \<leftarrow> stailq_store m (Next elm) n;
       if n = NULL then set_stqh_last m head (Next elm) else Some m
     }"

definition STAILQ_REMOVE :: "'e stailq_mem \<Rightarrow> ptr \<Rightarrow> ptr \<Rightarrow> 'e stailq_mem prog" where
  "STAILQ_REMOVE m head elm =
     seq (of_option (stailq_load m (First head))) (\<lambda>first.
       if first = elm then of_option (STAILQ_REMOVE_HEAD m head)
       else seq (search_loop (\<lambda>p. stailq_load m (Next p)) elm first) (\<lambda>curelm.
         of_option (do {
           q \<leftarrow> stailq_load m (Next curelm);
           n \<leftarrow> stailq_load m (Next q);
           m \<leftarrow> stailq_store m (Next curelm) n;
           if n = NULL then set_stqh_last m head (Next curelm) else Some m
         })))"

definition STAILQ_SWAP :: "'e stailq_mem \<Rightarrow> ptr \<Rightarrow> ptr \<Rightarrow> 'e stailq_mem option" where
  "STAILQ_SWAP m head1 head2 =
     do {
       swap_first \<leftarrow> STAILQ_FIRST m head1;
       swap_last \<leftarrow> stqh_last_of m head1;
       f2 \<leftarrow> STAILQ_FIRST m head2;
       m \<leftarrow> stailq_store m (First head1) f2;
       c2 \<leftarrow> stqh_last_of m head2;
       m \<leftarrow> set_stqh_last m head1 c2;
       m \<leftarrow> stailq_store m (First head2) swap_first;
       m \<leftarrow> set_stqh_last m head2 swap_last;
       e1 \<leftarrow> STAILQ_EMPTY m head1;
       m \<leftarrow> (if e1 then set_stqh_last m head1 (First head1) else Some m);
       e2 \<leftarrow> STAILQ_EMPTY m head2;
       if e2 then set_stqh_last m head2 (First head2) else Some m
     }"

definition STAILQ_FOREACH ::
  "(ptr \<Rightarrow> 'e stailq_mem \<Rightarrow> 's \<Rightarrow> ('e stailq_mem \<times> 's) prog) \<Rightarrow> ptr \<Rightarrow> 'e stailq_mem \<Rightarrow> 's \<Rightarrow> ('e stailq_mem \<times> 's) prog" where
  "STAILQ_FOREACH body head m s =
     seq (of_option (stailq_load m (First head))) (\<lambda>var. for_loop STAILQ_NEXT NULL body var m s)"

definition STAILQ_FOREACH_SAFE ::
  "(ptr \<Rightarrow> 'e stailq_mem \<Rightarrow> 's \<Rightarrow> ('e stailq_mem \<times> 's) prog) \<Rightarrow> ptr \<Rightarrow> 'e stailq_mem \<Rightarrow> 's \<Rightarrow> ('e stailq_mem \<times> 's) prog" where
  "STAILQ_FOREACH_SAFE body head m s =
     seq (of_option (STAILQ_FIRST m head)) (\<lambda>var. for_safe_loop STAILQ_NEXT NULL body var m s)"

section \<open>Reading after writing\<close>

named_theorems stailq_mem \<open>loads and stores of the tail queue memory\<close>

lemma stailq_load_upd [stailq_mem]:
  "stailq_load (stailq_upd m c v) d = (if d = c \<and> stailq_load m c \<noteq> None then Some v else stailq_load m d)"
  by (cases c; cases d) (auto simp: deref_change split: option.split)

lemma stailq_load_upd_fun: "stailq_load m c \<noteq> None \<Longrightarrow> stailq_load (stailq_upd m c v) = (stailq_load m)(c \<mapsto> v)"
  by (rule ext) (auto simp: stailq_load_upd)

lemma stqh_last_of_upd [stailq_mem]: "stqh_last_of (stailq_upd m c v) = stqh_last_of m"
  by (cases c) (auto simp: stqh_last_of_def deref_change option.map_comp fun_eq_iff comp_def intro!: option.map_cong)

lemma stailq_load_last [stailq_mem]: "stailq_load (upd_stqh_last m h c) = stailq_load m"
proof
  show "stailq_load (upd_stqh_last m h c) d = stailq_load m d" for d
    by (cases d) (auto simp: upd_stqh_last_def deref_change option.map_comp comp_def intro!: option.map_cong)
qed

lemma stqh_last_of_last [stailq_mem]:
  "stqh_last_of (upd_stqh_last m h c) k = (if k = h \<and> stqh_last_of m h \<noteq> None then Some c else stqh_last_of m k)"
  by (auto simp: stqh_last_of_def upd_stqh_last_def deref_change split: option.split)

lemma stqh_last_of_upd_fun: "stqh_last_of m h \<noteq> None \<Longrightarrow> stqh_last_of (upd_stqh_last m h c) = (stqh_last_of m)(h \<mapsto> c)"
  by (rule ext) (auto simp: stqh_last_of_last)

definition stailq_alive :: "'e stailq_mem \<Rightarrow> ptr \<Rightarrow> bool" where
  "stailq_alive m x \<longleftrightarrow> deref (stq_elems m) x \<noteq> None"

definition stailq_data :: "'e stailq_mem \<Rightarrow> ptr \<Rightarrow> 'e option" where
  "stailq_data m x = map_option stq_data (stq_elems m x)"

lemma stailq_alive_load: "stailq_alive m x \<longleftrightarrow> stailq_load m (Next x) \<noteq> None"
  by (simp add: stailq_alive_def)

lemma stailq_alive_NULL: "stailq_alive m x \<Longrightarrow> x \<noteq> NULL"
  by (auto simp: stailq_alive_def deref_def)

lemma stailq_alive_same [stailq_mem]:
  "stailq_alive (stailq_upd m c v) = stailq_alive m" "stailq_alive (upd_stqh_last m h d) = stailq_alive m"
  by (cases c; auto simp: stailq_alive_def deref_change fun_eq_iff)
     (auto simp: stailq_alive_def upd_stqh_last_def fun_eq_iff)

lemma stailq_data_same [stailq_mem]:
  "stailq_data (stailq_upd m c v) = stailq_data m" "stailq_data (upd_stqh_last m h d) = stailq_data m"
  by (cases c; auto simp: stailq_data_def change_def fun_eq_iff option.map_comp comp_def intro!: option.map_cong)
     (auto simp: stailq_data_def upd_stqh_last_def fun_eq_iff)

declare stailq_load.simps [simp del] stailq_upd.simps [simp del]

lemmas stailq_exec = stailq_store_def set_stqh_last_def stailq_mem stailq_load_upd_fun stqh_last_of_upd_fun

section \<open>The list behind the pointers\<close>

definition stailq_is :: "'e stailq_mem \<Rightarrow> ptr \<Rightarrow> ptr list \<Rightarrow> bool" where
  "stailq_is m h ps \<longleftrightarrow>
     run (stailq_load m) NULL (First h) ps \<and> stqh_last_of m h = Some (lastc (First h) ps)"

text \<open>What an operation on the queue at \<open>h\<close> with elements in \<open>A\<close> may change.\<close>

definition stailq_frame :: "ptr \<Rightarrow> ptr set \<Rightarrow> 'e stailq_mem \<Rightarrow> 'e stailq_mem \<Rightarrow> bool" where
  "stailq_frame h A m m' \<longleftrightarrow>
     (\<forall>c. c \<noteq> First h \<longrightarrow> c \<notin> Next ` A \<longrightarrow> stailq_load m' c = stailq_load m c) \<and>
     (\<forall>k. k \<noteq> h \<longrightarrow> stqh_last_of m' k = stqh_last_of m k) \<and>
     stailq_alive m' = stailq_alive m \<and> stailq_data m' = stailq_data m"

lemma stailq_frame_other:
  assumes "stailq_frame h A m m'" and "stailq_is m k qs" and "k \<noteq> h" and "set qs \<inter> A = {}"
  shows "stailq_is m' k qs"
proof -
  have "run (stailq_load m') NULL (First k) qs = run (stailq_load m) NULL (First k) qs"
    using assms by (intro run_cong) (auto simp: stailq_frame_def)
  then show ?thesis using assms by (auto simp: stailq_is_def stailq_frame_def)
qed

lemma stailq_is_distinct: "stailq_is m h ps \<Longrightarrow> distinct ps"
  unfolding stailq_is_def using run_distinct by blast

lemma stailq_is_mem:
  assumes "stailq_is m h ps" and "x \<in> set ps"
  shows "stailq_alive m x" and "x \<noteq> NULL"
  using assms run_live [of "stailq_load m" NULL "First h" ps x] run_fin [of "stailq_load m" NULL "First h" ps]
  by (auto simp: stailq_is_def stailq_alive_load)

lemma stailq_is_last: "stailq_is m h ps \<Longrightarrow> stqh_last_of m h = Some (lastc (First h) ps)"
  by (simp add: stailq_is_def)

text \<open>The element behind a cell of the queue, when there is one.\<close>

lemma stailq_is_next:
  assumes "stailq_is m h (as @ bs)"
  obtains "bs = []" "stailq_load m (lastc (First h) as) = Some NULL"
  | z zs where "bs = z # zs" "stailq_load m (lastc (First h) as) = Some z" "z \<noteq> NULL"
proof (cases bs)
  case Nil
  then show ?thesis using assms that(1) by (simp add: stailq_is_def run_def)
next
  case (Cons z zs)
  then show ?thesis using assms that(2) by (simp add: stailq_is_def run_append)
qed

lemma stailq_insert_is:
  assumes l: "stailq_is m h (as @ bs)" and x: "x \<noteq> NULL" "x \<notin> set (as @ bs)"
    and ld: "stailq_load m' = (stailq_load m)(Next x := stailq_load m (lastc (First h) as), lastc (First h) as \<mapsto> x)"
    and lst: "stqh_last_of m' = (stqh_last_of m)(h \<mapsto> lastc (Next x) bs)"
    and same: "stailq_alive m' = stailq_alive m" "stailq_data m' = stailq_data m"
  shows "stailq_is m' h (as @ x # bs) \<and> stailq_frame h (insert x (set (as @ bs))) m m'"
proof
  show "stailq_is m' h (as @ x # bs)"
    using l x unfolding stailq_is_def ld lst by (intro conjI run_insert) auto
  show "stailq_frame h (insert x (set (as @ bs))) m m'"
    unfolding stailq_frame_def ld lst using same lastc_cases [of h as] by auto
qed

lemma stailq_remove_is:
  assumes l: "stailq_is m h (as @ x # bs)"
    and ld: "stailq_load m' = (stailq_load m)(lastc (First h) as := stailq_load m (Next x))"
    and lst: "stqh_last_of m' = (stqh_last_of m)(h \<mapsto> lastc (First h) (as @ bs))"
    and same: "stailq_alive m' = stailq_alive m" "stailq_data m' = stailq_data m"
  shows "stailq_is m' h (as @ bs) \<and> stailq_frame h (set (as @ x # bs)) m m'"
proof
  show "stailq_is m' h (as @ bs)"
    using l unfolding stailq_is_def ld lst by (intro conjI run_remove) auto
  show "stailq_frame h (set (as @ x # bs)) m m'"
    unfolding stailq_frame_def ld lst using same lastc_cases [of h as] by auto
qed

section \<open>The operations on the list\<close>

lemma STAILQ_INSERT_HEAD_is:
  assumes l: "stailq_is m h ps" and x: "stailq_alive m x" "x \<notin> set ps" "x \<noteq> NULL"
  shows "\<exists>m'. STAILQ_INSERT_HEAD m h x = Some m' \<and> stailq_is m' h (x # ps) \<and> stailq_frame h (insert x (set ps)) m m'"
proof -
  have l': "stailq_is m h ([] @ ps)" using l by simp
  note lst = stailq_is_last [OF l]
  obtain n where x': "stailq_load m (Next x) = Some n" using x(1) stailq_alive_load [of m x] by auto
  let ?m1 = "case ps of [] \<Rightarrow> upd_stqh_last (stailq_upd m (Next x) NULL) h (Next x) | z # _ \<Rightarrow> stailq_upd m (Next x) z"
  let ?m = "stailq_upd ?m1 (First h) x"
  from l' have "STAILQ_INSERT_HEAD m h x = Some ?m \<and> stailq_is ?m h ([] @ x # ps) \<and> stailq_frame h (insert x (set ([] @ ps))) m ?m"
  proof (cases rule: stailq_is_next)
    case 1
    then show ?thesis using x x' lst
      by (intro conjI [OF _ stailq_insert_is [OF l']]) (simp_all add: STAILQ_INSERT_HEAD_def stailq_exec)
  next
    case (2 z zs)
    then show ?thesis using x x' lst
      by (intro conjI [OF _ stailq_insert_is [OF l']]) (simp_all add: STAILQ_INSERT_HEAD_def stailq_exec fun_upd_idem)
  qed
  then show ?thesis by auto
qed

lemma STAILQ_INSERT_AFTER_is:
  assumes l: "stailq_is m h (as @ y # bs)" and x: "stailq_alive m x" "x \<notin> set (as @ y # bs)" "x \<noteq> NULL"
  shows "\<exists>m'. STAILQ_INSERT_AFTER m h y x = Some m' \<and> stailq_is m' h (as @ y # x # bs) \<and>
    stailq_frame h (insert x (set (as @ y # bs))) m m'"
proof -
  have l': "stailq_is m h ((as @ [y]) @ bs)" using l by simp
  note lst = stailq_is_last [OF l]
  obtain n where x': "stailq_load m (Next x) = Some n" "x \<noteq> y" using x(1,2) stailq_alive_load [of m x] by auto
  let ?m1 = "case bs of [] \<Rightarrow> upd_stqh_last (stailq_upd m (Next x) NULL) h (Next x) | z # _ \<Rightarrow> stailq_upd m (Next x) z"
  let ?m = "stailq_upd ?m1 (Next y) x"
  from l' have "STAILQ_INSERT_AFTER m h y x = Some ?m \<and> stailq_is ?m h ((as @ [y]) @ x # bs) \<and>
      stailq_frame h (insert x (set ((as @ [y]) @ bs))) m ?m"
  proof (cases rule: stailq_is_next)
    case 1
    then show ?thesis using x x' lst
      by (intro conjI [OF _ stailq_insert_is [OF l']]) (simp_all add: STAILQ_INSERT_AFTER_def stailq_exec)
  next
    case (2 z zs)
    then show ?thesis using x x' lst
      by (intro conjI [OF _ stailq_insert_is [OF l']]) (simp_all add: STAILQ_INSERT_AFTER_def stailq_exec fun_upd_idem)
  qed
  then show ?thesis by auto
qed

lemma STAILQ_INSERT_TAIL_is:
  assumes l: "stailq_is m h ps" and x: "stailq_alive m x" "x \<notin> set ps" "x \<noteq> NULL"
  shows "\<exists>m'. STAILQ_INSERT_TAIL m h x = Some m' \<and> stailq_is m' h (ps @ [x]) \<and> stailq_frame h (insert x (set ps)) m m'"
proof -
  let ?c = "lastc (First h) ps"
  have l': "stailq_is m h (ps @ [])" using l by simp
  have c: "stqh_last_of m h = Some ?c" "stailq_load m ?c = Some NULL" "?c \<noteq> Next x"
    using l x lastc_not_new [of "First h" x ps] by (auto simp: stailq_is_def run_def)
  obtain n where x': "stailq_load m (Next x) = Some n" using x(1) stailq_alive_load [of m x] by auto
  let ?m = "upd_stqh_last (stailq_upd (stailq_upd m (Next x) NULL) ?c x) h (Next x)"
  have "STAILQ_INSERT_TAIL m h x = Some ?m \<and> stailq_is ?m h (ps @ x # []) \<and> stailq_frame h (insert x (set (ps @ []))) m ?m"
    using x x' c by (intro conjI [OF _ stailq_insert_is [OF l']]) (simp_all add: STAILQ_INSERT_TAIL_def stailq_exec)
  then show ?thesis by auto
qed

lemma STAILQ_REMOVE_AFTER_is:
  assumes l: "stailq_is m h (as @ y # x # bs)"
  shows "\<exists>m'. STAILQ_REMOVE_AFTER m h y = Some m' \<and> stailq_is m' h (as @ y # bs) \<and> stailq_frame h (set (as @ y # x # bs)) m m'"
proof -
  have l': "stailq_is m h ((as @ [y]) @ x # bs)" and l'': "stailq_is m h ((as @ [y, x]) @ bs)" using l by simp_all
  note lst = stailq_is_last [OF l]
  have y: "stailq_load m (Next y) = Some x" using l' by (cases rule: stailq_is_next) simp_all
  let ?m = "case bs of [] \<Rightarrow> upd_stqh_last (stailq_upd m (Next y) NULL) h (Next y) | z # _ \<Rightarrow> stailq_upd m (Next y) z"
  from l'' have "STAILQ_REMOVE_AFTER m h y = Some ?m \<and> stailq_is ?m h ((as @ [y]) @ bs) \<and>
      stailq_frame h (set ((as @ [y]) @ x # bs)) m ?m"
  proof (cases rule: stailq_is_next)
    case 1
    then show ?thesis using y lst
      by (intro conjI [OF _ stailq_remove_is [OF l']]) (simp_all add: STAILQ_REMOVE_AFTER_def STAILQ_NEXT_def stailq_exec)
  next
    case (2 z zs)
    then show ?thesis using y lst
      by (intro conjI [OF _ stailq_remove_is [OF l']])
        (simp_all add: STAILQ_REMOVE_AFTER_def STAILQ_NEXT_def stailq_exec fun_upd_idem)
  qed
  then show ?thesis by auto
qed

lemma STAILQ_REMOVE_HEAD_UNTIL_is:
  assumes l: "stailq_is m h (as @ x # bs)"
  shows "\<exists>m'. STAILQ_REMOVE_HEAD_UNTIL m h x = Some m' \<and> stailq_is m' h bs \<and> stailq_frame h (set (as @ x # bs)) m m'"
proof -
  have l': "stailq_is m h ((as @ [x]) @ bs)" using l by simp
  note lst = stailq_is_last [OF l]
  have r: "run (stailq_load m) NULL (Next x) bs" using l by (simp add: stailq_is_def run_append)
  obtain f where f: "stailq_load m (First h) = Some f" using l by (cases as) (auto simp: stailq_is_def)
  let ?m1 = "stailq_upd m (First h) (case bs of [] \<Rightarrow> NULL | z # _ \<Rightarrow> z)"
  let ?m = "case bs of [] \<Rightarrow> upd_stqh_last ?m1 h (First h) | z # _ \<Rightarrow> ?m1"
  from l' have "STAILQ_REMOVE_HEAD_UNTIL m h x = Some ?m \<and>
      stailq_load ?m = (stailq_load m)(First h := stailq_load m (Next x)) \<and>
      stqh_last_of ?m = (stqh_last_of m)(h \<mapsto> lastc (First h) bs) \<and>
      stailq_alive ?m = stailq_alive m \<and> stailq_data ?m = stailq_data m"
    by (cases rule: stailq_is_next)
      (use lst f in \<open>simp_all add: STAILQ_REMOVE_HEAD_UNTIL_def STAILQ_NEXT_def stailq_exec fun_upd_idem\<close>)
  then obtain m' where m': "STAILQ_REMOVE_HEAD_UNTIL m h x = Some m'"
      "stailq_load m' = (stailq_load m)(First h := stailq_load m (Next x))"
      "stqh_last_of m' = (stqh_last_of m)(h \<mapsto> lastc (First h) bs)"
      "stailq_alive m' = stailq_alive m" "stailq_data m' = stailq_data m" by blast
  have "run (stailq_load m') NULL (First h) bs" by (rule run_move [OF r]) (simp_all add: m'(2))
  then show ?thesis using m' by (auto simp: stailq_is_def stailq_frame_def)
qed

lemma STAILQ_REMOVE_HEAD_is:
  assumes l: "stailq_is m h (x # ps)"
  shows "\<exists>m'. STAILQ_REMOVE_HEAD m h = Some m' \<and> stailq_is m' h ps \<and> stailq_frame h (set (x # ps)) m m'"
proof -
  have "STAILQ_REMOVE_HEAD m h = STAILQ_REMOVE_HEAD_UNTIL m h x"
    using l by (simp add: STAILQ_REMOVE_HEAD_def STAILQ_REMOVE_HEAD_UNTIL_def STAILQ_NEXT_def stailq_is_def)
  then show ?thesis using STAILQ_REMOVE_HEAD_UNTIL_is [of m h "[]" x ps] l by simp
qed

lemma STAILQ_REMOVE_is:
  assumes l: "stailq_is m h (as @ x # bs)"
  shows "\<exists>m'. STAILQ_REMOVE m h x = ret m' \<and> stailq_is m' h (as @ bs) \<and> stailq_frame h (set (as @ x # bs)) m m'"
proof (cases as rule: rev_cases)
  case Nil
  then have "STAILQ_REMOVE m h x = of_option (STAILQ_REMOVE_HEAD m h)"
    using l by (simp add: STAILQ_REMOVE_def stailq_is_def)
  then show ?thesis using of_option_ex [OF STAILQ_REMOVE_HEAD_is [of m h x bs]] l Nil by simp
next
  case (snoc as' y)
  obtain f fs where f: "as = f # fs" "last (f # fs) = y" using snoc by (metis last_snoc list.exhaust snoc_eq_iff_butlast)
  have "stailq_load m (First h) = Some f" "run (stailq_load m) NULL (Next f) (fs @ x # bs)" "f \<noteq> x"
    using l f(1) stailq_is_distinct [OF l] by (auto simp: stailq_is_def)
  then have "STAILQ_REMOVE m h x = of_option (STAILQ_REMOVE_AFTER m h y)"
    using search_loop_finds [of "stailq_load m" NULL f fs x bs] f
    by (simp add: STAILQ_REMOVE_def STAILQ_REMOVE_AFTER_def STAILQ_NEXT_def)
  then show ?thesis using of_option_ex [OF STAILQ_REMOVE_AFTER_is [of m h as' y x bs]] l snoc by simp
qed

text \<open>Appending one queue to another empties the second.\<close>

lemma STAILQ_CONCAT_is:
  assumes "holds_queues stailq_is m [(h1, ps), (h2, qs)]"
  shows "\<exists>m'. STAILQ_CONCAT m h1 h2 = Some m' \<and> holds_queues stailq_is m' [(h1, ps @ qs), (h2, [])] \<and>
    stailq_alive m' = stailq_alive m \<and> stailq_data m' = stailq_data m"
proof (cases qs)
  case Nil
  then show ?thesis using assms by (auto simp: STAILQ_CONCAT_def STAILQ_EMPTY_def holds_queues_def stailq_is_def)
next
  case (Cons f fs)
  let ?c = "lastc (First h1) ps"
  have l: "stailq_is m h1 ps" "stailq_is m h2 qs" and ne: "h1 \<noteq> h2" "distinct ps" "distinct qs" "set ps \<inter> set qs = {}"
    using assms by (auto simp: holds_queues_def)
  have v: "stailq_load m (First h2) = Some f" "f \<noteq> NULL" "stqh_last_of m h1 = Some ?c" "stailq_load m ?c = Some NULL"
      "stqh_last_of m h2 = Some (lastc (Next f) fs)" "?c \<noteq> First h2" "?c \<noteq> Next f"
    using l Cons ne lastc_cases [of h1 ps] by (auto simp: stailq_is_def run_def)
  let ?m = "upd_stqh_last (stailq_upd (upd_stqh_last (stailq_upd m ?c f) h1 (lastc (Next f) fs)) (First h2) NULL) h2 (First h2)"
  have m: "STAILQ_CONCAT m h1 h2 = Some ?m" "stailq_load ?m = (stailq_load m)(?c \<mapsto> f, First h2 \<mapsto> NULL)"
      "stqh_last_of ?m = (stqh_last_of m)(h1 \<mapsto> lastc (Next f) fs, h2 \<mapsto> First h2)"
      "stailq_alive ?m = stailq_alive m" "stailq_data ?m = stailq_data m"
    using v ne by (simp_all add: STAILQ_CONCAT_def STAILQ_EMPTY_def STAILQ_INIT_def stailq_exec)
  have "run ((stailq_load m)(?c \<mapsto> f)) NULL (First h1) (ps @ f # fs)"
    using l Cons v lastc_cases [of h1 ps] ne by (intro run_store [of "stailq_load m" NULL _ _ "[]"]) (auto simp: stailq_is_def)
  then have "stailq_is ?m h1 (ps @ qs)" "stailq_is ?m h2 []"
    unfolding stailq_is_def m(2,3) using ne Cons by auto
  then show ?thesis using m(1,4,5) ne by (auto simp: holds_queues_def)
qed

lemma STAILQ_SWAP_is:
  assumes "holds_queues stailq_is m [(h1, ps), (h2, qs)]"
  shows "\<exists>m'. STAILQ_SWAP m h1 h2 = Some m' \<and> holds_queues stailq_is m' [(h1, qs), (h2, ps)] \<and>
    stailq_alive m' = stailq_alive m \<and> stailq_data m' = stailq_data m"
proof -
  have l: "stailq_is m h1 ([] @ ps)" "stailq_is m h2 ([] @ qs)" and ne: "h1 \<noteq> h2" "distinct ps" "distinct qs" "set ps \<inter> set qs = {}"
    using assms by (auto simp: holds_queues_def)
  have r: "run (stailq_load m) NULL (First h1) ps" "run (stailq_load m) NULL (First h2) qs"
    using l by (simp_all add: stailq_is_def)
  note lst = stailq_is_last [OF l(1)] stailq_is_last [OF l(2)]
  have "\<exists>m'. STAILQ_SWAP m h1 h2 = Some m' \<and>
      stailq_load m' = (stailq_load m)(First h1 := stailq_load m (First h2), First h2 := stailq_load m (First h1)) \<and>
      stqh_last_of m' = (stqh_last_of m)(h1 \<mapsto> lastc (First h1) qs, h2 \<mapsto> lastc (First h2) ps) \<and>
      stailq_alive m' = stailq_alive m \<and> stailq_data m' = stailq_data m"
    using l(1)
  proof (cases rule: stailq_is_next)
    case 1
    from l(2) show ?thesis
      by (cases rule: stailq_is_next)
        (use 1 ne lst in \<open>simp_all add: STAILQ_SWAP_def STAILQ_FIRST_def STAILQ_EMPTY_def stailq_exec fun_upd_twist\<close>)
  next
    case (2 z zs)
    from l(2) show ?thesis
      by (cases rule: stailq_is_next)
        (use 2 ne lst in \<open>simp_all add: STAILQ_SWAP_def STAILQ_FIRST_def STAILQ_EMPTY_def stailq_exec fun_upd_twist\<close>)
  qed
  then obtain m' where m': "STAILQ_SWAP m h1 h2 = Some m'"
      and ld: "stailq_load m' = (stailq_load m)(First h1 := stailq_load m (First h2), First h2 := stailq_load m (First h1))"
      and lst': "stqh_last_of m' = (stqh_last_of m)(h1 \<mapsto> lastc (First h1) qs, h2 \<mapsto> lastc (First h2) ps)"
      and same: "stailq_alive m' = stailq_alive m" "stailq_data m' = stailq_data m" by blast
  have "run (stailq_load m') NULL (First h1) qs" "run (stailq_load m') NULL (First h2) ps"
    unfolding ld by (rule run_move [OF r(2)] run_move [OF r(1)]; use ne in simp)+
  then show ?thesis using m' same ne lst' by (auto simp: holds_queues_def stailq_is_def)
qed

lemma STAILQ_INIT_initializer:
  assumes "h \<noteq> NULL" and "stq_heads m h \<noteq> None"
  shows "STAILQ_INIT m h = Some (m\<lparr>stq_heads := (stq_heads m)(h \<mapsto> STAILQ_HEAD_INITIALIZER h)\<rparr>)"
  using assms by (cases "the (stq_heads m h)") (auto simp: STAILQ_INIT_def stailq_store_def set_stqh_last_def stqh_last_of_def upd_stqh_last_def deref_def change_def
      STAILQ_HEAD_INITIALIZER_def stailq_load.simps stailq_upd.simps)

lemma STAILQ_INIT_is:
  assumes "stailq_load m (First h) \<noteq> None"
  shows "\<exists>m'. STAILQ_INIT m h = Some m' \<and> stailq_is m' h [] \<and> stailq_frame h {} m m'"
proof -
  have "stqh_last_of m h \<noteq> None" using assms by (simp add: stailq_load.simps stqh_last_of_def)
  with assms show ?thesis by (auto simp: STAILQ_INIT_def stailq_exec stailq_is_def stailq_frame_def)
qed

lemma STAILQ_EMPTY_is: "stailq_is m h ps \<Longrightarrow> STAILQ_EMPTY m h = Some (ps = [])"
  by (cases ps) (auto simp: STAILQ_EMPTY_def stailq_is_def)

lemma STAILQ_LAST_is: "stailq_is m h ps \<Longrightarrow> STAILQ_LAST m h = Some (if ps = [] then NULL else last ps)"
  using STAILQ_EMPTY_is [of m h ps] by (simp add: STAILQ_LAST_def stailq_is_def lastc_last)

lemma STAILQ_walk: "stailq_is m h ps \<Longrightarrow> \<exists>p. STAILQ_FIRST m h = Some p \<and> walk (STAILQ_NEXT m) NULL p ps"
  using run_walk [of "stailq_load m" NULL "First h" ps]
  by (simp add: stailq_is_def STAILQ_FIRST_def STAILQ_NEXT_def [abs_def])

section \<open>The contract\<close>

fun stailq_run :: "'e stailq_mem \<Rightarrow> ptr \<Rightarrow> qop \<Rightarrow> 'e stailq_mem prog" where
  "stailq_run m h (Insert_Head x) = of_option (STAILQ_INSERT_HEAD m h x)"
| "stailq_run m h (Insert_Tail x) = of_option (STAILQ_INSERT_TAIL m h x)"
| "stailq_run m h (Insert_After y x) = of_option (STAILQ_INSERT_AFTER m h y x)"
| "stailq_run m h (Remove y) = STAILQ_REMOVE m h y"
| "stailq_run m h Remove_Head = of_option (STAILQ_REMOVE_HEAD m h)"
| "stailq_run m h (Remove_After y) = of_option (STAILQ_REMOVE_AFTER m h y)"
| "stailq_run m h (Remove_Head_Until y) = of_option (STAILQ_REMOVE_HEAD_UNTIL m h y)"
| "stailq_run m h _ = Some Undefined"

fun stailq_supports :: "qop \<Rightarrow> bool" where
  "stailq_supports (Insert_Before y x) \<longleftrightarrow> False"
| "stailq_supports (Replace y x) \<longleftrightarrow> False"
| "stailq_supports _ \<longleftrightarrow> True"

lemma stailq_run_is:
  assumes l: "stailq_is m h ps" and s: "stailq_supports op" and n: "list_all (stailq_alive m) (new_elem op)"
    and f: "set (new_elem op) \<inter> set ps = {}" and ps': "spec_op op ps = Some ps'"
  shows "\<exists>m'. stailq_run m h op = ret m' \<and> stailq_is m' h ps' \<and> stailq_frame h (set ps \<union> set (new_elem op)) m m'"
proof -
  have split: "stailq_is m h (before y ps @ y # beyond y ps)" "set (before y ps @ y # beyond y ps) = set ps"
    if "y \<in> set ps" for y
    using l split_before [OF that] by simp_all
  note nn = stailq_alive_NULL [of m]
  show ?thesis
  proof (cases op)
    case (Insert_Head x)
    then show ?thesis using of_option_ex [OF STAILQ_INSERT_HEAD_is [OF l, of x]] nn n f ps' by simp
  next
    case (Insert_Tail x)
    then show ?thesis using of_option_ex [OF STAILQ_INSERT_TAIL_is [OF l, of x]] nn n f ps' by simp
  next
    case (Insert_After y x)
    then have y: "y \<in> set ps" using ps' by (simp split: if_splits)
    show ?thesis
      using of_option_ex [OF STAILQ_INSERT_AFTER_is [OF split(1) [OF y], of x, unfolded split(2) [OF y]]] y nn n f ps' Insert_After by simp
  next
    case (Remove y)
    then have y: "y \<in> set ps" using ps' by (simp split: if_splits)
    show ?thesis using STAILQ_REMOVE_is [OF split(1) [OF y], unfolded split(2) [OF y]] y ps' Remove by simp
  next
    case Remove_Head
    then obtain x qs where ps: "ps = x # qs" using ps' by (cases ps) simp_all
    then show ?thesis using of_option_ex [OF STAILQ_REMOVE_HEAD_is [of m h x qs]] l ps' Remove_Head by simp
  next
    case (Remove_After y)
    then obtain z zs where y: "y \<in> set ps" "beyond y ps = z # zs" using ps' by (cases "beyond y ps") (simp_all split: if_splits)
    then have "stailq_is m h (before y ps @ y # z # zs)" "set (before y ps @ y # z # zs) = set ps" using split [of y] by simp_all
    from of_option_ex [OF STAILQ_REMOVE_AFTER_is [OF this(1), unfolded this(2)]]
    show ?thesis using y ps' Remove_After by simp
  next
    case (Remove_Head_Until y)
    then have y: "y \<in> set ps" using ps' by (simp split: if_splits)
    show ?thesis
      using of_option_ex [OF STAILQ_REMOVE_HEAD_UNTIL_is [OF split(1) [OF y], unfolded split(2) [OF y]]] y ps' Remove_Head_Until by simp
  qed (use s in simp_all)
qed

interpretation stailq_lists: shared_macros stailq_is stailq_alive stailq_run stailq_supports
proof unfold_locales
  show "\<exists>m'. stailq_run m h op = ret m' \<and> stailq_is m' h ps' \<and> stailq_alive m' = stailq_alive m"
    if "stailq_is m h ps" "stailq_supports op" "list_all (stailq_alive m) (new_elem op)"
      "set (new_elem op) \<inter> set ps = {}" "spec_op op ps = Some ps'" for m :: "'e stailq_mem" and h ps op ps'
    using stailq_run_is [OF that] by (auto simp: stailq_frame_def)
  show "stailq_is m' k qs"
    if "stailq_is m h ps" "stailq_supports op" "list_all (stailq_alive m) (new_elem op)"
      "set (new_elem op) \<inter> set ps = {}" "spec_op op ps = Some ps'" "stailq_run m h op = ret m'"
      "stailq_is m k qs" "k \<noteq> h" "set qs \<inter> (set ps \<union> set (new_elem op)) = {}"
    for m m' :: "'e stailq_mem" and h k ps qs op ps'
    using stailq_run_is [OF that(1-5)] that(6) stailq_frame_other [OF _ that(7-9)] by auto
qed

end
