(* ===== verification/Queue_Tailq.thy ===== *)
theory Queue_Tailq
  imports Queue_Cells
begin

text \<open>
  The tail queue macros (\<open>TAILQ_*\<close>) of \<open>src/server/queue.h\<close>. A head and an entry both are a link
  (\<open>tqh_first\<close>, \<open>tqe_next\<close>) followed by the address of a link (\<open>tqh_last\<close>,
  \<open>tqe_prev\<close>); \<open>TAILQ_LAST\<close> and \<open>TAILQ_PREV\<close> rely on this and read an entry as if it were a head.
  Both are therefore reached through the address of their link: \<open>tailq_load\<close> reads the link,
  \<open>tailq_back\<close> the address behind it. \<open>None\<close> is the use of a pointer that is \<open>NULL\<close> or no live object.
\<close>

section \<open>Memory\<close>

record tailq_head =
  tqh_first :: ptr
  tqh_last :: cell

record 'e tailq_elem =
  tqe_next :: ptr
  tqe_prev :: cell
  tq_data :: 'e

record 'e tailq_mem =
  tq_heads :: "ptr \<Rightarrow> tailq_head option"
  tq_elems :: "ptr \<Rightarrow> 'e tailq_elem option"

fun tailq_load :: "'e tailq_mem \<Rightarrow> cell \<Rightarrow> ptr option" where
  "tailq_load m (First h) = map_option tqh_first (deref (tq_heads m) h)"
| "tailq_load m (Next x) = map_option tqe_next (deref (tq_elems m) x)"

fun tailq_back :: "'e tailq_mem \<Rightarrow> cell \<Rightarrow> cell option" where
  "tailq_back m (First h) = map_option tqh_last (deref (tq_heads m) h)"
| "tailq_back m (Next x) = map_option tqe_prev (deref (tq_elems m) x)"

fun tailq_upd :: "'e tailq_mem \<Rightarrow> cell \<Rightarrow> ptr \<Rightarrow> 'e tailq_mem" where
  "tailq_upd m (First h) v = m\<lparr>tq_heads := change (tq_heads m) h (\<lambda>r. r\<lparr>tqh_first := v\<rparr>)\<rparr>"
| "tailq_upd m (Next x) v = m\<lparr>tq_elems := change (tq_elems m) x (\<lambda>e. e\<lparr>tqe_next := v\<rparr>)\<rparr>"

fun tailq_upd_back :: "'e tailq_mem \<Rightarrow> cell \<Rightarrow> cell \<Rightarrow> 'e tailq_mem" where
  "tailq_upd_back m (First h) c = m\<lparr>tq_heads := change (tq_heads m) h (\<lambda>r. r\<lparr>tqh_last := c\<rparr>)\<rparr>"
| "tailq_upd_back m (Next x) c = m\<lparr>tq_elems := change (tq_elems m) x (\<lambda>e. e\<lparr>tqe_prev := c\<rparr>)\<rparr>"

definition tailq_store :: "'e tailq_mem \<Rightarrow> cell \<Rightarrow> ptr \<Rightarrow> 'e tailq_mem option" where
  "tailq_store m c v = (if tailq_load m c = None then None else Some (tailq_upd m c v))"

definition tailq_set_back :: "'e tailq_mem \<Rightarrow> cell \<Rightarrow> cell \<Rightarrow> 'e tailq_mem option" where
  "tailq_set_back m c d = (if tailq_back m c = None then None else Some (tailq_upd_back m c d))"

section \<open>Operations\<close>

definition TAILQ_FIRST :: "'e tailq_mem \<Rightarrow> ptr \<Rightarrow> ptr option" where
  "TAILQ_FIRST m head = tailq_load m (First head)"

definition TAILQ_NEXT :: "'e tailq_mem \<Rightarrow> ptr \<Rightarrow> ptr option" where
  "TAILQ_NEXT m elm = tailq_load m (Next elm)"

definition TAILQ_EMPTY :: "'e tailq_mem \<Rightarrow> ptr \<Rightarrow> bool option" where
  "TAILQ_EMPTY m head = map_option (\<lambda>p. p = NULL) (tailq_load m (First head))"

definition TAILQ_LAST :: "'e tailq_mem \<Rightarrow> ptr \<Rightarrow> ptr option" where
  "TAILQ_LAST m head =
     do {
       c \<leftarrow> tailq_back m (First head);
       d \<leftarrow> tailq_back m c;
       tailq_load m d
     }"

definition TAILQ_PREV :: "'e tailq_mem \<Rightarrow> ptr \<Rightarrow> ptr option" where
  "TAILQ_PREV m elm =
     do {
       c \<leftarrow> tailq_back m (Next elm);
       d \<leftarrow> tailq_back m c;
       tailq_load m d
     }"

definition TAILQ_HEAD_INITIALIZER :: "ptr \<Rightarrow> tailq_head" where
  "TAILQ_HEAD_INITIALIZER head = \<lparr>tqh_first = NULL, tqh_last = First head\<rparr>"

definition TAILQ_INIT :: "'e tailq_mem \<Rightarrow> ptr \<Rightarrow> 'e tailq_mem option" where
  "TAILQ_INIT m head =
     do {
       m \<leftarrow> tailq_store m (First head) NULL;
       tailq_set_back m (First head) (First head)
     }"

definition TAILQ_INSERT_HEAD :: "'e tailq_mem \<Rightarrow> ptr \<Rightarrow> ptr \<Rightarrow> 'e tailq_mem option" where
  "TAILQ_INSERT_HEAD m head elm =
     do {
       first \<leftarrow> tailq_load m (First head);
       m \<leftarrow> tailq_store m (Next elm) first;
       m \<leftarrow> (if first \<noteq> NULL then do { f \<leftarrow> tailq_load m (First head); tailq_set_back m (Next f) (Next elm) }
            else tailq_set_back m (First head) (Next elm));
       m \<leftarrow> tailq_store m (First head) elm;
       tailq_set_back m (Next elm) (First head)
     }"

definition TAILQ_INSERT_BEFORE :: "'e tailq_mem \<Rightarrow> ptr \<Rightarrow> ptr \<Rightarrow> 'e tailq_mem option" where
  "TAILQ_INSERT_BEFORE m listelm elm =
     do {
       c \<leftarrow> tailq_back m (Next listelm);
       m \<leftarrow> tailq_set_back m (Next elm) c;
       m \<leftarrow> tailq_store m (Next elm) listelm;
       c \<leftarrow> tailq_back m (Next listelm);
       m \<leftarrow> tailq_store m c elm;
       tailq_set_back m (Next listelm) (Next elm)
     }"

definition TAILQ_INSERT_AFTER :: "'e tailq_mem \<Rightarrow> ptr \<Rightarrow> ptr \<Rightarrow> ptr \<Rightarrow> 'e tailq_mem option" where
  "TAILQ_INSERT_AFTER m head listelm elm =
     do {
       n \<leftarrow> tailq_load m (Next listelm);
       m \<leftarrow> tailq_store m (Next elm) n;
       m \<leftarrow> (if n \<noteq> NULL then do { n \<leftarrow> tailq_load m (Next elm); tailq_set_back m (Next n) (Next elm) }
            else tailq_set_back m (First head) (Next elm));
       m \<leftarrow> tailq_store m (Next listelm) elm;
       tailq_set_back m (Next elm) (Next listelm)
     }"

definition TAILQ_INSERT_TAIL :: "'e tailq_mem \<Rightarrow> ptr \<Rightarrow> ptr \<Rightarrow> 'e tailq_mem option" where
  "TAILQ_INSERT_TAIL m head elm =
     do {
       m \<leftarrow> tailq_store m (Next elm) NULL;
       c \<leftarrow> tailq_back m (First head);
       m \<leftarrow> tailq_set_back m (Next elm) c;
       c \<leftarrow> tailq_back m (First head);
       m \<leftarrow> tailq_store m c elm;
       tailq_set_back m (First head) (Next elm)
     }"

definition TAILQ_CONCAT :: "'e tailq_mem \<Rightarrow> ptr \<Rightarrow> ptr \<Rightarrow> 'e tailq_mem option" where
  "TAILQ_CONCAT m head1 head2 =
     do {
       e \<leftarrow> TAILQ_EMPTY m head2;
       if \<not> e then
         do {
           c \<leftarrow> tailq_back m (First head1);
           f \<leftarrow> tailq_load m (First head2);
           m \<leftarrow> tailq_store m c f;
           f \<leftarrow> tailq_load m (First head2);
           c \<leftarrow> tailq_back m (First head1);
           m \<leftarrow> tailq_set_back m (Next f) c;
           c2 \<leftarrow> tailq_back m (First head2);
           m \<leftarrow> tailq_set_back m (First head1) c2;
           TAILQ_INIT m head2
         }
       else Some m
     }"

definition TAILQ_REMOVE :: "'e tailq_mem \<Rightarrow> ptr \<Rightarrow> ptr \<Rightarrow> 'e tailq_mem option" where
  "TAILQ_REMOVE m head elm =
     do {
       n \<leftarrow> tailq_load m (Next elm);
       c \<leftarrow> tailq_back m (Next elm);
       m \<leftarrow> (if n \<noteq> NULL then tailq_set_back m (Next n) c else tailq_set_back m (First head) c);
       c \<leftarrow> tailq_back m (Next elm);
       n \<leftarrow> tailq_load m (Next elm);
       tailq_store m c n
     }"

definition TAILQ_REPLACE :: "'e tailq_mem \<Rightarrow> ptr \<Rightarrow> ptr \<Rightarrow> ptr \<Rightarrow> 'e tailq_mem option" where
  "TAILQ_REPLACE m head elm elm2 =
     do {
       n \<leftarrow> tailq_load m (Next elm);
       m \<leftarrow> tailq_store m (Next elm2) n;
       m \<leftarrow> (if n \<noteq> NULL then do { n \<leftarrow> tailq_load m (Next elm2); tailq_set_back m (Next n) (Next elm2) }
            else tailq_set_back m (First head) (Next elm2));
       c \<leftarrow> tailq_back m (Next elm);
       m \<leftarrow> tailq_set_back m (Next elm2) c;
       c \<leftarrow> tailq_back m (Next elm2);
       tailq_store m c elm2
     }"

definition TAILQ_SWAP :: "'e tailq_mem \<Rightarrow> ptr \<Rightarrow> ptr \<Rightarrow> 'e tailq_mem option" where
  "TAILQ_SWAP m head1 head2 =
     do {
       swap_first \<leftarrow> tailq_load m (First head1);
       swap_last \<leftarrow> tailq_back m (First head1);
       f2 \<leftarrow> tailq_load m (First head2);
       m \<leftarrow> tailq_store m (First head1) f2;
       c2 \<leftarrow> tailq_back m (First head2);
       m \<leftarrow> tailq_set_back m (First head1) c2;
       m \<leftarrow> tailq_store m (First head2) swap_first;
       m \<leftarrow> tailq_set_back m (First head2) swap_last;
       swap_first \<leftarrow> tailq_load m (First head1);
       m \<leftarrow> (if swap_first \<noteq> NULL then tailq_set_back m (Next swap_first) (First head1)
            else tailq_set_back m (First head1) (First head1));
       swap_first \<leftarrow> tailq_load m (First head2);
       if swap_first \<noteq> NULL then tailq_set_back m (Next swap_first) (First head2)
       else tailq_set_back m (First head2) (First head2)
     }"

definition TAILQ_FOREACH ::
  "(ptr \<Rightarrow> 'e tailq_mem \<Rightarrow> 's \<Rightarrow> ('e tailq_mem \<times> 's) prog) \<Rightarrow> ptr \<Rightarrow> 'e tailq_mem \<Rightarrow> 's \<Rightarrow> ('e tailq_mem \<times> 's) prog" where
  "TAILQ_FOREACH body head m s =
     seq (of_option (tailq_load m (First head))) (\<lambda>var. for_loop TAILQ_NEXT NULL body var m s)"

definition TAILQ_FOREACH_SAFE ::
  "(ptr \<Rightarrow> 'e tailq_mem \<Rightarrow> 's \<Rightarrow> ('e tailq_mem \<times> 's) prog) \<Rightarrow> ptr \<Rightarrow> 'e tailq_mem \<Rightarrow> 's \<Rightarrow> ('e tailq_mem \<times> 's) prog" where
  "TAILQ_FOREACH_SAFE body head m s =
     seq (of_option (tailq_load m (First head))) (\<lambda>var. for_safe_loop TAILQ_NEXT NULL body var m s)"

definition TAILQ_FOREACH_REVERSE ::
  "(ptr \<Rightarrow> 'e tailq_mem \<Rightarrow> 's \<Rightarrow> ('e tailq_mem \<times> 's) prog) \<Rightarrow> ptr \<Rightarrow> 'e tailq_mem \<Rightarrow> 's \<Rightarrow> ('e tailq_mem \<times> 's) prog" where
  "TAILQ_FOREACH_REVERSE body head m s =
     seq (of_option (TAILQ_LAST m head)) (\<lambda>var. for_loop TAILQ_PREV NULL body var m s)"

definition TAILQ_FOREACH_REVERSE_SAFE ::
  "(ptr \<Rightarrow> 'e tailq_mem \<Rightarrow> 's \<Rightarrow> ('e tailq_mem \<times> 's) prog) \<Rightarrow> ptr \<Rightarrow> 'e tailq_mem \<Rightarrow> 's \<Rightarrow> ('e tailq_mem \<times> 's) prog" where
  "TAILQ_FOREACH_REVERSE_SAFE body head m s =
     seq (of_option (TAILQ_LAST m head)) (\<lambda>var. for_safe_loop TAILQ_PREV NULL body var m s)"

section \<open>Reading after writing\<close>

named_theorems tailq_mem \<open>loads and stores of the tail queue memory\<close>

lemma tailq_load_upd [tailq_mem]:
  "tailq_load (tailq_upd m c v) d = (if d = c \<and> tailq_load m c \<noteq> None then Some v else tailq_load m d)"
  by (cases c; cases d) (auto simp: deref_change split: option.split)

lemma tailq_back_upd_back [tailq_mem]:
  "tailq_back (tailq_upd_back m c v) d = (if d = c \<and> tailq_back m c \<noteq> None then Some v else tailq_back m d)"
  by (cases c; cases d) (auto simp: deref_change split: option.split)

lemma tailq_upd_funs:
  "tailq_load m c \<noteq> None \<Longrightarrow> tailq_load (tailq_upd m c v) = (tailq_load m)(c \<mapsto> v)"
  "tailq_back m c \<noteq> None \<Longrightarrow> tailq_back (tailq_upd_back m c d) = (tailq_back m)(c \<mapsto> d)"
  by (auto simp: tailq_load_upd tailq_back_upd_back fun_eq_iff)

lemma tailq_back_upd [tailq_mem]: "tailq_back (tailq_upd m c v) = tailq_back m"
proof
  show "tailq_back (tailq_upd m c v) d = tailq_back m d" for d
    by (cases c; cases d) (auto simp: deref_change option.map_comp comp_def intro!: option.map_cong)
qed

lemma tailq_load_upd_back [tailq_mem]: "tailq_load (tailq_upd_back m c v) = tailq_load m"
proof
  show "tailq_load (tailq_upd_back m c v) d = tailq_load m d" for d
    by (cases c; cases d) (auto simp: deref_change option.map_comp comp_def intro!: option.map_cong)
qed

definition tailq_alive :: "'e tailq_mem \<Rightarrow> ptr \<Rightarrow> bool" where
  "tailq_alive m x \<longleftrightarrow> deref (tq_elems m) x \<noteq> None"

definition tailq_data :: "'e tailq_mem \<Rightarrow> ptr \<Rightarrow> 'e option" where
  "tailq_data m x = map_option tq_data (tq_elems m x)"

lemma tailq_alive_load: "tailq_alive m x \<longleftrightarrow> tailq_load m (Next x) \<noteq> None"
  by (simp add: tailq_alive_def)

lemma tailq_load_back: "tailq_load m c = None \<longleftrightarrow> tailq_back m c = None"
  by (cases c) auto

lemma tailq_alive_NULL: "tailq_alive m x \<Longrightarrow> x \<noteq> NULL"
  by (auto simp: tailq_alive_def deref_def)

lemma tailq_alive_same [tailq_mem]:
  "tailq_alive (tailq_upd m c v) = tailq_alive m" "tailq_alive (tailq_upd_back m c d) = tailq_alive m"
  by (cases c; simp add: tailq_alive_def deref_change fun_eq_iff)+

lemma tailq_data_upd [tailq_mem]: "tailq_data (tailq_upd m c v) = tailq_data m"
  by (cases c) (auto simp: tailq_data_def change_def fun_eq_iff option.map_comp comp_def intro!: option.map_cong)

lemma tailq_data_upd_back [tailq_mem]: "tailq_data (tailq_upd_back m c d) = tailq_data m"
  by (cases c) (auto simp: tailq_data_def change_def fun_eq_iff option.map_comp comp_def intro!: option.map_cong)

declare tailq_load.simps [simp del] tailq_upd.simps [simp del] tailq_back.simps [simp del] tailq_upd_back.simps [simp del]

lemmas tailq_exec = tailq_store_def tailq_set_back_def tailq_mem tailq_upd_funs

section \<open>The list behind the pointers\<close>

text \<open>
  Every entry holds the address of the link before it; the head, which closes the
  circle, that of the last link.
\<close>

fun prevs :: "(cell \<Rightarrow> cell option) \<Rightarrow> cell \<Rightarrow> cell list \<Rightarrow> bool" where
  "prevs bk c [] \<longleftrightarrow> True"
| "prevs bk c (d # ds) \<longleftrightarrow> bk d = Some c \<and> prevs bk d ds"

abbreviation circle :: "ptr \<Rightarrow> ptr list \<Rightarrow> cell list" where
  "circle h ps \<equiv> map Next ps @ [First h]"

definition tailq_is :: "'e tailq_mem \<Rightarrow> ptr \<Rightarrow> ptr list \<Rightarrow> bool" where
  "tailq_is m h ps \<longleftrightarrow> run (tailq_load m) NULL (First h) ps \<and> prevs (tailq_back m) (First h) (circle h ps)"

lemma prevs_append [simp]: "prevs bk c (ds @ es) \<longleftrightarrow> prevs bk c ds \<and> prevs bk (last (c # ds)) es"
  by (induction ds arbitrary: c) auto

lemma prevs_cong: "(\<And>d. d \<in> set ds \<Longrightarrow> bk d = bk' d) \<Longrightarrow> prevs bk c ds = prevs bk' c ds"
  by (induction ds arbitrary: c) auto

lemma prevs_upd [simp]: "d \<notin> set ds \<Longrightarrow> prevs (bk(d := v)) c ds = prevs bk c ds"
  by (rule prevs_cong) auto

lemma prevs_move: "prevs bk c ds \<Longrightarrow> distinct ds \<Longrightarrow> ds = d # es \<Longrightarrow> prevs (bk(d \<mapsto> c')) c' ds"
  by auto

lemma last_cells: "last (c # map Next xs) = lastc c xs"
  by (simp add: lastc_last last_map)

text \<open>What an operation on the queue at \<open>h\<close> with elements in \<open>A\<close> may change.\<close>

definition tailq_frame :: "ptr \<Rightarrow> ptr set \<Rightarrow> 'e tailq_mem \<Rightarrow> 'e tailq_mem \<Rightarrow> bool" where
  "tailq_frame h A m m' \<longleftrightarrow>
     (\<forall>c. c \<noteq> First h \<longrightarrow> c \<notin> Next ` A \<longrightarrow> tailq_load m' c = tailq_load m c \<and> tailq_back m' c = tailq_back m c) \<and>
     tailq_alive m' = tailq_alive m \<and> tailq_data m' = tailq_data m"

lemma tailq_frame_other:
  assumes "tailq_frame h A m m'" and "tailq_is m k qs" and "k \<noteq> h" and "set qs \<inter> A = {}"
  shows "tailq_is m' k qs"
proof -
  have "run (tailq_load m') NULL (First k) qs = run (tailq_load m) NULL (First k) qs"
    using assms by (intro run_cong) (auto simp: tailq_frame_def)
  moreover have "prevs (tailq_back m') (First k) (circle k qs) = prevs (tailq_back m) (First k) (circle k qs)"
    using assms by (intro prevs_cong) (auto simp: tailq_frame_def)
  ultimately show ?thesis using assms(2) by (simp add: tailq_is_def)
qed

lemma tailq_is_distinct: "tailq_is m h ps \<Longrightarrow> distinct ps"
  unfolding tailq_is_def using run_distinct by blast

lemma distinct_circle: "distinct ps \<Longrightarrow> distinct (circle h ps)"
  by (auto simp: distinct_map inj_on_def)

text \<open>The entry or head that closes the part of the queue behind a cell.\<close>

definition behind :: "ptr \<Rightarrow> ptr list \<Rightarrow> cell" where
  "behind h bs = (case bs of [] \<Rightarrow> First h | z # _ \<Rightarrow> Next z)"

lemma circle_behind: "circle h bs = behind h bs # tl (circle h bs)"
  by (cases bs) (auto simp: behind_def)

lemma tailq_insert_is:
  assumes l: "tailq_is m h (as @ bs)" and x: "x \<noteq> NULL" "x \<notin> set (as @ bs)"
    and ld: "tailq_load m' = (tailq_load m)(Next x := tailq_load m (lastc (First h) as), lastc (First h) as \<mapsto> x)"
    and bk: "tailq_back m' = (tailq_back m)(behind h bs \<mapsto> Next x, Next x \<mapsto> lastc (First h) as)"
    and same: "tailq_alive m' = tailq_alive m" "tailq_data m' = tailq_data m"
  shows "tailq_is m' h (as @ x # bs) \<and> tailq_frame h (insert x (set (as @ bs))) m m'"
proof
  have d: "distinct (circle h (as @ bs))" using distinct_circle [OF tailq_is_distinct [OF l]] .
  have "prevs (tailq_back m') (First h) (circle h (as @ x # bs))"
    using l x d unfolding bk tailq_is_def by (cases bs) (auto simp: behind_def last_cells simp del: last.simps)
  then show "tailq_is m' h (as @ x # bs)"
    using l x unfolding tailq_is_def ld by (auto intro!: run_insert)
  show "tailq_frame h (insert x (set (as @ bs))) m m'"
    unfolding tailq_frame_def ld bk using same lastc_cases [of h as] by (cases bs) (auto simp: behind_def)
qed

lemma tailq_remove_is:
  assumes l: "tailq_is m h (as @ x # bs)"
    and ld: "tailq_load m' = (tailq_load m)(lastc (First h) as := tailq_load m (Next x))"
    and bk: "tailq_back m' = (tailq_back m)(behind h bs \<mapsto> lastc (First h) as)"
    and same: "tailq_alive m' = tailq_alive m" "tailq_data m' = tailq_data m"
  shows "tailq_is m' h (as @ bs) \<and> tailq_frame h (set (as @ x # bs)) m m'"
proof
  have d: "distinct (circle h (as @ x # bs))" using distinct_circle [OF tailq_is_distinct [OF l]] .
  have "prevs (tailq_back m') (First h) (circle h (as @ bs))"
    using l d unfolding bk tailq_is_def by (cases bs) (auto simp: behind_def last_cells simp del: last.simps)
  then show "tailq_is m' h (as @ bs)"
    using l unfolding tailq_is_def ld by (auto intro!: run_remove)
  show "tailq_frame h (set (as @ x # bs)) m m'"
    unfolding tailq_frame_def ld bk using same lastc_cases [of h as] by (cases bs) (auto simp: behind_def)
qed

lemma tailq_replace_is:
  assumes l: "tailq_is m h (as @ x # bs)" and y: "y \<noteq> NULL" "y \<notin> set (as @ x # bs)"
    and ld: "tailq_load m' = (tailq_load m)(Next y := tailq_load m (Next x), lastc (First h) as \<mapsto> y)"
    and bk: "tailq_back m' = (tailq_back m)(behind h bs \<mapsto> Next y, Next y \<mapsto> lastc (First h) as)"
    and same: "tailq_alive m' = tailq_alive m" "tailq_data m' = tailq_data m"
  shows "tailq_is m' h (as @ y # bs) \<and> tailq_frame h (insert y (set (as @ x # bs))) m m'"
proof
  have d: "distinct (circle h (as @ x # bs))" using distinct_circle [OF tailq_is_distinct [OF l]] .
  have "prevs (tailq_back m') (First h) (circle h (as @ y # bs))"
    using l y d unfolding bk tailq_is_def by (cases bs) (auto simp: behind_def last_cells simp del: last.simps)
  then show "tailq_is m' h (as @ y # bs)"
    using l y unfolding tailq_is_def ld by (auto intro!: run_replace)
  show "tailq_frame h (insert y (set (as @ x # bs))) m m'"
    unfolding tailq_frame_def ld bk using same lastc_cases [of h as] by (cases bs) (auto simp: behind_def)
qed

section \<open>The operations on the list\<close>

lemma tailq_is_behind: "tailq_is m h (as @ bs) \<Longrightarrow> tailq_back m (behind h bs) = Some (lastc (First h) as)"
  by (cases bs) (auto simp: tailq_is_def behind_def last_cells simp del: last.simps)

lemma tailq_is_next:
  assumes "tailq_is m h (as @ bs)"
  obtains "bs = []" "behind h bs = First h" "tailq_load m (lastc (First h) as) = Some NULL"
      "tailq_back m (First h) = Some (lastc (First h) as)"
  | z zs where "bs = z # zs" "behind h bs = Next z" "tailq_load m (lastc (First h) as) = Some z" "z \<noteq> NULL"
      "tailq_back m (Next z) = Some (lastc (First h) as)"
proof (cases bs)
  case Nil
  then show ?thesis using assms tailq_is_behind [OF assms] that(1) by (simp add: tailq_is_def run_def behind_def)
next
  case (Cons z zs)
  then show ?thesis using assms tailq_is_behind [OF assms] that(2) by (simp add: tailq_is_def run_append behind_def)
qed

lemma tailq_is_end:
  assumes "tailq_is m h ps"
  shows "tailq_load m (lastc (First h) ps) = Some NULL" and "tailq_back m (First h) = Some (lastc (First h) ps)"
  using assms tailq_is_behind [of m h ps "[]"] by (simp_all add: tailq_is_def run_def behind_def)

lemma tailq_aliveE:
  assumes "tailq_alive m x"
  obtains n p where "tailq_load m (Next x) = Some n" and "tailq_back m (Next x) = Some p"
  using assms tailq_load_back [of m "Next x"] by (auto simp: tailq_alive_load)

lemma TAILQ_INSERT_HEAD_is:
  assumes l: "tailq_is m h ps" and x: "tailq_alive m x" "x \<notin> set ps" "x \<noteq> NULL"
  shows "\<exists>m'. TAILQ_INSERT_HEAD m h x = Some m' \<and> tailq_is m' h (x # ps) \<and> tailq_frame h (insert x (set ps)) m m'"
proof -
  have l': "tailq_is m h ([] @ ps)" using l by simp
  obtain n p where x': "tailq_load m (Next x) = Some n" "tailq_back m (Next x) = Some p" by (rule tailq_aliveE [OF x(1)])
  let ?m1 = "tailq_upd_back (tailq_upd m (Next x) (case ps of [] \<Rightarrow> NULL | z # _ \<Rightarrow> z)) (behind h ps) (Next x)"
  let ?m = "tailq_upd_back (tailq_upd ?m1 (First h) x) (Next x) (First h)"
  from l' have "TAILQ_INSERT_HEAD m h x = Some ?m \<and> tailq_is ?m h ([] @ x # ps) \<and> tailq_frame h (insert x (set ([] @ ps))) m ?m"
  proof (cases rule: tailq_is_next)
    case 1
    then show ?thesis using x x'
      by (intro conjI [OF _ tailq_insert_is [OF l']]) (simp_all add: TAILQ_INSERT_HEAD_def tailq_exec)
  next
    case (2 z zs)
    then show ?thesis using x x'
      by (intro conjI [OF _ tailq_insert_is [OF l']]) (simp_all add: TAILQ_INSERT_HEAD_def tailq_exec)
  qed
  then show ?thesis by auto
qed

lemma TAILQ_INSERT_BEFORE_is:
  assumes l: "tailq_is m h (as @ y # bs)" and x: "tailq_alive m x" "x \<notin> set (as @ y # bs)" "x \<noteq> NULL"
  shows "\<exists>m'. TAILQ_INSERT_BEFORE m y x = Some m' \<and> tailq_is m' h (as @ x # y # bs) \<and>
    tailq_frame h (insert x (set (as @ y # bs))) m m'"
proof -
  let ?c = "lastc (First h) as"
  have y: "tailq_back m (Next y) = Some ?c" "tailq_load m ?c = Some y" "y \<noteq> x" "?c \<noteq> Next x"
    using tailq_is_behind [OF l] l x lastc_not_new [of "First h" x as] by (auto simp: behind_def tailq_is_def run_append)
  obtain n p where x': "tailq_load m (Next x) = Some n" "tailq_back m (Next x) = Some p" by (rule tailq_aliveE [OF x(1)])
  let ?m = "tailq_upd_back (tailq_upd (tailq_upd (tailq_upd_back m (Next x) ?c) (Next x) y) ?c x) (Next y) (Next x)"
  have "TAILQ_INSERT_BEFORE m y x = Some ?m \<and> tailq_is ?m h (as @ x # y # bs) \<and>
      tailq_frame h (insert x (set (as @ y # bs))) m ?m"
    using x y x' by (intro conjI [OF _ tailq_insert_is [OF l]])
      (simp_all add: TAILQ_INSERT_BEFORE_def tailq_exec behind_def fun_upd_twist)
  then show ?thesis by blast
qed

lemma TAILQ_INSERT_AFTER_is:
  assumes l: "tailq_is m h (as @ y # bs)" and x: "tailq_alive m x" "x \<notin> set (as @ y # bs)" "x \<noteq> NULL"
  shows "\<exists>m'. TAILQ_INSERT_AFTER m h y x = Some m' \<and> tailq_is m' h (as @ y # x # bs) \<and>
    tailq_frame h (insert x (set (as @ y # bs))) m m'"
proof -
  have l': "tailq_is m h ((as @ [y]) @ bs)" using l by simp
  obtain n p where x': "tailq_load m (Next x) = Some n" "tailq_back m (Next x) = Some p" by (rule tailq_aliveE [OF x(1)])
  have y: "y \<noteq> x" using x(2) by auto
  let ?m1 = "tailq_upd_back (tailq_upd m (Next x) (case bs of [] \<Rightarrow> NULL | z # _ \<Rightarrow> z)) (behind h bs) (Next x)"
  let ?m = "tailq_upd_back (tailq_upd ?m1 (Next y) x) (Next x) (Next y)"
  from l' have "TAILQ_INSERT_AFTER m h y x = Some ?m \<and> tailq_is ?m h ((as @ [y]) @ x # bs) \<and>
      tailq_frame h (insert x (set ((as @ [y]) @ bs))) m ?m"
  proof (cases rule: tailq_is_next)
    case 1
    then show ?thesis using x x' y
      by (intro conjI [OF _ tailq_insert_is [OF l']]) (simp_all add: TAILQ_INSERT_AFTER_def tailq_exec)
  next
    case (2 z zs)
    then show ?thesis using x x' y
      by (intro conjI [OF _ tailq_insert_is [OF l']]) (simp_all add: TAILQ_INSERT_AFTER_def tailq_exec)
  qed
  then show ?thesis by auto
qed

lemma TAILQ_INSERT_TAIL_is:
  assumes l: "tailq_is m h ps" and x: "tailq_alive m x" "x \<notin> set ps" "x \<noteq> NULL"
  shows "\<exists>m'. TAILQ_INSERT_TAIL m h x = Some m' \<and> tailq_is m' h (ps @ [x]) \<and> tailq_frame h (insert x (set ps)) m m'"
proof -
  let ?c = "lastc (First h) ps"
  have l': "tailq_is m h (ps @ [])" using l by simp
  have c: "tailq_load m ?c = Some NULL" "tailq_back m (First h) = Some ?c" "?c \<noteq> Next x"
    using tailq_is_end [OF l] x lastc_not_new [of "First h" x ps] by auto
  obtain n p where x': "tailq_load m (Next x) = Some n" "tailq_back m (Next x) = Some p" by (rule tailq_aliveE [OF x(1)])
  let ?m = "tailq_upd_back (tailq_upd (tailq_upd_back (tailq_upd m (Next x) NULL) (Next x) ?c) ?c x) (First h) (Next x)"
  have "TAILQ_INSERT_TAIL m h x = Some ?m \<and> tailq_is ?m h (ps @ x # []) \<and> tailq_frame h (insert x (set (ps @ []))) m ?m"
    using x x' c by (intro conjI [OF _ tailq_insert_is [OF l']])
      (simp_all add: TAILQ_INSERT_TAIL_def tailq_exec behind_def fun_upd_twist)
  then show ?thesis by auto
qed

lemma TAILQ_REMOVE_is:
  assumes l: "tailq_is m h (as @ x # bs)"
  shows "\<exists>m'. TAILQ_REMOVE m h x = Some m' \<and> tailq_is m' h (as @ bs) \<and> tailq_frame h (set (as @ x # bs)) m m'"
proof -
  let ?c = "lastc (First h) as"
  have l': "tailq_is m h ((as @ [x]) @ bs)" using l by simp
  have x: "tailq_back m (Next x) = Some ?c" "tailq_load m ?c = Some x" "distinct (as @ x # bs)"
    using tailq_is_behind [OF l] l tailq_is_distinct [OF l] by (auto simp: behind_def tailq_is_def run_append)
  let ?m = "tailq_upd (tailq_upd_back m (behind h bs) ?c) ?c (case bs of [] \<Rightarrow> NULL | z # _ \<Rightarrow> z)"
  from l' have "TAILQ_REMOVE m h x = Some ?m \<and> tailq_is ?m h (as @ bs) \<and> tailq_frame h (set (as @ x # bs)) m ?m"
  proof (cases rule: tailq_is_next)
    case 1
    then show ?thesis using x
      by (intro conjI [OF _ tailq_remove_is [OF l]]) (simp_all add: TAILQ_REMOVE_def tailq_exec)
  next
    case (2 z zs)
    then show ?thesis using x
      by (intro conjI [OF _ tailq_remove_is [OF l]]) (simp_all add: TAILQ_REMOVE_def tailq_exec)
  qed
  then show ?thesis by auto
qed

lemma TAILQ_REPLACE_is:
  assumes l: "tailq_is m h (as @ x # bs)" and y: "tailq_alive m y" "y \<notin> set (as @ x # bs)" "y \<noteq> NULL"
  shows "\<exists>m'. TAILQ_REPLACE m h x y = Some m' \<and> tailq_is m' h (as @ y # bs) \<and>
    tailq_frame h (insert y (set (as @ x # bs))) m m'"
proof -
  let ?c = "lastc (First h) as"
  have l': "tailq_is m h ((as @ [x]) @ bs)" using l by simp
  have x: "tailq_back m (Next x) = Some ?c" "tailq_load m ?c = Some x" "distinct (as @ x # bs)" "?c \<noteq> Next y" "x \<noteq> y"
    using tailq_is_behind [OF l] l tailq_is_distinct [OF l] y lastc_not_new [of "First h" y as]
    by (auto simp: behind_def tailq_is_def run_append)
  obtain n p where y': "tailq_load m (Next y) = Some n" "tailq_back m (Next y) = Some p" by (rule tailq_aliveE [OF y(1)])
  let ?m1 = "tailq_upd_back (tailq_upd m (Next y) (case bs of [] \<Rightarrow> NULL | z # _ \<Rightarrow> z)) (behind h bs) (Next y)"
  let ?m = "tailq_upd (tailq_upd_back ?m1 (Next y) ?c) ?c y"
  from l' have "TAILQ_REPLACE m h x y = Some ?m \<and> tailq_is ?m h (as @ y # bs) \<and> tailq_frame h (insert y (set (as @ x # bs))) m ?m"
  proof (cases rule: tailq_is_next)
    case 1
    then show ?thesis using x y y'
      by (intro conjI [OF _ tailq_replace_is [OF l]]) (simp_all add: TAILQ_REPLACE_def tailq_exec)
  next
    case (2 z zs)
    then show ?thesis using x y y'
      by (intro conjI [OF _ tailq_replace_is [OF l]]) (simp_all add: TAILQ_REPLACE_def tailq_exec)
  qed
  then show ?thesis by auto
qed

lemma TAILQ_CONCAT_is:
  assumes "holds_queues tailq_is m [(h1, ps), (h2, qs)]"
  shows "\<exists>m'. TAILQ_CONCAT m h1 h2 = Some m' \<and> holds_queues tailq_is m' [(h1, ps @ qs), (h2, [])] \<and>
    tailq_alive m' = tailq_alive m \<and> tailq_data m' = tailq_data m"
proof (cases qs)
  case Nil
  then show ?thesis using assms by (auto simp: TAILQ_CONCAT_def TAILQ_EMPTY_def holds_queues_def tailq_is_def)
next
  case (Cons f fs)
  let ?c = "lastc (First h1) ps"
  have l: "tailq_is m h1 ps" "tailq_is m h2 qs" and ne: "h1 \<noteq> h2" "distinct ps" "distinct qs" "set ps \<inter> set qs = {}"
    using assms by (auto simp: holds_queues_def)
  have v: "tailq_load m (First h2) = Some f" "f \<noteq> NULL" "tailq_back m (First h1) = Some ?c" "tailq_load m ?c = Some NULL"
      "tailq_back m (Next f) = Some (First h2)" "tailq_back m (First h2) = Some (lastc (Next f) fs)"
      "?c \<noteq> First h2" "?c \<noteq> Next f"
    using l Cons ne lastc_cases [of h1 ps] tailq_is_end [OF l(1)] tailq_is_end [OF l(2)] by (auto simp: tailq_is_def)
  let ?m = "tailq_upd_back (tailq_upd (tailq_upd_back (tailq_upd_back (tailq_upd m ?c f) (Next f) ?c) (First h1)
      (lastc (Next f) fs)) (First h2) NULL) (First h2) (First h2)"
  have m: "TAILQ_CONCAT m h1 h2 = Some ?m" "tailq_load ?m = (tailq_load m)(?c \<mapsto> f, First h2 \<mapsto> NULL)"
      "tailq_back ?m = (tailq_back m)(Next f \<mapsto> ?c, First h1 \<mapsto> lastc (Next f) fs, First h2 \<mapsto> First h2)"
      "tailq_alive ?m = tailq_alive m" "tailq_data ?m = tailq_data m"
    using v ne by (simp_all add: TAILQ_CONCAT_def TAILQ_EMPTY_def TAILQ_INIT_def tailq_exec)
  have "run ((tailq_load m)(?c \<mapsto> f)) NULL (First h1) (ps @ f # fs)"
    using l Cons v lastc_cases [of h1 ps] ne by (intro run_store [of "tailq_load m" NULL _ _ "[]"]) (auto simp: tailq_is_def)
  moreover have "prevs (tailq_back ?m) (First h1) (circle h1 (ps @ f # fs))"
    using l Cons ne unfolding m(3) tailq_is_def by (auto simp: last_cells simp del: last.simps)
  ultimately have "tailq_is ?m h1 (ps @ qs)" "tailq_is ?m h2 []"
    unfolding tailq_is_def m(2) using ne Cons m(3) by auto
  then show ?thesis using m(1,4,5) ne by (auto simp: holds_queues_def)
qed

lemma TAILQ_SWAP_is:
  assumes "holds_queues tailq_is m [(h1, ps), (h2, qs)]"
  shows "\<exists>m'. TAILQ_SWAP m h1 h2 = Some m' \<and> holds_queues tailq_is m' [(h1, qs), (h2, ps)] \<and>
    tailq_alive m' = tailq_alive m \<and> tailq_data m' = tailq_data m"
proof -
  have l: "tailq_is m h1 ([] @ ps)" "tailq_is m h2 ([] @ qs)" and ne: "h1 \<noteq> h2" "distinct ps" "distinct qs" "set ps \<inter> set qs = {}"
    using assms by (auto simp: holds_queues_def)
  have r: "run (tailq_load m) NULL (First h1) ps" "run (tailq_load m) NULL (First h2) qs"
    using l by (simp_all add: tailq_is_def)
  note lst = tailq_is_end [OF l(1)] tailq_is_end [OF l(2)]
  have "\<exists>m'. TAILQ_SWAP m h1 h2 = Some m' \<and>
      tailq_load m' = (tailq_load m)(First h1 := tailq_load m (First h2), First h2 := tailq_load m (First h1)) \<and>
      tailq_back m' = (tailq_back m)(First h1 \<mapsto> lastc (First h2) qs, First h2 \<mapsto> lastc (First h1) ps,
        behind h1 qs \<mapsto> First h1, behind h2 ps \<mapsto> First h2) \<and>
      tailq_alive m' = tailq_alive m \<and> tailq_data m' = tailq_data m"
    using l(1)
  proof (cases rule: tailq_is_next)
    case 1
    from l(2) show ?thesis
      by (cases rule: tailq_is_next) (use 1 ne lst in \<open>simp_all add: TAILQ_SWAP_def tailq_exec behind_def\<close>)
  next
    case (2 z zs)
    from l(2) show ?thesis
      by (cases rule: tailq_is_next) (use 2 ne lst in \<open>simp_all add: TAILQ_SWAP_def tailq_exec behind_def\<close>)
  qed
  then obtain m' where m': "TAILQ_SWAP m h1 h2 = Some m'"
      and ld: "tailq_load m' = (tailq_load m)(First h1 := tailq_load m (First h2), First h2 := tailq_load m (First h1))"
      and bk: "tailq_back m' = (tailq_back m)(First h1 \<mapsto> lastc (First h2) qs, First h2 \<mapsto> lastc (First h1) ps,
        behind h1 qs \<mapsto> First h1, behind h2 ps \<mapsto> First h2)"
      and same: "tailq_alive m' = tailq_alive m" "tailq_data m' = tailq_data m" by blast
  have "run (tailq_load m') NULL (First h1) qs" "run (tailq_load m') NULL (First h2) ps"
    unfolding ld by (rule run_move [OF r(2)] run_move [OF r(1)]; use ne in simp)+
  moreover have "prevs (tailq_back m') (First h1) (circle h1 qs)" "prevs (tailq_back m') (First h2) (circle h2 ps)"
    using l ne unfolding bk tailq_is_def
    by (cases qs; cases ps; auto simp: behind_def last_cells simp del: last.simps)+
  ultimately show ?thesis using m' same ne by (auto simp: holds_queues_def tailq_is_def)
qed

lemma TAILQ_INIT_initializer:
  assumes "h \<noteq> NULL" and "tq_heads m h \<noteq> None"
  shows "TAILQ_INIT m h = Some (m\<lparr>tq_heads := (tq_heads m)(h \<mapsto> TAILQ_HEAD_INITIALIZER h)\<rparr>)"
  using assms by (cases "the (tq_heads m h)") (auto simp: TAILQ_INIT_def tailq_store_def tailq_set_back_def deref_def change_def
      TAILQ_HEAD_INITIALIZER_def tailq_load.simps tailq_back.simps tailq_upd.simps tailq_upd_back.simps)

lemma TAILQ_INIT_is:
  assumes "tailq_load m (First h) \<noteq> None"
  shows "\<exists>m'. TAILQ_INIT m h = Some m' \<and> tailq_is m' h [] \<and> tailq_frame h {} m m'"
  using assms tailq_load_back [of m "First h"] by (auto simp: TAILQ_INIT_def tailq_exec tailq_is_def tailq_frame_def)

lemma TAILQ_EMPTY_is: "tailq_is m h ps \<Longrightarrow> TAILQ_EMPTY m h = Some (ps = [])"
  by (cases ps) (auto simp: TAILQ_EMPTY_def tailq_is_def)

text \<open>Reading backwards: the cast through the previous entry, or through the head at the ends.\<close>

lemma tailq_back_twice:
  assumes "tailq_is m h (as @ bs)"
  shows "tailq_back m (lastc (First h) as) \<bind> tailq_load m = Some (if as = [] then NULL else last as)"
proof (cases as rule: rev_cases)
  case Nil
  then show ?thesis using tailq_is_end [OF assms] by simp
next
  case (snoc as' y)
  then have l: "tailq_is m h (as' @ y # bs)" using assms by simp
  then show ?thesis using tailq_is_behind [OF l] snoc by (auto simp: behind_def tailq_is_def run_append)
qed

lemma TAILQ_LAST_is: "tailq_is m h ps \<Longrightarrow> TAILQ_LAST m h = Some (if ps = [] then NULL else last ps)"
  using tailq_back_twice [of m h ps "[]"] tailq_is_end [of m h ps] by (simp add: TAILQ_LAST_def)

lemma TAILQ_PREV_is: "tailq_is m h (as @ x # bs) \<Longrightarrow> TAILQ_PREV m x = Some (if as = [] then NULL else last as)"
  using tailq_back_twice [of m h as "x # bs"] tailq_is_behind [of m h as "x # bs"] by (simp add: TAILQ_PREV_def behind_def)

lemma TAILQ_walk: "tailq_is m h ps \<Longrightarrow> \<exists>p. TAILQ_FIRST m h = Some p \<and> walk (TAILQ_NEXT m) NULL p ps"
  using run_walk [of "tailq_load m" NULL "First h" ps]
  by (simp add: tailq_is_def TAILQ_FIRST_def TAILQ_NEXT_def [abs_def])

lemma TAILQ_walk_reverse:
  assumes "tailq_is m h (as @ bs)"
  shows "walk (TAILQ_PREV m) NULL (if as = [] then NULL else last as) (rev as)"
  using assms
proof (induction as arbitrary: bs rule: rev_induct)
  case Nil
  then show ?case by simp
next
  case (snoc x as)
  then have l: "tailq_is m h (as @ x # bs)" by simp
  moreover have "x \<noteq> NULL" using l run_fin [of "tailq_load m" NULL "First h" "as @ x # bs"] by (auto simp: tailq_is_def)
  ultimately show ?case using snoc.IH [OF l] TAILQ_PREV_is [OF l] by simp
qed

section \<open>The contract\<close>

fun tailq_run :: "'e tailq_mem \<Rightarrow> ptr \<Rightarrow> qop \<Rightarrow> 'e tailq_mem prog" where
  "tailq_run m h (Insert_Head x) = of_option (TAILQ_INSERT_HEAD m h x)"
| "tailq_run m h (Insert_Tail x) = of_option (TAILQ_INSERT_TAIL m h x)"
| "tailq_run m h (Insert_Before y x) = of_option (TAILQ_INSERT_BEFORE m y x)"
| "tailq_run m h (Insert_After y x) = of_option (TAILQ_INSERT_AFTER m h y x)"
| "tailq_run m h (Remove y) = of_option (TAILQ_REMOVE m h y)"
| "tailq_run m h (Replace y x) = of_option (TAILQ_REPLACE m h y x)"
| "tailq_run m h _ = Some Undefined"

fun tailq_supports :: "qop \<Rightarrow> bool" where
  "tailq_supports Remove_Head \<longleftrightarrow> False"
| "tailq_supports (Remove_After y) \<longleftrightarrow> False"
| "tailq_supports (Remove_Head_Until y) \<longleftrightarrow> False"
| "tailq_supports _ \<longleftrightarrow> True"

lemma tailq_run_is:
  assumes l: "tailq_is m h ps" and s: "tailq_supports op" and n: "list_all (tailq_alive m) (new_elem op)"
    and f: "set (new_elem op) \<inter> set ps = {}" and ps': "spec_op op ps = Some ps'"
  shows "\<exists>m'. tailq_run m h op = ret m' \<and> tailq_is m' h ps' \<and> tailq_frame h (set ps \<union> set (new_elem op)) m m'"
proof -
  have split: "tailq_is m h (before y ps @ y # beyond y ps)" "set (before y ps @ y # beyond y ps) = set ps"
    if "y \<in> set ps" for y
    using l split_before [OF that] by simp_all
  note nn = tailq_alive_NULL [of m]
  show ?thesis
  proof (cases op)
    case (Insert_Head x)
    then show ?thesis using of_option_ex [OF TAILQ_INSERT_HEAD_is [OF l, of x]] nn n f ps' by simp
  next
    case (Insert_Tail x)
    then show ?thesis using of_option_ex [OF TAILQ_INSERT_TAIL_is [OF l, of x]] nn n f ps' by simp
  next
    case (Insert_Before y x)
    then have y: "y \<in> set ps" using ps' by (simp split: if_splits)
    show ?thesis
      using of_option_ex [OF TAILQ_INSERT_BEFORE_is [OF split(1) [OF y], of x, unfolded split(2) [OF y]]] y nn n f ps' Insert_Before by simp
  next
    case (Insert_After y x)
    then have y: "y \<in> set ps" using ps' by (simp split: if_splits)
    show ?thesis
      using of_option_ex [OF TAILQ_INSERT_AFTER_is [OF split(1) [OF y], of x, unfolded split(2) [OF y]]] y nn n f ps' Insert_After by simp
  next
    case (Remove y)
    then have y: "y \<in> set ps" using ps' by (simp split: if_splits)
    show ?thesis using of_option_ex [OF TAILQ_REMOVE_is [OF split(1) [OF y], unfolded split(2) [OF y]]] y ps' Remove by simp
  next
    case (Replace y x)
    then have y: "y \<in> set ps" using ps' by (simp split: if_splits)
    show ?thesis
      using of_option_ex [OF TAILQ_REPLACE_is [OF split(1) [OF y], of x, unfolded split(2) [OF y]]] y nn n f ps' Replace by simp
  qed (use s in simp_all)
qed

interpretation tailq_lists: shared_macros tailq_is tailq_alive tailq_run tailq_supports
proof unfold_locales
  show "\<exists>m'. tailq_run m h op = ret m' \<and> tailq_is m' h ps' \<and> tailq_alive m' = tailq_alive m"
    if "tailq_is m h ps" "tailq_supports op" "list_all (tailq_alive m) (new_elem op)"
      "set (new_elem op) \<inter> set ps = {}" "spec_op op ps = Some ps'" for m :: "'e tailq_mem" and h ps op ps'
    using tailq_run_is [OF that] by (auto simp: tailq_frame_def)
  show "tailq_is m' k qs"
    if "tailq_is m h ps" "tailq_supports op" "list_all (tailq_alive m) (new_elem op)"
      "set (new_elem op) \<inter> set ps = {}" "spec_op op ps = Some ps'" "tailq_run m h op = ret m'"
      "tailq_is m k qs" "k \<noteq> h" "set qs \<inter> (set ps \<union> set (new_elem op)) = {}"
    for m m' :: "'e tailq_mem" and h k ps qs op ps'
    using tailq_run_is [OF that(1-5)] that(6) tailq_frame_other [OF _ that(7-9)] by auto
qed

end
