(* ===== verification/Queue_Types.thy ===== *)
theory Queue_Types
  imports Queue_Tailq
begin

text \<open>
  Type soundness of the tail queue macros. A memory is well typed for a set \<open>L\<close> of live links when
  its links are those of \<open>L\<close>, every link holds \<open>NULL\<close> or a live element, and every \<open>tqh_last\<close>
  and \<open>tqe_prev\<close> the address of a live link; \<open>D\<close> is the contents of the elements. In such a memory every macro, applied to live
  objects that need not be in any list, is defined and gives a well typed memory with the same
  live links and contents.

  The rules below follow the loads and stores of a macro one at a time.
\<close>

definition typed :: "cell set \<Rightarrow> (ptr \<Rightarrow> 'e option) \<Rightarrow> 'e tailq_mem \<Rightarrow> bool" where
  "typed L D m \<longleftrightarrow>
     (\<forall>c. tailq_load m c \<noteq> None \<longleftrightarrow> c \<in> L) \<and>
     (\<forall>c p. tailq_load m c = Some p \<longrightarrow> p = NULL \<or> Next p \<in> L) \<and>
     (\<forall>c d. tailq_back m c = Some d \<longrightarrow> d \<in> L) \<and>
     tailq_data m = D"

definition sound :: "cell set \<Rightarrow> (ptr \<Rightarrow> 'e option) \<Rightarrow> 'e tailq_mem option \<Rightarrow> bool" where
  "sound L D r \<longleftrightarrow> (\<exists>m. r = Some m \<and> typed L D m)"

lemma typed_load: "typed L D m \<Longrightarrow> c \<in> L \<Longrightarrow> \<exists>p. tailq_load m c = Some p \<and> (p = NULL \<or> Next p \<in> L)"
  unfolding typed_def by (metis not_None_eq)

lemma typed_back: "typed L D m \<Longrightarrow> c \<in> L \<Longrightarrow> \<exists>d. tailq_back m c = Some d \<and> d \<in> L"
  unfolding typed_def by (metis not_None_eq tailq_load_back)

lemma typed_upd: "typed L D m \<Longrightarrow> c \<in> L \<Longrightarrow> p = NULL \<or> Next p \<in> L \<Longrightarrow> typed L D (tailq_upd m c p)"
  unfolding typed_def by (auto simp: tailq_mem split: if_splits)

lemma typed_upd_back: "typed L D m \<Longrightarrow> c \<in> L \<Longrightarrow> d \<in> L \<Longrightarrow> typed L D (tailq_upd_back m c d)"
  unfolding typed_def by (auto simp: tailq_mem split: if_splits)

lemma sound_Some: "typed L D m \<Longrightarrow> sound L D (Some m)"
  by (simp add: sound_def)

lemma sound_store: "typed L D m \<Longrightarrow> c \<in> L \<Longrightarrow> p = NULL \<or> Next p \<in> L \<Longrightarrow> sound L D (tailq_store m c p)"
  using typed_load [of L D m c] typed_upd [of L D m c p] by (auto simp: sound_def tailq_store_def)

lemma sound_set_back: "typed L D m \<Longrightarrow> c \<in> L \<Longrightarrow> d \<in> L \<Longrightarrow> sound L D (tailq_set_back m c d)"
  using typed_back [of L D m c] typed_upd_back [of L D m c d] by (auto simp: sound_def tailq_set_back_def)

lemma sound_load:
  assumes "typed L D m" and "c \<in> L" and "\<And>p. tailq_load m c = Some p \<Longrightarrow> p = NULL \<or> Next p \<in> L \<Longrightarrow> sound L D (f p)"
  shows "sound L D (tailq_load m c \<bind> f)"
  using typed_load [OF assms(1,2)] assms(3) by auto

lemma sound_back:
  assumes "typed L D m" and "c \<in> L" and "\<And>d. d \<in> L \<Longrightarrow> sound L D (f d)"
  shows "sound L D (tailq_back m c \<bind> f)"
  using typed_back [OF assms(1,2)] assms(3) by auto

lemma sound_bind:
  assumes "sound L D r" and "\<And>m. typed L D m \<Longrightarrow> sound L D (f m)"
  shows "sound L D (r \<bind> f)"
  using assms by (auto simp: sound_def)

lemma sound_store_bind:
  assumes "typed L D m" and "c \<in> L" and "p = NULL \<or> Next p \<in> L"
    and "typed L D (tailq_upd m c p) \<Longrightarrow> sound L D (f (tailq_upd m c p))"
  shows "sound L D (tailq_store m c p \<bind> f)"
  using assms typed_load [of L D m c] typed_upd [of L D m c p] by (auto simp: tailq_store_def)

lemma sound_if: "(b \<Longrightarrow> sound L D r) \<Longrightarrow> (\<not> b \<Longrightarrow> sound L D s) \<Longrightarrow> sound L D (if b then r else s)"
  by simp

lemmas sound_rules = sound_load sound_back sound_store_bind sound_bind [OF sound_set_back]
  sound_bind [OF sound_if] sound_if sound_store sound_set_back sound_Some

lemma insert_head_sound: "typed L D m \<Longrightarrow> First h \<in> L \<Longrightarrow> Next x \<in> L \<Longrightarrow> sound L D (TAILQ_INSERT_HEAD m h x)"
  unfolding TAILQ_INSERT_HEAD_def by (intro sound_rules) (auto simp: tailq_mem split: if_splits)

lemma insert_before_sound: "typed L D m \<Longrightarrow> Next y \<in> L \<Longrightarrow> Next x \<in> L \<Longrightarrow> sound L D (TAILQ_INSERT_BEFORE m y x)"
  unfolding TAILQ_INSERT_BEFORE_def by (intro sound_rules) (auto simp: tailq_mem split: if_splits)

lemma insert_after_sound:
  "typed L D m \<Longrightarrow> First h \<in> L \<Longrightarrow> Next y \<in> L \<Longrightarrow> Next x \<in> L \<Longrightarrow> sound L D (TAILQ_INSERT_AFTER m h y x)"
  unfolding TAILQ_INSERT_AFTER_def by (intro sound_rules) (auto simp: tailq_mem split: if_splits)

lemma insert_tail_sound: "typed L D m \<Longrightarrow> First h \<in> L \<Longrightarrow> Next x \<in> L \<Longrightarrow> sound L D (TAILQ_INSERT_TAIL m h x)"
  unfolding TAILQ_INSERT_TAIL_def by (intro sound_rules) (auto simp: tailq_mem split: if_splits)

lemma remove_sound: "typed L D m \<Longrightarrow> First h \<in> L \<Longrightarrow> Next x \<in> L \<Longrightarrow> sound L D (TAILQ_REMOVE m h x)"
  unfolding TAILQ_REMOVE_def by (intro sound_rules) (auto simp: tailq_mem split: if_splits)

lemma replace_sound:
  "typed L D m \<Longrightarrow> First h \<in> L \<Longrightarrow> Next y \<in> L \<Longrightarrow> Next x \<in> L \<Longrightarrow> sound L D (TAILQ_REPLACE m h y x)"
  unfolding TAILQ_REPLACE_def by (intro sound_rules) (auto simp: tailq_mem split: if_splits)

lemma init_sound: "typed L D m \<Longrightarrow> First h \<in> L \<Longrightarrow> sound L D (TAILQ_INIT m h)"
  unfolding TAILQ_INIT_def by (intro sound_rules) auto

lemma swap_sound: "typed L D m \<Longrightarrow> First h \<in> L \<Longrightarrow> First k \<in> L \<Longrightarrow> sound L D (TAILQ_SWAP m h k)"
  unfolding TAILQ_SWAP_def by (intro sound_rules) (auto simp: tailq_mem split: if_splits)

lemma concat_sound: "typed L D m \<Longrightarrow> First h \<in> L \<Longrightarrow> First k \<in> L \<Longrightarrow> sound L D (TAILQ_CONCAT m h k)"
  unfolding TAILQ_CONCAT_def TAILQ_INIT_def TAILQ_EMPTY_def bind_map_option comp_def
  by (intro sound_rules) (auto simp: tailq_mem split: if_splits)

section \<open>Property\<close>

fun op_args :: "qop \<Rightarrow> ptr list" where
  "op_args (Insert_Head x) = [x]"
| "op_args (Insert_Tail x) = [x]"
| "op_args (Insert_Before y x) = [y, x]"
| "op_args (Insert_After y x) = [y, x]"
| "op_args (Remove x) = [x]"
| "op_args Remove_Head = []"
| "op_args (Remove_After y) = [y]"
| "op_args (Remove_Head_Until y) = [y]"
| "op_args (Replace y x) = [y, x]"

lemma sound_ret: "sound L D r \<Longrightarrow> \<exists>m'. of_option r = ret m' \<and> typed L D m'"
  by (auto simp: sound_def)

lemma tailq_run_sound:
  assumes "typed L D m" and "tailq_supports op" and "First h \<in> L" and "list_all (\<lambda>x. Next x \<in> L) (op_args op)"
  shows "\<exists>m'. tailq_run m h op = ret m' \<and> typed L D m'"
  using assms
  by (cases op) (simp_all add: sound_ret insert_head_sound insert_tail_sound insert_before_sound insert_after_sound
      remove_sound replace_sound)

text \<open>
  (C27) Type soundness of the tail queue macros: in a well typed memory every sequence of operations on live
  heads and elements, in or out of lists, is defined, and leaves a well typed memory
  with the same live objects and the same contents; so do \<open>TAILQ_CONCAT\<close> and \<open>TAILQ_SWAP\<close>.
\<close>

theorem tailq_type_sound:
  assumes "typed L D m"
    and "list_all (\<lambda>(h, op). tailq_supports op \<and> First h \<in> L \<and> list_all (\<lambda>x. Next x \<in> L) (op_args op)) as"
    and "First h \<in> L" and "First k \<in> L"
  shows "\<exists>m' m1 m2. exec_steps tailq_run m as = ret m' \<and> typed L D m' \<and>
    TAILQ_CONCAT m' h k = Some m1 \<and> typed L D m1 \<and> TAILQ_SWAP m' h k = Some m2 \<and> typed L D m2"
proof -
  have "\<exists>m'. exec_steps tailq_run m as = ret m' \<and> typed L D m'"
    using assms(1,2)
  proof (induction as arbitrary: m)
    case (Cons a as)
    obtain g op where a: "a = (g, op)" by force
    obtain m1 where "tailq_run m g op = ret m1" "typed L D m1"
      using tailq_run_sound [of L D m op g] Cons.prems a by auto
    then show ?case using Cons.IH [of m1] Cons.prems a by simp
  qed simp
  then obtain m' where m': "exec_steps tailq_run m as = ret m'" "typed L D m'" by blast
  then show ?thesis
    using concat_sound [OF m'(2) assms(3,4)] swap_sound [OF m'(2) assms(3,4)] by (auto simp: sound_def)
qed

definition two_queues :: "nat tailq_mem" where
  "two_queues = \<lparr>
     tq_heads = [100 \<mapsto> \<lparr>tqh_first = 1, tqh_last = Next 2\<rparr>, 200 \<mapsto> \<lparr>tqh_first = NULL, tqh_last = First 200\<rparr>],
     tq_elems = [1 \<mapsto> \<lparr>tqe_next = 2, tqe_prev = First 100, tq_data = 10\<rparr>,
       2 \<mapsto> \<lparr>tqe_next = NULL, tqe_prev = Next 1, tq_data = 20\<rparr>,
       3 \<mapsto> \<lparr>tqe_next = NULL, tqe_prev = First 200, tq_data = 30\<rparr>]\<rparr>"

lemma two_queues_typed: "typed {First 100, First 200, Next 1, Next 2, Next 3} (tailq_data two_queues) two_queues"
proof -
  have "tailq_load two_queues c \<noteq> None \<longleftrightarrow> c \<in> {First 100, First 200, Next 1, Next 2, Next 3}" for c
    by (cases c) (auto simp: two_queues_def tailq_load.simps deref_def split: if_splits)
  moreover have "p = NULL \<or> Next p \<in> {First 100, First 200, Next 1, Next 2, Next 3}" if "tailq_load two_queues c = Some p" for c p
    using that by (cases c) (auto simp: two_queues_def tailq_load.simps deref_def split: if_splits)
  moreover have "d \<in> {First 100, First 200, Next 1, Next 2, Next 3}" if "tailq_back two_queues c = Some d" for c d
    using that by (cases c) (auto simp: two_queues_def tailq_back.simps deref_def split: if_splits)
  ultimately show ?thesis by (simp add: typed_def)
qed

text \<open>Inserting an element that is already in a list is such an operation.\<close>

theorem tailq_type_sound_witness:
  "\<exists>m' m1 m2. exec_steps tailq_run two_queues [(100, Insert_Head 2), (200, Remove 3), (200, Insert_Before 3 1)] = ret m' \<and>
     typed {First 100, First 200, Next 1, Next 2, Next 3} (tailq_data two_queues) m' \<and>
     TAILQ_CONCAT m' 100 200 = Some m1 \<and> typed {First 100, First 200, Next 1, Next 2, Next 3} (tailq_data two_queues) m1 \<and>
     TAILQ_SWAP m' 100 200 = Some m2 \<and> typed {First 100, First 200, Next 1, Next 2, Next 3} (tailq_data two_queues) m2"
  by (rule tailq_type_sound [OF two_queues_typed]) simp_all

end
