(* ===== verification/Queue_Circleq.thy ===== *)
theory Queue_Circleq
  imports Queue_Cells
begin

text \<open>
  The circular queue macros (\<open>CIRCLEQ_*\<close>) of \<open>src/server/queue.h\<close>. Elements are linked both ways by
  element pointers; the head stands for the end in both directions, so its address, cast to
  an element pointer, is the end mark. \<open>None\<close> is the use of a pointer that is no
  live element.

  \<open>CIRCLEQ_REPLACE\<close> and \<open>CIRCLEQ_FOREACH_REVERSE_SAFE\<close> have no counterpart: no use of them
  compiles, since the one applies \<open>.\<close> to the pointer \<open>head\<close> and the other passes
  \<open>CIRCLEQ_LAST\<close> and \<open>CIRCLEQ_PREV\<close> an argument too many.
\<close>

section \<open>Memory\<close>

record circleq_head =
  cqh_first :: ptr
  cqh_last :: ptr

record 'e circleq_elem =
  cqe_next :: ptr
  cqe_prev :: ptr
  cq_data :: 'e

record 'e circleq_mem =
  cq_heads :: "ptr \<Rightarrow> circleq_head option"
  cq_elems :: "ptr \<Rightarrow> 'e circleq_elem option"

text \<open>
  The two links of a head (\<open>First\<close>) or of an element (\<open>Next\<close>): forwards \<open>cqh_first\<close> and \<open>cqe_next\<close>,
  backwards \<open>cqh_last\<close> and \<open>cqe_prev\<close>.
\<close>

fun circleq_fwd :: "'e circleq_mem \<Rightarrow> cell \<Rightarrow> ptr option" where
  "circleq_fwd m (First h) = map_option cqh_first (deref (cq_heads m) h)"
| "circleq_fwd m (Next x) = map_option cqe_next (deref (cq_elems m) x)"

fun circleq_bwd :: "'e circleq_mem \<Rightarrow> cell \<Rightarrow> ptr option" where
  "circleq_bwd m (First h) = map_option cqh_last (deref (cq_heads m) h)"
| "circleq_bwd m (Next x) = map_option cqe_prev (deref (cq_elems m) x)"

fun circleq_upd_fwd :: "'e circleq_mem \<Rightarrow> cell \<Rightarrow> ptr \<Rightarrow> 'e circleq_mem" where
  "circleq_upd_fwd m (First h) v = m\<lparr>cq_heads := change (cq_heads m) h (\<lambda>r. r\<lparr>cqh_first := v\<rparr>)\<rparr>"
| "circleq_upd_fwd m (Next x) v = m\<lparr>cq_elems := change (cq_elems m) x (\<lambda>e. e\<lparr>cqe_next := v\<rparr>)\<rparr>"

fun circleq_upd_bwd :: "'e circleq_mem \<Rightarrow> cell \<Rightarrow> ptr \<Rightarrow> 'e circleq_mem" where
  "circleq_upd_bwd m (First h) v = m\<lparr>cq_heads := change (cq_heads m) h (\<lambda>r. r\<lparr>cqh_last := v\<rparr>)\<rparr>"
| "circleq_upd_bwd m (Next x) v = m\<lparr>cq_elems := change (cq_elems m) x (\<lambda>e. e\<lparr>cqe_prev := v\<rparr>)\<rparr>"

definition circleq_set_fwd :: "'e circleq_mem \<Rightarrow> cell \<Rightarrow> ptr \<Rightarrow> 'e circleq_mem option" where
  "circleq_set_fwd m c v = (if circleq_fwd m c = None then None else Some (circleq_upd_fwd m c v))"

definition circleq_set_bwd :: "'e circleq_mem \<Rightarrow> cell \<Rightarrow> ptr \<Rightarrow> 'e circleq_mem option" where
  "circleq_set_bwd m c v = (if circleq_bwd m c = None then None else Some (circleq_upd_bwd m c v))"

section \<open>Operations\<close>

definition CIRCLEQ_FIRST :: "'e circleq_mem \<Rightarrow> ptr \<Rightarrow> ptr option" where
  "CIRCLEQ_FIRST m head = circleq_fwd m (First head)"

definition CIRCLEQ_LAST :: "'e circleq_mem \<Rightarrow> ptr \<Rightarrow> ptr option" where
  "CIRCLEQ_LAST m head = circleq_bwd m (First head)"

definition CIRCLEQ_NEXT :: "'e circleq_mem \<Rightarrow> ptr \<Rightarrow> ptr option" where
  "CIRCLEQ_NEXT m elm = circleq_fwd m (Next elm)"

definition CIRCLEQ_PREV :: "'e circleq_mem \<Rightarrow> ptr \<Rightarrow> ptr option" where
  "CIRCLEQ_PREV m elm = circleq_bwd m (Next elm)"

definition CIRCLEQ_EMPTY :: "'e circleq_mem \<Rightarrow> ptr \<Rightarrow> bool option" where
  "CIRCLEQ_EMPTY m head = map_option (\<lambda>p. p = head) (CIRCLEQ_FIRST m head)"

definition CIRCLEQ_HEAD_INITIALIZER :: "ptr \<Rightarrow> circleq_head" where
  "CIRCLEQ_HEAD_INITIALIZER head = \<lparr>cqh_first = head, cqh_last = head\<rparr>"

definition CIRCLEQ_INIT :: "'e circleq_mem \<Rightarrow> ptr \<Rightarrow> 'e circleq_mem option" where
  "CIRCLEQ_INIT m head =
     do {
       m \<leftarrow> circleq_set_fwd m (First head) head;
       circleq_set_bwd m (First head) head
     }"

definition CIRCLEQ_INSERT_HEAD :: "'e circleq_mem \<Rightarrow> ptr \<Rightarrow> ptr \<Rightarrow> 'e circleq_mem option" where
  "CIRCLEQ_INSERT_HEAD m head elm =
     do {
       f \<leftarrow> circleq_fwd m (First head);
       m \<leftarrow> circleq_set_fwd m (Next elm) f;
       m \<leftarrow> circleq_set_bwd m (Next elm) head;
       l \<leftarrow> circleq_bwd m (First head);
       m \<leftarrow> (if l = head then circleq_set_bwd m (First head) elm
            else do { f \<leftarrow> circleq_fwd m (First head); circleq_set_bwd m (Next f) elm });
       circleq_set_fwd m (First head) elm
     }"

definition CIRCLEQ_INSERT_BEFORE :: "'e circleq_mem \<Rightarrow> ptr \<Rightarrow> ptr \<Rightarrow> ptr \<Rightarrow> 'e circleq_mem option" where
  "CIRCLEQ_INSERT_BEFORE m head listelm elm =
     do {
       m \<leftarrow> circleq_set_fwd m (Next elm) listelm;
       p \<leftarrow> circleq_bwd m (Next listelm);
       m \<leftarrow> circleq_set_bwd m (Next elm) p;
       p \<leftarrow> circleq_bwd m (Next listelm);
       m \<leftarrow> (if p = head then circleq_set_fwd m (First head) elm else circleq_set_fwd m (Next p) elm);
       circleq_set_bwd m (Next listelm) elm
     }"

definition CIRCLEQ_INSERT_AFTER :: "'e circleq_mem \<Rightarrow> ptr \<Rightarrow> ptr \<Rightarrow> ptr \<Rightarrow> 'e circleq_mem option" where
  "CIRCLEQ_INSERT_AFTER m head listelm elm =
     do {
       n \<leftarrow> circleq_fwd m (Next listelm);
       m \<leftarrow> circleq_set_fwd m (Next elm) n;
       m \<leftarrow> circleq_set_bwd m (Next elm) listelm;
       n \<leftarrow> circleq_fwd m (Next listelm);
       m \<leftarrow> (if n = head then circleq_set_bwd m (First head) elm else circleq_set_bwd m (Next n) elm);
       circleq_set_fwd m (Next listelm) elm
     }"

definition CIRCLEQ_INSERT_TAIL :: "'e circleq_mem \<Rightarrow> ptr \<Rightarrow> ptr \<Rightarrow> 'e circleq_mem option" where
  "CIRCLEQ_INSERT_TAIL m head elm =
     do {
       m \<leftarrow> circleq_set_fwd m (Next elm) head;
       l \<leftarrow> circleq_bwd m (First head);
       m \<leftarrow> circleq_set_bwd m (Next elm) l;
       f \<leftarrow> circleq_fwd m (First head);
       m \<leftarrow> (if f = head then circleq_set_fwd m (First head) elm
            else do { l \<leftarrow> circleq_bwd m (First head); circleq_set_fwd m (Next l) elm });
       circleq_set_bwd m (First head) elm
     }"

definition CIRCLEQ_REMOVE :: "'e circleq_mem \<Rightarrow> ptr \<Rightarrow> ptr \<Rightarrow> 'e circleq_mem option" where
  "CIRCLEQ_REMOVE m head elm =
     do {
       n \<leftarrow> circleq_fwd m (Next elm);
       p \<leftarrow> circleq_bwd m (Next elm);
       m \<leftarrow> (if n = head then circleq_set_bwd m (First head) p else circleq_set_bwd m (Next n) p);
       p \<leftarrow> circleq_bwd m (Next elm);
       n \<leftarrow> circleq_fwd m (Next elm);
       if p = head then circleq_set_fwd m (First head) n else circleq_set_fwd m (Next p) n
     }"

text \<open>The successor and the predecessor going round.\<close>

definition CIRCLEQ_LOOP_NEXT :: "'e circleq_mem \<Rightarrow> ptr \<Rightarrow> ptr \<Rightarrow> ptr option" where
  "CIRCLEQ_LOOP_NEXT m head elm =
     do {
       n \<leftarrow> circleq_fwd m (Next elm);
       if n = head then circleq_fwd m (First head) else circleq_fwd m (Next elm)
     }"

definition CIRCLEQ_LOOP_PREV :: "'e circleq_mem \<Rightarrow> ptr \<Rightarrow> ptr \<Rightarrow> ptr option" where
  "CIRCLEQ_LOOP_PREV m head elm =
     do {
       p \<leftarrow> circleq_bwd m (Next elm);
       if p = head then circleq_bwd m (First head) else circleq_bwd m (Next elm)
     }"

definition CIRCLEQ_FOREACH ::
  "(ptr \<Rightarrow> 'e circleq_mem \<Rightarrow> 's \<Rightarrow> ('e circleq_mem \<times> 's) prog) \<Rightarrow> ptr \<Rightarrow> 'e circleq_mem \<Rightarrow> 's \<Rightarrow> ('e circleq_mem \<times> 's) prog" where
  "CIRCLEQ_FOREACH body head m s =
     seq (of_option (CIRCLEQ_FIRST m head)) (\<lambda>var. for_loop CIRCLEQ_NEXT head body var m s)"

definition CIRCLEQ_FOREACH_SAFE ::
  "(ptr \<Rightarrow> 'e circleq_mem \<Rightarrow> 's \<Rightarrow> ('e circleq_mem \<times> 's) prog) \<Rightarrow> ptr \<Rightarrow> 'e circleq_mem \<Rightarrow> 's \<Rightarrow> ('e circleq_mem \<times> 's) prog" where
  "CIRCLEQ_FOREACH_SAFE body head m s =
     seq (of_option (CIRCLEQ_FIRST m head)) (\<lambda>var. for_safe_loop CIRCLEQ_NEXT head body var m s)"

definition CIRCLEQ_FOREACH_REVERSE ::
  "(ptr \<Rightarrow> 'e circleq_mem \<Rightarrow> 's \<Rightarrow> ('e circleq_mem \<times> 's) prog) \<Rightarrow> ptr \<Rightarrow> 'e circleq_mem \<Rightarrow> 's \<Rightarrow> ('e circleq_mem \<times> 's) prog" where
  "CIRCLEQ_FOREACH_REVERSE body head m s =
     seq (of_option (CIRCLEQ_LAST m head)) (\<lambda>var. for_loop CIRCLEQ_PREV head body var m s)"

section \<open>Reading after writing\<close>

named_theorems circleq_mem \<open>loads and stores of the circular queue memory\<close>

lemma circleq_fwd_upd [circleq_mem]:
  "circleq_fwd (circleq_upd_fwd m c v) d = (if d = c \<and> circleq_fwd m c \<noteq> None then Some v else circleq_fwd m d)"
  by (cases c; cases d) (auto simp: deref_change split: option.split)

lemma circleq_bwd_upd [circleq_mem]:
  "circleq_bwd (circleq_upd_bwd m c v) d = (if d = c \<and> circleq_bwd m c \<noteq> None then Some v else circleq_bwd m d)"
  by (cases c; cases d) (auto simp: deref_change split: option.split)

lemma circleq_upd_funs:
  "circleq_fwd m c \<noteq> None \<Longrightarrow> circleq_fwd (circleq_upd_fwd m c v) = (circleq_fwd m)(c \<mapsto> v)"
  "circleq_bwd m c \<noteq> None \<Longrightarrow> circleq_bwd (circleq_upd_bwd m c v) = (circleq_bwd m)(c \<mapsto> v)"
  by (auto simp: circleq_fwd_upd circleq_bwd_upd fun_eq_iff)

lemma circleq_bwd_upd_fwd [circleq_mem]: "circleq_bwd (circleq_upd_fwd m c v) = circleq_bwd m"
proof
  show "circleq_bwd (circleq_upd_fwd m c v) d = circleq_bwd m d" for d
    by (cases c; cases d) (auto simp: deref_change option.map_comp comp_def intro!: option.map_cong)
qed

lemma circleq_fwd_upd_bwd [circleq_mem]: "circleq_fwd (circleq_upd_bwd m c v) = circleq_fwd m"
proof
  show "circleq_fwd (circleq_upd_bwd m c v) d = circleq_fwd m d" for d
    by (cases c; cases d) (auto simp: deref_change option.map_comp comp_def intro!: option.map_cong)
qed

text \<open>An element that may be added: live, and not at the address of a head.\<close>

definition circleq_alive :: "'e circleq_mem \<Rightarrow> ptr \<Rightarrow> bool" where
  "circleq_alive m x \<longleftrightarrow> deref (cq_elems m) x \<noteq> None \<and> deref (cq_heads m) x = None"

definition circleq_data :: "'e circleq_mem \<Rightarrow> ptr \<Rightarrow> 'e option" where
  "circleq_data m x = map_option cq_data (cq_elems m x)"

lemma circleq_live: "circleq_fwd m c = None \<longleftrightarrow> circleq_bwd m c = None"
  by (cases c) auto

lemma circleq_alive_same [circleq_mem]:
  "circleq_alive (circleq_upd_fwd m c v) = circleq_alive m" "circleq_alive (circleq_upd_bwd m c v) = circleq_alive m"
  by (cases c; simp add: circleq_alive_def deref_change fun_eq_iff)+

lemma circleq_data_upd_fwd [circleq_mem]: "circleq_data (circleq_upd_fwd m c v) = circleq_data m"
  by (cases c) (auto simp: circleq_data_def change_def fun_eq_iff option.map_comp comp_def intro!: option.map_cong)

lemma circleq_data_upd_bwd [circleq_mem]: "circleq_data (circleq_upd_bwd m c v) = circleq_data m"
  by (cases c) (auto simp: circleq_data_def change_def fun_eq_iff option.map_comp comp_def intro!: option.map_cong)

lemma circleq_aliveE:
  assumes "circleq_alive m x"
  obtains n p where "circleq_fwd m (Next x) = Some n" and "circleq_bwd m (Next x) = Some p"
    and "circleq_fwd m (First x) = None"
  using assms by (auto simp: circleq_alive_def)

declare circleq_fwd.simps [simp del] circleq_bwd.simps [simp del] circleq_upd_fwd.simps [simp del] circleq_upd_bwd.simps [simp del]

lemmas circleq_exec = circleq_set_fwd_def circleq_set_bwd_def circleq_mem circleq_upd_funs

section \<open>The list behind the pointers\<close>

definition circleq_is :: "'e circleq_mem \<Rightarrow> ptr \<Rightarrow> ptr list \<Rightarrow> bool" where
  "circleq_is m h ps \<longleftrightarrow> run (circleq_fwd m) h (First h) ps \<and> run (circleq_bwd m) h (First h) (rev ps)"

text \<open>What an operation on the queue at \<open>h\<close> with elements in \<open>A\<close> may change.\<close>

definition circleq_frame :: "ptr \<Rightarrow> ptr set \<Rightarrow> 'e circleq_mem \<Rightarrow> 'e circleq_mem \<Rightarrow> bool" where
  "circleq_frame h A m m' \<longleftrightarrow>
     (\<forall>c. c \<noteq> First h \<longrightarrow> c \<notin> Next ` A \<longrightarrow> circleq_fwd m' c = circleq_fwd m c \<and> circleq_bwd m' c = circleq_bwd m c) \<and>
     circleq_alive m' = circleq_alive m \<and> circleq_data m' = circleq_data m"

lemma circleq_frame_other:
  assumes "circleq_frame h A m m'" and "circleq_is m k qs" and "k \<noteq> h" and "set qs \<inter> A = {}"
  shows "circleq_is m' k qs"
proof -
  have "run (circleq_fwd m') k (First k) qs = run (circleq_fwd m) k (First k) qs"
    using assms by (intro run_cong) (auto simp: circleq_frame_def)
  moreover have "run (circleq_bwd m') k (First k) (rev qs) = run (circleq_bwd m) k (First k) (rev qs)"
    using assms by (intro run_cong) (auto simp: circleq_frame_def)
  ultimately show ?thesis using assms(2) by (simp add: circleq_is_def)
qed

lemma circleq_is_distinct: "circleq_is m h ps \<Longrightarrow> distinct ps"
  unfolding circleq_is_def using run_distinct by blast

lemma circleq_insert_is:
  assumes l: "circleq_is m h (as @ bs)" and x: "x \<noteq> h" "x \<notin> set (as @ bs)"
    and c: "c = lastc (First h) as" and d: "d = lastc (First h) (rev bs)"
    and fw: "circleq_fwd m' = (circleq_fwd m)(Next x := circleq_fwd m c, c \<mapsto> x)"
    and bw: "circleq_bwd m' = (circleq_bwd m)(Next x := circleq_bwd m d, d \<mapsto> x)"
    and same: "circleq_alive m' = circleq_alive m" "circleq_data m' = circleq_data m"
  shows "circleq_is m' h (as @ x # bs) \<and> circleq_frame h (insert x (set (as @ bs))) m m'"
proof
  have "run (circleq_fwd m') h (First h) (as @ x # bs)" "run (circleq_bwd m') h (First h) (rev bs @ x # rev as)"
    using l x unfolding fw bw c d by (auto simp: circleq_is_def intro!: run_insert)
  then show "circleq_is m' h (as @ x # bs)" by (simp add: circleq_is_def)
  show "circleq_frame h (insert x (set (as @ bs))) m m'"
    unfolding circleq_frame_def fw bw c d using same lastc_cases [of h as] lastc_cases [of h "rev bs"] by auto
qed

lemma circleq_remove_is:
  assumes l: "circleq_is m h (as @ x # bs)"
    and c: "c = lastc (First h) as" and d: "d = lastc (First h) (rev bs)"
    and fw: "circleq_fwd m' = (circleq_fwd m)(c := circleq_fwd m (Next x))"
    and bw: "circleq_bwd m' = (circleq_bwd m)(d := circleq_bwd m (Next x))"
    and same: "circleq_alive m' = circleq_alive m" "circleq_data m' = circleq_data m"
  shows "circleq_is m' h (as @ bs) \<and> circleq_frame h (set (as @ x # bs)) m m'"
proof
  have "run (circleq_fwd m') h (First h) (as @ bs)" "run (circleq_bwd m') h (First h) (rev bs @ rev as)"
    using l unfolding fw bw c d by (auto simp: circleq_is_def intro!: run_remove)
  then show "circleq_is m' h (as @ bs)" by (simp add: circleq_is_def)
  show "circleq_frame h (set (as @ x # bs)) m m'"
    unfolding circleq_frame_def fw bw c d using same lastc_cases [of h as] lastc_cases [of h "rev bs"] by auto
qed

section \<open>The operations on the list\<close>

lemma circleq_is_head: "circleq_is m h ps \<Longrightarrow> circleq_fwd m (First h) \<noteq> None"
  by (cases ps) (auto simp: circleq_is_def)

text \<open>The objects on the two sides of a position in the queue.\<close>

lemma circleq_is_next:
  assumes "circleq_is m h (as @ bs)"
  obtains "bs = []" "circleq_fwd m (lastc (First h) as) = Some h" "lastc (First h) (rev bs) = First h"
  | z zs where "bs = z # zs" "circleq_fwd m (lastc (First h) as) = Some z" "z \<noteq> h" "lastc (First h) (rev bs) = Next z"
proof (cases bs)
  case Nil
  then show ?thesis using assms that(1) by (simp add: circleq_is_def run_def)
next
  case (Cons z zs)
  then show ?thesis using assms that(2) by (simp add: circleq_is_def run_append lastc_last)
qed

lemma circleq_is_prev:
  assumes "circleq_is m h (as @ bs)"
  obtains "as = []" "circleq_bwd m (lastc (First h) (rev bs)) = Some h" "lastc (First h) as = First h"
  | y ys where "as = ys @ [y]" "circleq_bwd m (lastc (First h) (rev bs)) = Some y" "y \<noteq> h" "lastc (First h) as = Next y"
proof (cases as rule: rev_cases)
  case Nil
  then show ?thesis using assms that(1) by (simp add: circleq_is_def run_def)
next
  case (snoc ys y)
  then show ?thesis using assms that(2) by (simp add: circleq_is_def run_append)
qed

lemma CIRCLEQ_INSERT_HEAD_is:
  assumes l: "circleq_is m h ps" and x: "circleq_alive m x" "x \<notin> set ps"
  shows "\<exists>m'. CIRCLEQ_INSERT_HEAD m h x = Some m' \<and> circleq_is m' h (x # ps) \<and> circleq_frame h (insert x (set ps)) m m'"
proof -
  have l': "circleq_is m h ([] @ ps)" using l by simp
  obtain n p where x': "circleq_fwd m (Next x) = Some n" "circleq_bwd m (Next x) = Some p" "x \<noteq> h"
    using circleq_is_head [OF l] by (metis circleq_aliveE [OF x(1)])
  have b: "circleq_bwd m (lastc (First h) (rev ps)) = Some h" using l' by (cases rule: circleq_is_prev) simp_all
  obtain b0 where b0: "circleq_bwd m (First h) = Some b0" "ps \<noteq> [] \<Longrightarrow> b0 \<noteq> h"
    using l by (cases ps rule: rev_cases) (auto simp: circleq_is_def)
  let ?d = "lastc (First h) (rev ps)" and ?f = "case ps of [] \<Rightarrow> h | z # _ \<Rightarrow> z"
  let ?m = "circleq_upd_fwd (circleq_upd_bwd (circleq_upd_bwd (circleq_upd_fwd m (Next x) ?f) (Next x) h) ?d x) (First h) x"
  from l' have "CIRCLEQ_INSERT_HEAD m h x = Some ?m \<and> circleq_is ?m h ([] @ x # ps) \<and> circleq_frame h (insert x (set ([] @ ps))) m ?m"
  proof (cases rule: circleq_is_next)
    case 1
    then show ?thesis using x x' b
      by (intro conjI [OF _ circleq_insert_is [OF l' _ _ refl refl]]) (simp_all add: CIRCLEQ_INSERT_HEAD_def circleq_exec)
  next
    case (2 z zs)
    then show ?thesis using x x' b b0
      by (intro conjI [OF _ circleq_insert_is [OF l' _ _ refl refl]]) (simp_all add: CIRCLEQ_INSERT_HEAD_def circleq_exec)
  qed
  then show ?thesis by auto
qed

lemma CIRCLEQ_INSERT_TAIL_is:
  assumes l: "circleq_is m h ps" and x: "circleq_alive m x" "x \<notin> set ps"
  shows "\<exists>m'. CIRCLEQ_INSERT_TAIL m h x = Some m' \<and> circleq_is m' h (ps @ [x]) \<and> circleq_frame h (insert x (set ps)) m m'"
proof -
  have l': "circleq_is m h (ps @ [])" using l by simp
  obtain n p where x': "circleq_fwd m (Next x) = Some n" "circleq_bwd m (Next x) = Some p" "x \<noteq> h"
    using circleq_is_head [OF l] by (metis circleq_aliveE [OF x(1)])
  have f: "circleq_fwd m (lastc (First h) ps) = Some h" using l' by (cases rule: circleq_is_next) simp_all
  obtain f0 where f0: "circleq_fwd m (First h) = Some f0" "ps \<noteq> [] \<Longrightarrow> f0 \<noteq> h"
    using l by (cases ps) (auto simp: circleq_is_def)
  let ?l = "if ps = [] then h else last ps"
  let ?m = "circleq_upd_bwd (circleq_upd_fwd (circleq_upd_bwd (circleq_upd_fwd m (Next x) h) (Next x) ?l) (lastc (First h) ps) x) (First h) x"
  from l' have "CIRCLEQ_INSERT_TAIL m h x = Some ?m \<and> circleq_is ?m h (ps @ x # []) \<and> circleq_frame h (insert x (set (ps @ []))) m ?m"
  proof (cases rule: circleq_is_prev)
    case 1
    then show ?thesis using x x' f
      by (intro conjI [OF _ circleq_insert_is [OF l' _ _ refl refl]]) (simp_all add: CIRCLEQ_INSERT_TAIL_def circleq_exec)
  next
    case (2 y ys)
    then show ?thesis using x x' f f0
      by (intro conjI [OF _ circleq_insert_is [OF l' _ _ refl refl]]) (simp_all add: CIRCLEQ_INSERT_TAIL_def circleq_exec)
  qed
  then show ?thesis by auto
qed

lemma CIRCLEQ_INSERT_BEFORE_is:
  assumes l: "circleq_is m h (as @ y # bs)" and x: "circleq_alive m x" "x \<notin> set (as @ y # bs)"
  shows "\<exists>m'. CIRCLEQ_INSERT_BEFORE m h y x = Some m' \<and> circleq_is m' h (as @ x # y # bs) \<and>
    circleq_frame h (insert x (set (as @ y # bs))) m m'"
proof -
  obtain n p where x': "circleq_fwd m (Next x) = Some n" "circleq_bwd m (Next x) = Some p" "x \<noteq> h" "x \<noteq> y"
    using circleq_is_head [OF l] x(2) by (metis circleq_aliveE [OF x(1)] in_set_conv_decomp)
  have f: "circleq_fwd m (lastc (First h) as) = Some y" "lastc (First h) (rev (y # bs)) = Next y"
    using l by (cases rule: circleq_is_next; simp)+
  let ?p = "if as = [] then h else last as"
  let ?m = "circleq_upd_bwd (circleq_upd_fwd (circleq_upd_bwd (circleq_upd_fwd m (Next x) y) (Next x) ?p) (lastc (First h) as) x) (Next y) x"
  from l have "CIRCLEQ_INSERT_BEFORE m h y x = Some ?m \<and> circleq_is ?m h (as @ x # y # bs) \<and>
      circleq_frame h (insert x (set (as @ y # bs))) m ?m"
  proof (cases rule: circleq_is_prev)
    case 1
    then show ?thesis using x x' f
      by (intro conjI [OF _ circleq_insert_is [OF l _ _ refl refl]]) (simp_all add: CIRCLEQ_INSERT_BEFORE_def circleq_exec)
  next
    case (2 z zs)
    then show ?thesis using x x' f
      by (intro conjI [OF _ circleq_insert_is [OF l _ _ refl refl]]) (simp_all add: CIRCLEQ_INSERT_BEFORE_def circleq_exec)
  qed
  then show ?thesis by auto
qed

lemma CIRCLEQ_INSERT_AFTER_is:
  assumes l: "circleq_is m h (as @ y # bs)" and x: "circleq_alive m x" "x \<notin> set (as @ y # bs)"
  shows "\<exists>m'. CIRCLEQ_INSERT_AFTER m h y x = Some m' \<and> circleq_is m' h (as @ y # x # bs) \<and>
    circleq_frame h (insert x (set (as @ y # bs))) m m'"
proof -
  have l': "circleq_is m h ((as @ [y]) @ bs)" using l by simp
  obtain n p where x': "circleq_fwd m (Next x) = Some n" "circleq_bwd m (Next x) = Some p" "x \<noteq> h" "x \<noteq> y"
    using circleq_is_head [OF l] x(2) by (metis circleq_aliveE [OF x(1)] in_set_conv_decomp)
  have b: "circleq_bwd m (lastc (First h) (rev bs)) = Some y" using l' by (cases rule: circleq_is_prev) simp_all
  let ?n = "case bs of [] \<Rightarrow> h | z # _ \<Rightarrow> z"
  let ?m = "circleq_upd_fwd (circleq_upd_bwd (circleq_upd_bwd (circleq_upd_fwd m (Next x) ?n) (Next x) y) (lastc (First h) (rev bs)) x) (Next y) x"
  from l' have "CIRCLEQ_INSERT_AFTER m h y x = Some ?m \<and> circleq_is ?m h ((as @ [y]) @ x # bs) \<and>
      circleq_frame h (insert x (set ((as @ [y]) @ bs))) m ?m"
  proof (cases rule: circleq_is_next)
    case 1
    then show ?thesis using x x' b
      by (intro conjI [OF _ circleq_insert_is [OF l' _ _ refl refl]]) (simp_all add: CIRCLEQ_INSERT_AFTER_def circleq_exec)
  next
    case (2 z zs)
    then show ?thesis using x x' b
      by (intro conjI [OF _ circleq_insert_is [OF l' _ _ refl refl]]) (simp_all add: CIRCLEQ_INSERT_AFTER_def circleq_exec)
  qed
  then show ?thesis by auto
qed

lemma CIRCLEQ_REMOVE_is:
  assumes l: "circleq_is m h (as @ x # bs)"
  shows "\<exists>m'. CIRCLEQ_REMOVE m h x = Some m' \<and> circleq_is m' h (as @ bs) \<and> circleq_frame h (set (as @ x # bs)) m m'"
proof -
  let ?c = "lastc (First h) as" and ?d = "lastc (First h) (rev bs)"
  have l': "circleq_is m h ((as @ [x]) @ bs)" and d: "distinct (as @ x # bs)" using l circleq_is_distinct [OF l] by auto
  have c: "circleq_fwd m ?c = Some x" "lastc (First h) (rev (x # bs)) = Next x" using l by (cases rule: circleq_is_next; simp)+
  have e: "circleq_bwd m ?d = Some x" using l' by (cases rule: circleq_is_prev) simp_all
  let ?n = "case bs of [] \<Rightarrow> h | z # _ \<Rightarrow> z" and ?p = "if as = [] then h else last as"
  have f: "circleq_fwd m (Next x) = Some ?n" "bs = [] \<Longrightarrow> ?d = First h" "bs \<noteq> [] \<Longrightarrow> ?n \<noteq> h \<and> ?d = Next ?n"
    using l' by (cases rule: circleq_is_next; simp)+
  have g: "circleq_bwd m (Next x) = Some ?p" "as = [] \<Longrightarrow> ?c = First h" "as \<noteq> [] \<Longrightarrow> ?p \<noteq> h \<and> ?c = Next ?p"
    using l c(2) by (cases rule: circleq_is_prev; simp)+
  have ne: "?c \<noteq> Next x" "?d \<noteq> Next x" using d by (auto simp: lastc_last last_rev)
  let ?m = "circleq_upd_fwd (circleq_upd_bwd m ?d ?p) ?c ?n"
  have "CIRCLEQ_REMOVE m h x = Some ?m"
    using c e f g ne by (cases "as = []"; cases "bs = []") (simp_all add: CIRCLEQ_REMOVE_def circleq_exec)
  moreover have "circleq_is ?m h (as @ bs) \<and> circleq_frame h (set (as @ x # bs)) m ?m"
    by (rule circleq_remove_is [OF l refl refl]) (use c e f(1) g(1) in \<open>simp_all add: circleq_exec\<close>)
  ultimately show ?thesis by blast
qed

lemma CIRCLEQ_INIT_initializer:
  assumes "h \<noteq> NULL" and "cq_heads m h \<noteq> None"
  shows "CIRCLEQ_INIT m h = Some (m\<lparr>cq_heads := (cq_heads m)(h \<mapsto> CIRCLEQ_HEAD_INITIALIZER h)\<rparr>)"
  using assms by (cases "the (cq_heads m h)") (auto simp: CIRCLEQ_INIT_def circleq_set_fwd_def circleq_set_bwd_def deref_def change_def
      CIRCLEQ_HEAD_INITIALIZER_def circleq_fwd.simps circleq_bwd.simps circleq_upd_fwd.simps circleq_upd_bwd.simps)

lemma CIRCLEQ_INIT_is:
  assumes "circleq_fwd m (First h) \<noteq> None"
  shows "\<exists>m'. CIRCLEQ_INIT m h = Some m' \<and> circleq_is m' h [] \<and> circleq_frame h {} m m'"
  using assms circleq_live [of m "First h"] by (auto simp: CIRCLEQ_INIT_def circleq_exec circleq_is_def circleq_frame_def)

lemma CIRCLEQ_EMPTY_is: "circleq_is m h ps \<Longrightarrow> CIRCLEQ_EMPTY m h = Some (ps = [])"
  by (cases ps) (auto simp: CIRCLEQ_EMPTY_def CIRCLEQ_FIRST_def circleq_is_def)

lemma CIRCLEQ_walk: "circleq_is m h ps \<Longrightarrow> \<exists>p. CIRCLEQ_FIRST m h = Some p \<and> walk (CIRCLEQ_NEXT m) h p ps"
  using run_walk [of "circleq_fwd m" h "First h" ps]
  by (simp add: circleq_is_def CIRCLEQ_FIRST_def CIRCLEQ_NEXT_def [abs_def])

lemma CIRCLEQ_walk_reverse:
  "circleq_is m h ps \<Longrightarrow> \<exists>p. CIRCLEQ_LAST m h = Some p \<and> walk (CIRCLEQ_PREV m) h p (rev ps)"
  using run_walk [of "circleq_bwd m" h "First h" "rev ps"]
  by (simp add: circleq_is_def CIRCLEQ_LAST_def CIRCLEQ_PREV_def [abs_def])

text \<open>Going round: the next element of the rotated list, and back.\<close>

lemma CIRCLEQ_LOOP_NEXT_is:
  assumes l: "circleq_is m h (as @ x # bs)"
  shows "CIRCLEQ_LOOP_NEXT m h x = Some (hd (bs @ as @ [x]))"
proof -
  have l': "circleq_is m h ((as @ [x]) @ bs)" using l by simp
  have "circleq_fwd m (First h) = Some (hd (as @ [x]))" using l by (cases as) (auto simp: circleq_is_def)
  with l' show ?thesis by (cases rule: circleq_is_next) (simp_all add: CIRCLEQ_LOOP_NEXT_def)
qed

lemma CIRCLEQ_LOOP_PREV_is:
  assumes l: "circleq_is m h (as @ x # bs)"
  shows "CIRCLEQ_LOOP_PREV m h x = Some (last (x # bs @ as))"
proof -
  have "circleq_bwd m (First h) = Some (last (x # bs))"
    using l by (cases bs rule: rev_cases) (auto simp: circleq_is_def)
  moreover have "lastc (First h) (rev (x # bs)) = Next x" using l by (cases rule: circleq_is_next) simp_all
  moreover from l have "circleq_bwd m (lastc (First h) (rev (x # bs))) = Some (if as = [] then h else last as)"
      "as \<noteq> [] \<Longrightarrow> last as \<noteq> h"
    by (cases rule: circleq_is_prev; simp)+
  ultimately show ?thesis by (simp add: CIRCLEQ_LOOP_PREV_def)
qed

section \<open>The contract\<close>

fun circleq_run :: "'e circleq_mem \<Rightarrow> ptr \<Rightarrow> qop \<Rightarrow> 'e circleq_mem prog" where
  "circleq_run m h (Insert_Head x) = of_option (CIRCLEQ_INSERT_HEAD m h x)"
| "circleq_run m h (Insert_Tail x) = of_option (CIRCLEQ_INSERT_TAIL m h x)"
| "circleq_run m h (Insert_Before y x) = of_option (CIRCLEQ_INSERT_BEFORE m h y x)"
| "circleq_run m h (Insert_After y x) = of_option (CIRCLEQ_INSERT_AFTER m h y x)"
| "circleq_run m h (Remove y) = of_option (CIRCLEQ_REMOVE m h y)"
| "circleq_run m h _ = Some Undefined"

fun circleq_supports :: "qop \<Rightarrow> bool" where
  "circleq_supports Remove_Head \<longleftrightarrow> False"
| "circleq_supports (Remove_After y) \<longleftrightarrow> False"
| "circleq_supports (Remove_Head_Until y) \<longleftrightarrow> False"
| "circleq_supports (Replace y x) \<longleftrightarrow> False"
| "circleq_supports _ \<longleftrightarrow> True"

lemma circleq_run_is:
  assumes l: "circleq_is m h ps" and s: "circleq_supports op" and n: "list_all (circleq_alive m) (new_elem op)"
    and f: "set (new_elem op) \<inter> set ps = {}" and ps': "spec_op op ps = Some ps'"
  shows "\<exists>m'. circleq_run m h op = ret m' \<and> circleq_is m' h ps' \<and> circleq_frame h (set ps \<union> set (new_elem op)) m m'"
proof -
  have split: "circleq_is m h (before y ps @ y # beyond y ps)" "set (before y ps @ y # beyond y ps) = set ps"
    if "y \<in> set ps" for y
    using l split_before [OF that] by simp_all
  show ?thesis
  proof (cases op)
    case (Insert_Head x)
    then show ?thesis using of_option_ex [OF CIRCLEQ_INSERT_HEAD_is [OF l, of x]] n f ps' by simp
  next
    case (Insert_Tail x)
    then show ?thesis using of_option_ex [OF CIRCLEQ_INSERT_TAIL_is [OF l, of x]] n f ps' by simp
  next
    case (Insert_Before y x)
    then have y: "y \<in> set ps" using ps' by (simp split: if_splits)
    show ?thesis
      using of_option_ex [OF CIRCLEQ_INSERT_BEFORE_is [OF split(1) [OF y], of x, unfolded split(2) [OF y]]] y n f ps' Insert_Before by simp
  next
    case (Insert_After y x)
    then have y: "y \<in> set ps" using ps' by (simp split: if_splits)
    show ?thesis
      using of_option_ex [OF CIRCLEQ_INSERT_AFTER_is [OF split(1) [OF y], of x, unfolded split(2) [OF y]]] y n f ps' Insert_After by simp
  next
    case (Remove y)
    then have y: "y \<in> set ps" using ps' by (simp split: if_splits)
    show ?thesis using of_option_ex [OF CIRCLEQ_REMOVE_is [OF split(1) [OF y], unfolded split(2) [OF y]]] y ps' Remove by simp
  qed (use s in simp_all)
qed

interpretation circleq_lists: shared_macros circleq_is circleq_alive circleq_run circleq_supports
proof unfold_locales
  show "\<exists>m'. circleq_run m h op = ret m' \<and> circleq_is m' h ps' \<and> circleq_alive m' = circleq_alive m"
    if "circleq_is m h ps" "circleq_supports op" "list_all (circleq_alive m) (new_elem op)"
      "set (new_elem op) \<inter> set ps = {}" "spec_op op ps = Some ps'" for m :: "'e circleq_mem" and h ps op ps'
    using circleq_run_is [OF that] by (auto simp: circleq_frame_def)
  show "circleq_is m' k qs"
    if "circleq_is m h ps" "circleq_supports op" "list_all (circleq_alive m) (new_elem op)"
      "set (new_elem op) \<inter> set ps = {}" "spec_op op ps = Some ps'" "circleq_run m h op = ret m'"
      "circleq_is m k qs" "k \<noteq> h" "set qs \<inter> (set ps \<union> set (new_elem op)) = {}"
    for m m' :: "'e circleq_mem" and h k ps qs op ps'
    using circleq_run_is [OF that(1-5)] that(6) circleq_frame_other [OF _ that(7-9)] by auto
qed

end
