(* ===== verification/Queue_Claims.thy ===== *)
theory Queue_Claims
  imports Queue_List Queue_Stailq Queue_Types Queue_Circleq Slist
begin

text \<open>
  The properties of the list macros of \<open>src/server/queue.h\<close>: each kind refines lists, several of
  them in one memory, and the two-list operations and traversals do what they say.
\<close>

section \<open>Refinement of lists\<close>

text \<open>
  (C26) The tail queue macros implement lists. In a memory that holds any number of tail queues, every sequence of
  insertions (head, tail, before, after), removals and replacements on any of them that
  makes sense on lists (the named elements are in that list, an added element is live and in
  none) runs without using an invalid pointer, and the memory then holds
  exactly the resulting lists: in both directions, with the right \<open>tqh_last\<close>, the other
  queues untouched.
\<close>

theorem tailq_refines:
  assumes "holds_queues tailq_is m Q" and "spec_steps (tailq_alive m) tailq_supports Q as = Some Q'"
  shows "\<exists>m'. exec_steps tailq_run m as = ret m' \<and> holds_queues tailq_is m' Q' \<and> tailq_alive m' = tailq_alive m"
  by (rule tailq_lists.steps_refine [OF assms])

lemma two_queues_hold: "holds_queues tailq_is two_queues [(100, [1, 2]), (200, [])]"
  by (simp add: holds_queues_def tailq_is_def two_queues_def tailq_load.simps tailq_back.simps deref_def)

theorem tailq_refines_witness:
  "\<exists>m'. exec_steps tailq_run two_queues [(100, Insert_Tail 3), (100, Remove 1), (200, Insert_Head 1), (100, Remove 2)] = ret m' \<and>
     holds_queues tailq_is m' [(100, [3]), (200, [1])]"
proof -
  have "spec_steps (tailq_alive two_queues) tailq_supports [(100, [1, 2]), (200, [])]
      [(100, Insert_Tail 3), (100, Remove 1), (200, Insert_Head 1), (100, Remove 2)] = Some [(100, [3]), (200, [1])]"
    by (simp add: spec_step_def update_queue_def before_def beyond_def tailq_alive_def deref_def two_queues_def)
  from tailq_refines [OF two_queues_hold this] show ?thesis by blast
qed

text \<open>
  (C40) The singly-linked tail queue macros implement lists, in the same sense: insertions at the head,
  at the tail and after an element, and every form of removal, including the search of
  \<open>STAILQ_REMOVE\<close>, which ends; \<open>stqh_last\<close> stays the address of the last link.
\<close>

theorem stailq_refines:
  assumes "holds_queues stailq_is m Q" and "spec_steps (stailq_alive m) stailq_supports Q as = Some Q'"
  shows "\<exists>m'. exec_steps stailq_run m as = ret m' \<and> holds_queues stailq_is m' Q' \<and> stailq_alive m' = stailq_alive m"
  by (rule stailq_lists.steps_refine [OF assms])

definition two_stailqs :: "nat stailq_mem" where
  "two_stailqs = \<lparr>
     stq_heads = [100 \<mapsto> \<lparr>stqh_first = 1, stqh_last = Next 2\<rparr>, 200 \<mapsto> \<lparr>stqh_first = NULL, stqh_last = First 200\<rparr>],
     stq_elems = [1 \<mapsto> \<lparr>stqe_next = 2, stq_data = 10\<rparr>, 2 \<mapsto> \<lparr>stqe_next = NULL, stq_data = 20\<rparr>,
       3 \<mapsto> \<lparr>stqe_next = 7, stq_data = 30\<rparr>]\<rparr>"

lemma two_stailqs_hold: "holds_queues stailq_is two_stailqs [(100, [1, 2]), (200, [])]"
  by (simp add: holds_queues_def stailq_is_def two_stailqs_def stailq_load.simps stqh_last_of_def deref_def)

theorem stailq_refines_witness:
  "\<exists>m'. exec_steps stailq_run two_stailqs [(100, Insert_Tail 3), (100, Remove 2), (100, Remove_Head), (200, Insert_Head 2)] = ret m' \<and>
     holds_queues stailq_is m' [(100, [3]), (200, [2])]"
proof -
  have "spec_steps (stailq_alive two_stailqs) stailq_supports [(100, [1, 2]), (200, [])]
      [(100, Insert_Tail 3), (100, Remove 2), (100, Remove_Head), (200, Insert_Head 2)] = Some [(100, [3]), (200, [2])]"
    by (simp add: spec_step_def update_queue_def before_def beyond_def stailq_alive_def deref_def two_stailqs_def)
  from stailq_refines [OF two_stailqs_hold this] show ?thesis by blast
qed

text \<open>
  The doubly-linked list macros implement lists, in the same sense: insertions at the head, before
  and after an element, removals and replacements, none of which but the first names the head.
\<close>

theorem list_refines:
  assumes "holds_queues list_is m Q" and "spec_steps (list_alive m) list_supports Q as = Some Q'"
  shows "\<exists>m'. exec_steps list_run m as = ret m' \<and> holds_queues list_is m' Q' \<and> list_alive m' = list_alive m"
  by (rule list_lists.steps_refine [OF assms])

definition two_lists :: "nat list_mem" where
  "two_lists = \<lparr>
     l_heads = [100 \<mapsto> \<lparr>lh_first = 1\<rparr>, 200 \<mapsto> \<lparr>lh_first = NULL\<rparr>],
     l_elems = [1 \<mapsto> \<lparr>le_next = 2, le_prev = First 100, le_data = 10\<rparr>,
       2 \<mapsto> \<lparr>le_next = NULL, le_prev = Next 1, le_data = 20\<rparr>,
       3 \<mapsto> \<lparr>le_next = 7, le_prev = Next 8, le_data = 30\<rparr>]\<rparr>"

lemma two_lists_hold: "holds_queues list_is two_lists [(100, [1, 2]), (200, [])]"
  by (simp add: holds_queues_def list_is_def two_lists_def list_load.simps le_prev_of_def deref_def)

theorem list_refines_witness:
  "\<exists>m'. exec_steps list_run two_lists [(100, Replace 1 3), (200, Insert_Head 1), (100, Remove 2)] = ret m' \<and>
     holds_queues list_is m' [(100, [3]), (200, [1])]"
proof -
  have "spec_steps (list_alive two_lists) list_supports [(100, [1, 2]), (200, [])]
      [(100, Replace 1 3), (200, Insert_Head 1), (100, Remove 2)] = Some [(100, [3]), (200, [1])]"
    by (simp add: spec_step_def update_queue_def before_def beyond_def list_alive_def deref_def two_lists_def)
  from list_refines [OF two_lists_hold this] show ?thesis by blast
qed

text \<open>
  The circular queue macros implement lists, in the same sense and in both directions, with the address
  of the head as the end mark.
\<close>

theorem circleq_refines:
  assumes "holds_queues circleq_is m Q" and "spec_steps (circleq_alive m) circleq_supports Q as = Some Q'"
  shows "\<exists>m'. exec_steps circleq_run m as = ret m' \<and> holds_queues circleq_is m' Q' \<and> circleq_alive m' = circleq_alive m"
  by (rule circleq_lists.steps_refine [OF assms])

definition two_circleqs :: "nat circleq_mem" where
  "two_circleqs = \<lparr>
     cq_heads = [100 \<mapsto> \<lparr>cqh_first = 1, cqh_last = 2\<rparr>, 200 \<mapsto> \<lparr>cqh_first = 200, cqh_last = 200\<rparr>],
     cq_elems = [1 \<mapsto> \<lparr>cqe_next = 2, cqe_prev = 100, cq_data = 10\<rparr>,
       2 \<mapsto> \<lparr>cqe_next = 100, cqe_prev = 1, cq_data = 20\<rparr>,
       3 \<mapsto> \<lparr>cqe_next = 7, cqe_prev = 8, cq_data = 30\<rparr>]\<rparr>"

lemma two_circleqs_hold: "holds_queues circleq_is two_circleqs [(100, [1, 2]), (200, [])]"
  by (simp add: holds_queues_def circleq_is_def two_circleqs_def circleq_fwd.simps circleq_bwd.simps deref_def)

theorem circleq_refines_witness:
  "\<exists>m'. exec_steps circleq_run two_circleqs [(100, Insert_Before 2 3), (100, Remove 1), (200, Insert_Tail 1)] = ret m' \<and>
     holds_queues circleq_is m' [(100, [3, 2]), (200, [1])]"
proof -
  have "spec_steps (circleq_alive two_circleqs) circleq_supports [(100, [1, 2]), (200, [])]
      [(100, Insert_Before 2 3), (100, Remove 1), (200, Insert_Tail 1)] = Some [(100, [3, 2]), (200, [1])]"
    by (simp add: spec_step_def update_queue_def before_def beyond_def circleq_alive_def deref_def two_circleqs_def)
  from circleq_refines [OF two_circleqs_hold this] show ?thesis by blast
qed

text \<open>
  (C25) The singly-linked list macros, which the server uses, implement lists: every sequence of
  insertions at the head and after an element and of removals that makes sense on the list
  runs without using an invalid pointer and leaves the resulting list.
\<close>

theorem slist_refines:
  assumes "slist_is l ps" and "spec_steps (slist_alive l) slist_supports [(h, ps)] (map (Pair h) ops) = Some Q"
  shows "\<exists>l' ps'. Q = [(h, ps')] \<and> exec_steps slist_run l (map (Pair h) ops) = ret l' \<and> slist_is l' ps' \<and>
    slist_alive l' = slist_alive l"
  by (rule slist_lists.one_list_refines [OF assms])

theorem slist_refines_witness:
  "\<exists>l'. exec_steps slist_run two_elems [(0, Insert_After 1 3), (0, Remove 2), (0, Remove_Head)] = ret l' \<and> slist_is l' [3]"
proof -
  have "spec_steps (slist_alive two_elems) slist_supports [(0, [1, 2])] (map (Pair 0) [Insert_After 1 3, Remove 2, Remove_Head]) =
      Some [(0, [3])]"
    by (simp add: spec_step_def update_queue_def before_def beyond_def slist_alive_def elem_at_def two_elems_def)
  from slist_refines [OF two_elems_is this] show ?thesis by auto
qed

section \<open>Operations on two queues\<close>

text \<open>
  Joining and swapping queues. \<open>TAILQ_CONCAT\<close> and \<open>STAILQ_CONCAT\<close> append the second queue to the first and leave
  the second empty; the \<open>SWAP\<close> macros of the three kinds exchange the contents of the two heads,
  empty or not, and swapping again restores both lists.
\<close>

theorem concat_swap_correct:
  assumes "holds_queues tailq_is m [(h1, ps), (h2, qs)]" and "holds_queues stailq_is n [(k1, as), (k2, bs)]"
    and "holds_queues list_is l [(g1, xs), (g2, ys)]"
  shows "(\<exists>m'. TAILQ_CONCAT m h1 h2 = Some m' \<and> holds_queues tailq_is m' [(h1, ps @ qs), (h2, [])]) \<and>
    (\<exists>n'. STAILQ_CONCAT n k1 k2 = Some n' \<and> holds_queues stailq_is n' [(k1, as @ bs), (k2, [])]) \<and>
    (\<exists>m' m''. TAILQ_SWAP m h1 h2 = Some m' \<and> holds_queues tailq_is m' [(h1, qs), (h2, ps)] \<and>
       TAILQ_SWAP m' h1 h2 = Some m'' \<and> holds_queues tailq_is m'' [(h1, ps), (h2, qs)]) \<and>
    (\<exists>n' n''. STAILQ_SWAP n k1 k2 = Some n' \<and> holds_queues stailq_is n' [(k1, bs), (k2, as)] \<and>
       STAILQ_SWAP n' k1 k2 = Some n'' \<and> holds_queues stailq_is n'' [(k1, as), (k2, bs)]) \<and>
    (\<exists>l' l''. LIST_SWAP l g1 g2 = Some l' \<and> holds_queues list_is l' [(g1, ys), (g2, xs)] \<and>
       LIST_SWAP l' g1 g2 = Some l'' \<and> holds_queues list_is l'' [(g1, xs), (g2, ys)])"
proof (intro conjI)
  show "\<exists>m'. TAILQ_CONCAT m h1 h2 = Some m' \<and> holds_queues tailq_is m' [(h1, ps @ qs), (h2, [])]"
    using TAILQ_CONCAT_is [OF assms(1)] by blast
  show "\<exists>n'. STAILQ_CONCAT n k1 k2 = Some n' \<and> holds_queues stailq_is n' [(k1, as @ bs), (k2, [])]"
    using STAILQ_CONCAT_is [OF assms(2)] by blast
  show "\<exists>m' m''. TAILQ_SWAP m h1 h2 = Some m' \<and> holds_queues tailq_is m' [(h1, qs), (h2, ps)] \<and>
       TAILQ_SWAP m' h1 h2 = Some m'' \<and> holds_queues tailq_is m'' [(h1, ps), (h2, qs)]"
    using TAILQ_SWAP_is [OF assms(1)] TAILQ_SWAP_is by blast
  show "\<exists>n' n''. STAILQ_SWAP n k1 k2 = Some n' \<and> holds_queues stailq_is n' [(k1, bs), (k2, as)] \<and>
       STAILQ_SWAP n' k1 k2 = Some n'' \<and> holds_queues stailq_is n'' [(k1, as), (k2, bs)]"
    using STAILQ_SWAP_is [OF assms(2)] STAILQ_SWAP_is by blast
  show "\<exists>l' l''. LIST_SWAP l g1 g2 = Some l' \<and> holds_queues list_is l' [(g1, ys), (g2, xs)] \<and>
       LIST_SWAP l' g1 g2 = Some l'' \<and> holds_queues list_is l'' [(g1, xs), (g2, ys)]"
    using LIST_SWAP_is [OF assms(3)] LIST_SWAP_is by blast
qed

theorem concat_swap_correct_witness:
  "(\<exists>m'. TAILQ_CONCAT two_queues 100 200 = Some m' \<and> holds_queues tailq_is m' [(100, [1, 2]), (200, [])]) \<and>
   (\<exists>n' n''. STAILQ_SWAP two_stailqs 100 200 = Some n' \<and> holds_queues stailq_is n' [(100, []), (200, [1, 2])] \<and>
       STAILQ_SWAP n' 100 200 = Some n'' \<and> holds_queues stailq_is n'' [(100, [1, 2]), (200, [])])"
  using concat_swap_correct [OF two_queues_hold two_stailqs_hold two_lists_hold] by simp

section \<open>Traversals\<close>

text \<open>A body that takes the element it is at out of the queue and frees it.\<close>

definition tailq_free :: "'e tailq_mem \<Rightarrow> ptr \<Rightarrow> 'e tailq_mem" where
  "tailq_free m x = m\<lparr>tq_elems := (tq_elems m)(x := None)\<rparr>"

definition unlink_free :: "ptr \<Rightarrow> ptr \<Rightarrow> 'e tailq_mem \<Rightarrow> ptr list \<Rightarrow> ('e tailq_mem \<times> ptr list) prog" where
  "unlink_free h x m freed = seq (of_option (TAILQ_REMOVE m h x)) (\<lambda>m. ret (tailq_free m x, freed @ [x]))"

lemma tailq_free_views:
  "tailq_load (tailq_free m x) = (tailq_load m)(Next x := None)"
  "tailq_back (tailq_free m x) = (tailq_back m)(Next x := None)"
  "tailq_alive (tailq_free m x) = (tailq_alive m)(x := False)"
proof -
  show "tailq_load (tailq_free m x) = (tailq_load m)(Next x := None)"
  proof
    show "tailq_load (tailq_free m x) c = ((tailq_load m)(Next x := None)) c" for c
      by (cases c) (auto simp: tailq_free_def tailq_load.simps deref_def)
  qed
  show "tailq_back (tailq_free m x) = (tailq_back m)(Next x := None)"
  proof
    show "tailq_back (tailq_free m x) c = ((tailq_back m)(Next x := None)) c" for c
      by (cases c) (auto simp: tailq_free_def tailq_back.simps deref_def)
  qed
  show "tailq_alive (tailq_free m x) = (tailq_alive m)(x := False)"
    by (auto simp: tailq_free_def tailq_alive_def deref_def fun_eq_iff)
qed

lemma unlink_free_is:
  assumes l: "tailq_is m h (as @ x # bs)"
  shows "\<exists>m'. unlink_free h x m freed = ret (m', freed @ [x]) \<and> tailq_is m' h (as @ bs) \<and>
    tailq_alive m' = (tailq_alive m)(x := False)"
proof -
  obtain m1 where m1: "TAILQ_REMOVE m h x = Some m1" "tailq_is m1 h (as @ bs)" "tailq_frame h (set (as @ x # bs)) m m1"
    using TAILQ_REMOVE_is [OF l] by blast
  have "x \<notin> set (as @ bs)" using tailq_is_distinct [OF l] by auto
  then have "tailq_is (tailq_free m1 x) h (as @ bs)" using m1(2) by (auto simp: tailq_is_def tailq_free_views)
  then show ?thesis using m1 by (auto simp: unlink_free_def tailq_free_views tailq_frame_def)
qed

lemma teardown_forward:
  assumes "tailq_is m h ps" and "p = (case ps of [] \<Rightarrow> NULL | x # _ \<Rightarrow> x)"
  shows "\<exists>m'. for_safe_loop TAILQ_NEXT NULL (unlink_free h) p m s = ret (m', s @ ps) \<and> tailq_is m' h [] \<and>
    tailq_alive m' = (\<lambda>x. tailq_alive m x \<and> x \<notin> set ps)"
  using assms
proof (induction ps arbitrary: m p s)
  case Nil
  then show ?case by (subst for_safe_loop.simps) simp
next
  case (Cons x xs)
  let ?q = "case xs of [] \<Rightarrow> NULL | y # _ \<Rightarrow> y"
  have x: "p = x" "x \<noteq> NULL" "TAILQ_NEXT m x = Some ?q"
    using Cons.prems by (cases xs; auto simp: tailq_is_def TAILQ_NEXT_def)+
  obtain m1 where m1: "unlink_free h x m s = ret (m1, s @ [x])" "tailq_is m1 h xs" "tailq_alive m1 = (tailq_alive m)(x := False)"
    using unlink_free_is [of m h "[]" x xs] Cons.prems(1) by auto
  obtain m' where m': "for_safe_loop TAILQ_NEXT NULL (unlink_free h) ?q m1 (s @ [x]) = ret (m', (s @ [x]) @ xs)"
      "tailq_is m' h []" "tailq_alive m' = (\<lambda>y. tailq_alive m1 y \<and> y \<notin> set xs)"
    using Cons.IH [OF m1(2) refl] by blast
  have "for_safe_loop TAILQ_NEXT NULL (unlink_free h) p m s = for_safe_loop TAILQ_NEXT NULL (unlink_free h) ?q m1 (s @ [x])"
    using x m1(1) by (subst for_safe_loop.simps) (simp add: ret_def)
  then show ?case using m' m1(3) by (auto simp: fun_eq_iff)
qed

lemma teardown_reverse:
  assumes "tailq_is m h ps" and "p = (if ps = [] then NULL else last ps)"
  shows "\<exists>m'. for_safe_loop TAILQ_PREV NULL (unlink_free h) p m s = ret (m', s @ rev ps) \<and> tailq_is m' h [] \<and>
    tailq_alive m' = (\<lambda>x. tailq_alive m x \<and> x \<notin> set ps)"
  using assms
proof (induction ps arbitrary: m p s rule: rev_induct)
  case Nil
  then show ?case by (subst for_safe_loop.simps) simp
next
  case (snoc x xs)
  let ?q = "if xs = [] then NULL else last xs"
  have l: "tailq_is m h (xs @ x # [])" using snoc.prems(1) .
  have x: "p = x" "x \<noteq> NULL" "TAILQ_PREV m x = Some ?q"
    using snoc.prems(2) l TAILQ_PREV_is [OF l] run_fin [of "tailq_load m" NULL "First h" "xs @ [x]"] by (auto simp: tailq_is_def)
  obtain m1 where m1: "unlink_free h x m s = ret (m1, s @ [x])" "tailq_is m1 h xs" "tailq_alive m1 = (tailq_alive m)(x := False)"
    using unlink_free_is [OF l, of s] by auto
  obtain m' where m': "for_safe_loop TAILQ_PREV NULL (unlink_free h) ?q m1 (s @ [x]) = ret (m', (s @ [x]) @ rev xs)"
      "tailq_is m' h []" "tailq_alive m' = (\<lambda>y. tailq_alive m1 y \<and> y \<notin> set xs)"
    using snoc.IH [OF m1(2) refl] by blast
  have "for_safe_loop TAILQ_PREV NULL (unlink_free h) p m s = for_safe_loop TAILQ_PREV NULL (unlink_free h) ?q m1 (s @ [x])"
    using x m1(1) by (subst for_safe_loop.simps) (simp add: ret_def)
  then show ?case using m' m1(3) by (auto simp: fun_eq_iff)
qed

text \<open>
  (C36) Traversing a tail queue. \<open>TAILQ_FOREACH\<close> visits the elements in order and \<open>TAILQ_FOREACH_REVERSE\<close> in reverse; the
  safe variants, whose body takes each element out and frees it, empty the queue in
  that order, freeing exactly its elements.
\<close>

theorem tailq_traversals:
  assumes l: "tailq_is m h ps"
  shows "TAILQ_FOREACH (\<lambda>p m s. ret (m, s @ [p])) h m [] = ret (m, ps) \<and>
    TAILQ_FOREACH_REVERSE (\<lambda>p m s. ret (m, s @ [p])) h m [] = ret (m, rev ps) \<and>
    (\<exists>m'. TAILQ_FOREACH_SAFE (unlink_free h) h m [] = ret (m', ps) \<and> tailq_is m' h [] \<and>
       tailq_alive m' = (\<lambda>x. tailq_alive m x \<and> x \<notin> set ps)) \<and>
    (\<exists>m'. TAILQ_FOREACH_REVERSE_SAFE (unlink_free h) h m [] = ret (m', rev ps) \<and> tailq_is m' h [] \<and>
       tailq_alive m' = (\<lambda>x. tailq_alive m x \<and> x \<notin> set ps))"
proof (intro conjI)
  obtain p where p: "TAILQ_FIRST m h = Some p" "walk (TAILQ_NEXT m) NULL p ps" using TAILQ_walk [OF l] by blast
  let ?q = "if ps = [] then NULL else last ps"
  note lst = TAILQ_LAST_is [OF l]
  have w: "walk (TAILQ_PREV m) NULL ?q (rev ps)" using TAILQ_walk_reverse [of m h ps "[]"] l by simp
  show "TAILQ_FOREACH (\<lambda>p m s. ret (m, s @ [p])) h m [] = ret (m, ps)"
    using p for_loop_visits [where nxt = TAILQ_NEXT and m = m, OF p(2), of "\<lambda>p m s. ret (m, s @ [p])" "\<lambda>p s. s @ [p]"]
    by (simp add: TAILQ_FOREACH_def TAILQ_FIRST_def fold_collect)
  show "TAILQ_FOREACH_REVERSE (\<lambda>p m s. ret (m, s @ [p])) h m [] = ret (m, rev ps)"
    using lst for_loop_visits [where nxt = TAILQ_PREV and m = m, OF w, of "\<lambda>p m s. ret (m, s @ [p])" "\<lambda>p s. s @ [p]"]
    by (simp add: TAILQ_FOREACH_REVERSE_def fold_collect)
  have "p = (case ps of [] \<Rightarrow> NULL | x # _ \<Rightarrow> x)" using p(2) by (cases ps) auto
  from teardown_forward [OF l this, of "[]"] p(1)
  show "\<exists>m'. TAILQ_FOREACH_SAFE (unlink_free h) h m [] = ret (m', ps) \<and> tailq_is m' h [] \<and>
       tailq_alive m' = (\<lambda>x. tailq_alive m x \<and> x \<notin> set ps)"
    by (simp add: TAILQ_FOREACH_SAFE_def TAILQ_FIRST_def)
  from teardown_reverse [OF l refl, of "[]"] lst
  show "\<exists>m'. TAILQ_FOREACH_REVERSE_SAFE (unlink_free h) h m [] = ret (m', rev ps) \<and> tailq_is m' h [] \<and>
       tailq_alive m' = (\<lambda>x. tailq_alive m x \<and> x \<notin> set ps)"
    by (simp add: TAILQ_FOREACH_REVERSE_SAFE_def)
qed

lemma two_queues_is: "tailq_is two_queues 100 [1, 2]"
  using two_queues_hold by (simp add: holds_queues_def)

theorem tailq_traversals_witness:
  "TAILQ_FOREACH (\<lambda>p m s. ret (m, s @ [p])) 100 two_queues [] = ret (two_queues, [1, 2]) \<and>
   TAILQ_FOREACH_REVERSE (\<lambda>p m s. ret (m, s @ [p])) 100 two_queues [] = ret (two_queues, [2, 1]) \<and>
   (\<exists>m'. TAILQ_FOREACH_REVERSE_SAFE (unlink_free 100) 100 two_queues [] = ret (m', [2, 1]) \<and> tailq_is m' 100 [])"
  using tailq_traversals [OF two_queues_is] by auto

lemma circleq_loop_next_nth:
  assumes l: "circleq_is m h ps" and i: "i < length ps"
  shows "CIRCLEQ_LOOP_NEXT m h (ps ! i) = Some (ps ! (Suc i mod length ps))"
proof -
  have "circleq_is m h (take i ps @ ps ! i # drop (Suc i) ps)" using l i by (simp add: id_take_nth_drop [symmetric])
  from CIRCLEQ_LOOP_NEXT_is [OF this] have "CIRCLEQ_LOOP_NEXT m h (ps ! i) = Some (hd (drop (Suc i) ps @ take (Suc i) ps))"
    using i by (simp add: take_Suc_conv_app_nth)
  moreover have "hd (drop (Suc i) ps @ take (Suc i) ps) = ps ! (Suc i mod length ps)"
  proof (cases "Suc i < length ps")
    case True
    then show ?thesis by (simp add: hd_append hd_drop_conv_nth)
  next
    case False
    then have "Suc i = length ps" using i by simp
    then show ?thesis using i by (cases ps) simp_all
  qed
  ultimately show ?thesis by simp
qed

lemma circleq_loop_prev_nth:
  assumes l: "circleq_is m h ps" and i: "i < length ps"
  shows "CIRCLEQ_LOOP_PREV m h (ps ! (Suc i mod length ps)) = Some (ps ! i)"
proof -
  define j where "j = Suc i mod length ps"
  have j: "j < length ps" unfolding j_def using i by (intro mod_less_divisor) linarith
  then have "circleq_is m h (take j ps @ ps ! j # drop (Suc j) ps)" using l by (simp add: id_take_nth_drop [symmetric])
  from CIRCLEQ_LOOP_PREV_is [OF this]
  have "CIRCLEQ_LOOP_PREV m h (ps ! j) = Some (last (drop j ps @ take j ps))" using j by (simp add: Cons_nth_drop_Suc [symmetric])
  moreover have "last (drop j ps @ take j ps) = ps ! i"
  proof (cases "Suc i < length ps")
    case True
    then have "j = Suc i" by (simp add: j_def)
    then show ?thesis using True by (simp add: take_Suc_conv_app_nth)
  next
    case False
    then have "length ps = Suc i" using i by simp
    moreover from this have "j = 0" by (simp add: j_def)
    ultimately show ?thesis using last_conv_nth [of ps] by fastforce
  qed
  ultimately show ?thesis by (simp add: j_def)
qed

text \<open>
  Going round a circular queue: from an element of the queue, \<open>CIRCLEQ_LOOP_NEXT\<close> gives the next element, the first
  after the last, and \<open>CIRCLEQ_LOOP_PREV\<close> from there leads back; and the traversals visit the
  queue in order and in reverse.
\<close>

theorem circleq_round_trip:
  assumes l: "circleq_is m h ps"
  shows "(\<forall>i < length ps. CIRCLEQ_LOOP_NEXT m h (ps ! i) = Some (ps ! (Suc i mod length ps)) \<and>
      CIRCLEQ_LOOP_PREV m h (ps ! (Suc i mod length ps)) = Some (ps ! i)) \<and>
    CIRCLEQ_FOREACH (\<lambda>p m s. ret (m, s @ [p])) h m [] = ret (m, ps) \<and>
    CIRCLEQ_FOREACH_REVERSE (\<lambda>p m s. ret (m, s @ [p])) h m [] = ret (m, rev ps)"
proof (intro conjI)
  show "\<forall>i < length ps. CIRCLEQ_LOOP_NEXT m h (ps ! i) = Some (ps ! (Suc i mod length ps)) \<and>
      CIRCLEQ_LOOP_PREV m h (ps ! (Suc i mod length ps)) = Some (ps ! i)"
    using circleq_loop_next_nth [OF l] circleq_loop_prev_nth [OF l] by simp
  obtain p where p: "CIRCLEQ_FIRST m h = Some p" "walk (CIRCLEQ_NEXT m) h p ps" using CIRCLEQ_walk [OF l] by blast
  show "CIRCLEQ_FOREACH (\<lambda>p m s. ret (m, s @ [p])) h m [] = ret (m, ps)"
    using p for_loop_visits [where nxt = CIRCLEQ_NEXT and m = m, OF p(2), of "\<lambda>p m s. ret (m, s @ [p])" "\<lambda>p s. s @ [p]"]
    by (simp add: CIRCLEQ_FOREACH_def fold_collect)
  obtain q where q: "CIRCLEQ_LAST m h = Some q" "walk (CIRCLEQ_PREV m) h q (rev ps)" using CIRCLEQ_walk_reverse [OF l] by blast
  show "CIRCLEQ_FOREACH_REVERSE (\<lambda>p m s. ret (m, s @ [p])) h m [] = ret (m, rev ps)"
    using q for_loop_visits [where nxt = CIRCLEQ_PREV and m = m, OF q(2), of "\<lambda>p m s. ret (m, s @ [p])" "\<lambda>p s. s @ [p]"]
    by (simp add: CIRCLEQ_FOREACH_REVERSE_def fold_collect)
qed

lemma two_circleqs_is: "circleq_is two_circleqs 100 [1, 2]"
  using two_circleqs_hold by (simp add: holds_queues_def)

theorem circleq_round_trip_witness:
  "CIRCLEQ_LOOP_NEXT two_circleqs 100 2 = Some 1 \<and> CIRCLEQ_LOOP_PREV two_circleqs 100 1 = Some 2 \<and>
   CIRCLEQ_FOREACH_REVERSE (\<lambda>p m s. ret (m, s @ [p])) 100 two_circleqs [] = ret (two_circleqs, [2, 1])"
  using circleq_round_trip [OF two_circleqs_is] by (auto dest: spec [of _ 1])

end
