(* ===== verification/Aesdsocket_Old.thy ===== *)
theory Aesdsocket_Old
  imports Aesdsocket Server_Receive
begin

text \<open>
  The earlier, single-threaded server, \<open>src/server/aesdsocket_old.c\<close>: its start-up with the table of
  open descriptors, which \<open>daemonize\<close> empties, and the handling of one connection.
\<close>

section \<open>Start-up\<close>

text \<open>What a descriptor refers to.\<close>

datatype fd_kind = Stdio | Listener | Dev_null

type_synonym fd_table = "nat \<Rightarrow> fd_kind option"

text \<open>What the system answers. \<open>open_max\<close> is \<open>sysconf(_SC_OPEN_MAX)\<close>.\<close>

record old_net =
  old_socket :: int
  old_bind :: int
  old_fork :: int
  old_setsid :: int
  old_chdir :: int
  open_max :: nat

definition lowest_free :: "fd_table \<Rightarrow> nat" where
  "lowest_free T = (if T 0 = None then 0 else if T 1 = None then 1 else if T 2 = None then 2 else 3)"

definition open_null :: "fd_table \<Rightarrow> fd_table" where
  "open_null T = T(lowest_free T \<mapsto> Dev_null)"

definition close_all :: "nat \<Rightarrow> fd_table \<Rightarrow> fd_table" where
  "close_all n T = (\<lambda>fd. if fd < n then None else T fd)"

text \<open>\<open>Inl\<close> is the exit code of a process that ends.\<close>

definition old_daemonize :: "old_net \<Rightarrow> fd_table \<Rightarrow> int + fd_table" where
  "old_daemonize N T =
     (if old_fork N < 0 then Inl 1
      else if old_fork N > 0 then Inl 0
      else if old_setsid N < 0 then Inl 1
      else if old_chdir N < 0 then Inl 1
      else Inr (open_null (open_null (open_null (close_all (open_max N) T)))))"

text \<open>\<open>listen\<close> works on a descriptor that is a bound socket.\<close>

definition old_listen :: "int \<Rightarrow> fd_table \<Rightarrow> int" where
  "old_listen fd T = (if 0 \<le> fd \<and> T (nat fd) = Some Listener then 0 else -1)"

definition old_startup :: "old_net \<Rightarrow> string list \<Rightarrow> fd_table \<Rightarrow> int + fd_table" where
  "old_startup N argv T =
     (let sockfd = old_socket N in
      if sockfd = -1 then Inl 1
      else
        (let T = T(nat sockfd \<mapsto> Listener) in
         if old_bind N = -1 then Inl 1
         else
           (case (if length argv = 2 \<and> argv ! 1 = ''-d'' then old_daemonize N T else Inr T) of
              Inl c \<Rightarrow> Inl c
            | Inr T \<Rightarrow> if old_listen sockfd T = -1 then Inl 1 else Inr T)))"

text \<open>The signal handler: the descriptor it closes, the file it removes, the exit code.\<close>

definition old_handle_signal :: "int \<Rightarrow> int \<times> string \<times> int" where
  "old_handle_signal sockfd = (sockfd, ''/var/tmp/aesdsocketdata'', 0)"

section \<open>A connection\<close>

text \<open>
  The state: the file system, the data to be received and sent, whether the socket is open,
  how often it was closed, and the descriptors of files that are open.
\<close>

record 'd oconn =
  ofs :: 'd
  orx :: "byte list list"
  otx :: "byte list list"
  osock :: bool
  ocloses :: nat
  ofiles :: "int list"

definition OLD_PATH :: string where
  "OLD_PATH = ''/var/tmp/aesdsocketdata''"

definition close_conn :: "'d oconn \<Rightarrow> 'd oconn" where
  "close_conn c = c\<lparr>osock := False, ocloses := ocloses c + 1\<rparr>"

definition close_file :: "'d file_ops \<Rightarrow> int \<Rightarrow> 'd oconn \<Rightarrow> 'd oconn" where
  "close_file fs fd c = c\<lparr>ofs := fs_close fs (ofs c) fd, ofiles := remove1 fd (ofiles c)\<rparr>"

text \<open>Receiving on a socket that was closed fails.\<close>

definition old_recv :: "'d oconn \<Rightarrow> byte list \<times> 'd oconn" where
  "old_recv c = (if osock c then (case recv (orx c) 1023 of (bs, rest) \<Rightarrow> (bs, c\<lparr>orx := rest\<rparr>)) else ([], c))"

lemma old_recv_length:
  assumes "old_recv c = (bs, c')" and "bs \<noteq> []"
  shows "length (concat (orx c')) < length (concat (orx c))" and "osock c' = osock c" and "osock c"
    and "ofs c' = ofs c" and "ocloses c' = ocloses c" and "ofiles c' = ofiles c" and "otx c' = otx c"
  using assms recv_concat [of "orx c" 1023] by (auto simp: old_recv_def split: if_splits prod.splits)

lemma orx_close [simp]: "orx (close_conn c) = orx c" "orx (close_file fs fd c) = orx c"
  by (simp_all add: close_conn_def close_file_def)

text \<open>
  The inner loop, with the array \<open>buffer\<close> of 1024 bytes. After a failed reopen the code closes
  the socket and goes on with the loop.
\<close>

function old_loop :: "'d file_ops \<Rightarrow> byte list \<Rightarrow> int \<Rightarrow> 'd oconn \<Rightarrow> 'd oconn prog" where
  "old_loop fs buffer file_fd c =
     (case old_recv c of
        (bytes, c') \<Rightarrow>
          if bytes = [] then ret c'
          else if length buffer \<le> length bytes then Some Undefined
          else
            (let buffer = overwrite 0 (bytes @ [0]) buffer in
             case fs_write fs (ofs c') file_fd bytes of
               Undefined \<Rightarrow> Some Undefined
             | Blocked \<Rightarrow> Some Blocked
             | Returned (d, r) \<Rightarrow>
                 (case strchr buffer newline of
                    None \<Rightarrow> Some Undefined
                  | Some False \<Rightarrow> old_loop fs buffer file_fd (c'\<lparr>ofs := d\<rparr>)
                  | Some True \<Rightarrow>
                      (let c'' = close_file fs file_fd (c'\<lparr>ofs := d\<rparr>) in
                       case fs_open fs (ofs c'') OLD_PATH [O_RDONLY] of
                         (d', fd) \<Rightarrow>
                           if fd = -1 then old_loop fs buffer fd (close_conn (c''\<lparr>ofs := d'\<rparr>))
                           else
                             seq (drain_loop fs d' fd 1024 1024 (otx c'')) (\<lambda>(d'', sent).
                               ret (close_file fs fd (c''\<lparr>ofs := d'', otx := sent, ofiles := fd # ofiles c''\<rparr>)))))))"
  by pat_completeness auto
termination
  by (relation "measure (\<lambda>(fs, b, fd, c). length (concat (orx c)))")
    (auto dest!: sym [THEN old_recv_length(1)])

declare old_loop.simps [simp del]

definition old_connection :: "'d file_ops \<Rightarrow> byte list \<Rightarrow> 'd oconn \<Rightarrow> 'd oconn prog" where
  "old_connection fs buffer c =
     (case fs_open fs (ofs c) OLD_PATH [O_CREAT, O_WRONLY, O_APPEND] of
        (d, file_fd) \<Rightarrow>
          if file_fd = -1 then ret (close_conn (c\<lparr>ofs := d\<rparr>))
          else
            seq (old_loop fs buffer file_fd (c\<lparr>ofs := d, ofiles := file_fd # ofiles c\<rparr>)) (\<lambda>c.
              ret (close_conn c)))"

text \<open>
  The accept loop, over the results of \<open>accept\<close> so far: a failure, or a connection with the data it will
  deliver. The contents of \<open>buffer\<close> at the start of a connection do not matter, since every use of it
  follows a \<open>recv\<close> or \<open>read\<close> into it. The result is the file system, the descriptors of
  the data file that are still open, and what was sent on each connection.
\<close>

fun old_serve :: "'d file_ops \<Rightarrow> byte list \<Rightarrow> 'd \<Rightarrow> int list \<Rightarrow> byte list list option list \<Rightarrow> ('d \<times> int list \<times> byte list list list) prog" where
  "old_serve fs buffer d files [] = ret (d, files, [])"
| "old_serve fs buffer d files (None # accepts) = old_serve fs buffer d files accepts"
| "old_serve fs buffer d files (Some data # accepts) =
     seq (old_connection fs buffer \<lparr>ofs = d, orx = data, otx = [], osock = True, ocloses = 0, ofiles = files\<rparr>) (\<lambda>c.
       seq (old_serve fs buffer (ofs c) (ofiles c) accepts) (\<lambda>(d, files, sent). ret (d, files, otx c # sent)))"

section \<open>Facts\<close>

lemma old_recv_bytes:
  assumes "old_recv c = (bs, c')"
  shows "length bs \<le> 1023" and "set bs \<subseteq> set (concat (orx c))" and "set (concat (orx c')) \<subseteq> set (concat (orx c))"
proof -
  have "length bs \<le> 1023 \<and> set bs \<subseteq> set (concat (orx c)) \<and> set (concat (orx c')) \<subseteq> set (concat (orx c))"
  proof (cases "osock c")
    case True
    obtain b rest where r: "recv (orx c) 1023 = (b, rest)" by fastforce
    then have "bs = b" "orx c' = rest" using assms True by (auto simp: old_recv_def)
    then show ?thesis using recv_length [OF r] recv_concat [OF r] by simp
  next
    case False
    then show ?thesis using assms by (auto simp: old_recv_def)
  qed
  then show "length bs \<le> 1023" and "set bs \<subseteq> set (concat (orx c))" and "set (concat (orx c')) \<subseteq> set (concat (orx c))"
    by simp_all
qed

lemma old_recv_empty: "old_recv c = ([], c') \<Longrightarrow> ofiles c' = ofiles c \<and> ocloses c' = ocloses c \<and> otx c' = otx c"
  by (auto simp: old_recv_def split: if_splits prod.splits)

lemma old_loop_no_newline:
  assumes "length buffer = 1024" and "newline \<notin> set (concat (orx c))"
    and writes: "\<And>d fd bs. \<exists>d' r. fs_write fs d fd bs = Returned (d', r)"
  shows "\<exists>c'. old_loop fs buffer fd c = ret c' \<and> ofiles c' = ofiles c \<and> ocloses c' = ocloses c \<and> otx c' = otx c"
  using assms(1,2)
proof (induction "length (concat (orx c))" arbitrary: buffer c rule: less_induct)
  case less
  obtain bytes c' where rc: "old_recv c = (bytes, c')" by fastforce
  show ?case
  proof (cases "bytes = []")
    case True
    then show ?thesis using rc old_recv_empty [of c c'] by (subst old_loop.simps) simp
  next
    case False
    note r = old_recv_bytes [OF rc] and l = old_recv_length [OF rc False]
    let ?b = "overwrite 0 (bytes @ [0]) buffer"
    have b: "?b = bytes @ 0 # drop (Suc (length bytes)) buffer" by (simp add: overwrite_def)
    have nl: "newline \<notin> set (takeWhile (\<lambda>b. b \<noteq> 0) bytes)"
      using r(2) less.prems(2) by (auto dest!: set_takeWhileD)
    have str: "strchr ?b newline = Some False"
      using strchr_eq [of ?b _ newline] c_string_text [of bytes] nl unfolding b by simp
    obtain d' w where wr: "fs_write fs (ofs c') fd bytes = Returned (d', w)" using writes by blast
    have "length ?b = 1024" using less.prems(1) r(1) by simp
    moreover have "length (concat (orx (c'\<lparr>ofs := d'\<rparr>))) < length (concat (orx c))" using l(1) by simp
    moreover have "newline \<notin> set (concat (orx (c'\<lparr>ofs := d'\<rparr>)))" using r(3) less.prems(2) by auto
    ultimately obtain c'' where "old_loop fs ?b fd (c'\<lparr>ofs := d'\<rparr>) = ret c''" "ofiles c'' = ofiles c'"
        "ocloses c'' = ocloses c'" "otx c'' = otx c'"
      using less.hyps [of "c'\<lparr>ofs := d'\<rparr>" ?b] by auto
    moreover have "old_loop fs buffer fd c = old_loop fs ?b fd (c'\<lparr>ofs := d'\<rparr>)"
      using rc False r(1) less.prems(1) wr str by (subst old_loop.simps) simp
    ultimately show ?thesis using l by auto
  qed
qed

section \<open>Properties\<close>

text \<open>
  Daemon mode never serves: with \<open>-d\<close> the earlier server closes every descriptor, its bound
  socket included, before it listens, so for a socket below the descriptor limit the process always
  exits. Without \<open>-d\<close> it listens whenever the socket is created and bound.
\<close>

theorem old_daemon_never_listens:
  assumes "0 \<le> old_socket N" and "old_socket N < int (open_max N)"
  shows "(\<exists>c. old_startup N [prog, ''-d''] T = Inl c) \<and>
    (old_bind N \<noteq> -1 \<longrightarrow> old_startup N [prog] T = Inr (T(nat (old_socket N) \<mapsto> Listener)))"
proof -
  have n: "nat (old_socket N) < open_max N" using assms by simp
  have "open_null (open_null (open_null (close_all (open_max N) T'))) (nat (old_socket N)) \<noteq> Some Listener" for T'
    using n by (simp add: open_null_def close_all_def)
  then have "old_listen (old_socket N) (open_null (open_null (open_null (close_all (open_max N) T')))) = -1" for T'
    by (simp add: old_listen_def)
  then show ?thesis using assms(1)
    by (auto simp: old_startup_def old_daemonize_def old_listen_def Let_def)
qed

theorem old_daemon_never_listens_witness:
  "\<exists>c. old_startup \<lparr>old_socket = 3, old_bind = 0, old_fork = 0, old_setsid = 7, old_chdir = 0, open_max = 1024\<rparr>
     [''aesdsocket'', ''-d''] (\<lambda>fd. if fd < 3 then Some Stdio else None) = Inl c"
  using old_daemon_never_listens [of "\<lparr>old_socket = 3, old_bind = 0, old_fork = 0, old_setsid = 7, old_chdir = 0, open_max = 1024\<rparr>"]
  by simp

lemma old_connection_leaks:
  assumes "length buffer = 1024" and "newline \<notin> set (concat (orx c))"
    and "\<And>d fd bs. \<exists>d' r. fs_write fs d fd bs = Returned (d', r)"
    and "fs_open fs (ofs c) OLD_PATH [O_CREAT, O_WRONLY, O_APPEND] = (d, fd)" and "fd \<noteq> -1"
  shows "\<exists>c'. old_connection fs buffer c = ret c' \<and> ofiles c' = fd # ofiles c \<and> ocloses c' = ocloses c + 1 \<and> otx c' = otx c"
proof -
  let ?c = "c\<lparr>ofs := d, ofiles := fd # ofiles c\<rparr>"
  obtain c' where "old_loop fs buffer fd ?c = ret c'" "ofiles c' = ofiles ?c" "ocloses c' = ocloses ?c" "otx c' = otx ?c"
    using old_loop_no_newline [OF assms(1) _ assms(3), of ?c fd] assms(2) by auto
  then show ?thesis using assms(4,5) by (simp add: old_connection_def close_conn_def)
qed

text \<open>
  The earlier server leaks descriptors: for any sequence of connections whose data holds no newline, and of
  failing \<open>accept\<close> calls, it serves them all and sends nothing, and one more descriptor of the data
  file stays open for each connection.
\<close>

theorem old_serve_leaks:
  assumes "length buffer = 1024" and "list_all (\<lambda>a. case a of None \<Rightarrow> True | Some data \<Rightarrow> newline \<notin> set (concat data)) accepts"
    and "\<And>d fd bs. \<exists>d' r. fs_write fs d fd bs = Returned (d', r)"
    and "\<And>d. snd (fs_open fs d OLD_PATH [O_CREAT, O_WRONLY, O_APPEND]) \<noteq> -1"
  shows "\<exists>d' files' sent. old_serve fs buffer d files accepts = ret (d', files', sent) \<and>
    length files' = length files + length (filter (\<lambda>a. a \<noteq> None) accepts) \<and> concat sent = []"
  using assms(2)
proof (induction accepts arbitrary: d files)
  case Nil
  then show ?case by simp
next
  case (Cons a accepts)
  show ?case
  proof (cases a)
    case None
    then show ?thesis using Cons by simp
  next
    case (Some data)
    let ?c = "\<lparr>ofs = d, orx = data, otx = [], osock = True, ocloses = 0, ofiles = files\<rparr>"
    obtain d1 fd where o: "fs_open fs d OLD_PATH [O_CREAT, O_WRONLY, O_APPEND] = (d1, fd)" by fastforce
    have "fd \<noteq> -1" using assms(4) [of d] o by simp
    then obtain c where c: "old_connection fs buffer ?c = ret c" "ofiles c = fd # files" "otx c = []"
      using old_connection_leaks [OF assms(1) _ assms(3), of ?c d1 fd] Cons.prems Some o by auto
    then show ?thesis using Cons.IH [of "ofs c" "ofiles c"] Cons.prems Some by auto
  qed
qed

text \<open>A file system that accepts everything and holds nothing.\<close>

definition sink_fs :: "unit file_ops" where
  "sink_fs = \<lparr>fs_open = (\<lambda>d p f. (d, 4)), fs_write = (\<lambda>d fd bs. Returned (d, int (length bs))),
     fs_read = (\<lambda>d fd n. Returned (d, Some [])), fs_ioctl = (\<lambda>d fd sk. Returned (d, -1)), fs_fsync = (\<lambda>d fd. d), fs_close = (\<lambda>d fd. d)\<rparr>"

theorem old_serve_leaks_witness:
  "\<exists>d' files' sent. old_serve sink_fs (replicate 1024 0) () [] [Some [[97], [98]], None, Some []] = ret (d', files', sent) \<and>
     length files' = 2 \<and> concat sent = []"
proof -
  have n: "length ([] :: int list) + length (filter (\<lambda>a. a \<noteq> None) [Some [[97 :: byte], [98]], None, Some []]) = 2" by simp
  have "\<exists>d' files' sent. old_serve sink_fs (replicate 1024 0) () [] [Some [[97], [98]], None, Some []] = ret (d', files', sent) \<and>
     length files' = length ([] :: int list) + length (filter (\<lambda>a. a \<noteq> None) [Some [[97 :: byte], [98]], None, Some []]) \<and> concat sent = []"
    by (rule old_serve_leaks) (simp_all add: sink_fs_def)
  then show ?thesis unfolding n .
qed

end
