(* ===== verification/Systemcalls.thy ===== *)
theory Systemcalls
  imports Prelude "HOL-Library.Monad_Syntax"
begin

unbundle bit_operations_syntax

text \<open>
  The three functions of \<open>src/examples/systemcalls/systemcalls.c\<close> that run a command. What the
  operating system answers (\<open>system\<close>, \<open>fork\<close>, \<open>execv\<close>, \<open>waitpid\<close>, \<open>open\<close>, \<open>dup2\<close>) is a record
  of the environment; the status words are 32-bit words and the macros \<open>WIFEXITED\<close> and
  \<open>WEXITSTATUS\<close> work on their bits. \<open>None\<close> is undefined behaviour: reading arguments that
  were not passed, or dereferencing the \<open>NULL\<close> command.
\<close>

section \<open>Status words\<close>

definition WIFEXITED :: "u32 \<Rightarrow> bool" where
  "WIFEXITED s \<longleftrightarrow> s AND 0x7F = 0"

definition WEXITSTATUS :: "u32 \<Rightarrow> u32" where
  "WEXITSTATUS s = drop_bit 8 (s AND 0xFF00)"

text \<open>The status word of a process that calls \<open>exit(c)\<close>.\<close>

definition exited :: "u32 \<Rightarrow> u32" where
  "exited c = push_bit 8 (c AND 0xFF)"

definition EXIT_FAILURE :: u32 where
  "EXIT_FAILURE = 1"

section \<open>The environment\<close>

record env =
  system_rc :: "string \<Rightarrow> u32"
  fork_fails :: bool
  execv_works :: "string list \<Rightarrow> bool"
  command_status :: "string list \<Rightarrow> u32"
  waitpid_fails :: bool
  open_fd :: "string \<Rightarrow> int"
  dup2_fails :: bool

section \<open>The functions\<close>

definition do_system :: "env \<Rightarrow> string option \<Rightarrow> bool" where
  "do_system E cmd =
     (case cmd of
        None \<Rightarrow> False
      | Some c \<Rightarrow>
          (let ret = system_rc E c in
           if ret = -1 then False
           else if WIFEXITED ret \<and> WEXITSTATUS ret = 0 then True
           else False))"

text \<open>The command array: the first \<open>count\<close> of the arguments passed.\<close>

definition gather_args :: "string list \<Rightarrow> int \<Rightarrow> string list option" where
  "gather_args args count =
     (if count < 0 \<or> int (length args) < count then None else Some (take (nat count) args))"

text \<open>\<open>command[0][0] != '/'\<close>.\<close>

definition not_absolute :: "string list \<Rightarrow> bool option" where
  "not_absolute command = (case command of [] \<Rightarrow> None | c # cs \<Rightarrow> Some (c = [] \<or> hd c \<noteq> CHR ''/''))"

text \<open>The status word the child ends with.\<close>

definition exec_child :: "env \<Rightarrow> string list \<Rightarrow> u32" where
  "exec_child E command = (if execv_works E command then command_status E command else exited EXIT_FAILURE)"

definition do_exec :: "env \<Rightarrow> string list \<Rightarrow> int \<Rightarrow> bool option" where
  "do_exec E args count =
     (if count < 1 then Some False
      else do {
        command \<leftarrow> gather_args args count;
        bad \<leftarrow> not_absolute command;
        if bad then Some False
        else if fork_fails E then Some False
        else if waitpid_fails E then Some False
        else let status = exec_child E command in Some (WIFEXITED status \<and> WEXITSTATUS status = 0)
      })"

definition redirect_child :: "env \<Rightarrow> string list \<Rightarrow> u32" where
  "redirect_child E command = (if dup2_fails E then exited EXIT_FAILURE else exec_child E command)"

text \<open>The result, with the descriptors the calling process has opened and not closed.\<close>

definition do_exec_redirect :: "env \<Rightarrow> string \<Rightarrow> string list \<Rightarrow> int \<Rightarrow> (bool \<times> int list) option" where
  "do_exec_redirect E outputfile args count =
     do {
       command \<leftarrow> gather_args args count;
       bad \<leftarrow> not_absolute command;
       if bad then Some (False, [])
       else
         (let fd = open_fd E outputfile in
          if fd = -1 then Some (False, [])
          else if fork_fails E then Some (False, [fd])
          else if waitpid_fails E then Some (False, [])
          else let status = redirect_child E command
               in Some (WIFEXITED status \<and> WEXITSTATUS status = 0, []))
     }"

section \<open>Facts\<close>

lemma masks: "(0x7F :: u32) = mask 7" "(0xFF :: u32) = mask 8" "drop_bit 8 (0xFF00 :: u32) = mask 8"
  by (simp_all add: mask_eq_exp_minus_1)

lemma WIFEXITED_eq: "WIFEXITED s \<longleftrightarrow> take_bit 7 s = 0"
  by (simp add: WIFEXITED_def masks(1) flip: take_bit_eq_mask)

lemma WEXITSTATUS_eq: "WEXITSTATUS s = take_bit 8 (drop_bit 8 s)"
  by (simp only: WEXITSTATUS_def drop_bit_and masks(3) flip: take_bit_eq_mask)

lemma exited_bits: "WIFEXITED (exited c)" "WEXITSTATUS (exited c) = take_bit 8 c"
proof -
  have e: "exited c = push_bit 8 (take_bit 8 c)"
    by (simp only: exited_def masks(2) flip: take_bit_eq_mask)
  show "WIFEXITED (exited c)" unfolding WIFEXITED_eq e by (simp add: take_bit_push_bit)
  show "WEXITSTATUS (exited c) = take_bit 8 c" unfolding WEXITSTATUS_eq e
    by (auto simp: bit_eq_iff bit_simps)
qed

text \<open>How a command can end, and its status word.\<close>

datatype ending = Exits u32 | Killed u32

fun status_word :: "ending \<Rightarrow> u32" where
  "status_word (Exits c) = exited c"
| "status_word (Killed sig) = sig"

fun ending_ok :: "ending \<Rightarrow> bool" where
  "ending_ok (Exits c) = True"
| "ending_ok (Killed sig) = (0 < sig \<and> sig < 0x7F)"

fun succeeds :: "ending \<Rightarrow> bool" where
  "succeeds (Exits c) = (take_bit 8 c = 0)"
| "succeeds (Killed sig) = False"

lemma status_succeeds:
  assumes "ending_ok e"
  shows "WIFEXITED (status_word e) \<and> WEXITSTATUS (status_word e) = 0 \<longleftrightarrow> succeeds e"
proof (cases e)
  case (Exits c)
  then show ?thesis by (simp add: exited_bits)
next
  case (Killed sig)
  with assms have "unat sig < 127" "sig \<noteq> 0" by (auto simp: word_less_nat_alt)
  then have "take_bit 7 sig = sig"
    by (simp add: word_unat_eq_iff unsigned_take_bit_eq take_bit_nat_eq_self)
  with Killed \<open>sig \<noteq> 0\<close> show ?thesis by (simp add: WIFEXITED_eq)
qed

lemma exec_child_succeeds:
  assumes "ending_ok e" and "command_status E command = status_word e"
  shows "WIFEXITED (exec_child E command) \<and> WEXITSTATUS (exec_child E command) = 0 \<longleftrightarrow>
    execv_works E command \<and> succeeds e"
  using status_succeeds [OF assms(1)] exited_bits [of EXIT_FAILURE] assms(2)
  by (simp add: exec_child_def EXIT_FAILURE_def)

section \<open>Properties\<close>

text \<open>
  (C28) Running a command: when the caller has passed at least \<open>count\<close> arguments, \<open>do_exec\<close> returns true exactly
  when \<open>count\<close> is positive, the command is an absolute path, \<open>fork\<close>, \<open>execv\<close> and \<open>waitpid\<close> work, and the
  command ends by itself with an exit code whose low eight bits are 0. In every other case, also for death by a
  signal, it returns false.
\<close>

theorem do_exec_correct:
  assumes "count \<le> int (length args)"
    and "ending_ok e" and "command_status E (take (nat count) args) = status_word e"
  shows "do_exec E args count =
    Some (1 \<le> count \<and> args ! 0 \<noteq> [] \<and> hd (args ! 0) = CHR ''/'' \<and> \<not> fork_fails E \<and> \<not> waitpid_fails E \<and>
      execv_works E (take (nat count) args) \<and> succeeds e)"
proof (cases "1 \<le> count")
  case True
  then obtain a as where args: "take (nat count) args = a # as" "a = args ! 0"
    using assms(1) by (cases args; cases "nat count") auto
  then have "not_absolute (take (nat count) args) = Some (args ! 0 = [] \<or> hd (args ! 0) \<noteq> CHR ''/'')"
    by (simp add: not_absolute_def)
  then show ?thesis
    using True assms(1) exec_child_succeeds [OF assms(2,3)] by (auto simp: do_exec_def gather_args_def Let_def)
qed (simp add: do_exec_def)

text \<open>An environment in which every command exits with the code 256, whose low eight bits are 0.\<close>

definition demo_env :: "bool \<Rightarrow> env" where
  "demo_env ff = \<lparr>system_rc = (\<lambda>c. 0), fork_fails = ff, execv_works = (\<lambda>c. True), command_status = (\<lambda>c. exited 256),
     waitpid_fails = False, open_fd = (\<lambda>f. 3), dup2_fails = False\<rparr>"

theorem do_exec_correct_witness:
  "do_exec (demo_env False) [''/bin/true'', ''x''] 2 = Some True \<and> do_exec (demo_env True) [''/bin/true'', ''x''] 2 = Some False"
  using do_exec_correct [of 2 "[''/bin/true'', ''x'']" "Exits 256" "demo_env False"]
    do_exec_correct [of 2 "[''/bin/true'', ''x'']" "Exits 256" "demo_env True"]
  by (simp add: demo_env_def)

text \<open>
  Redirecting: for at least one argument and an output file that can be opened, when \<open>fork\<close> and \<open>dup2\<close>
  work, \<open>do_exec_redirect\<close> returns what \<open>do_exec\<close> returns and has closed the file.
\<close>

theorem redirect_like_exec:
  assumes "1 \<le> count" and "open_fd E outputfile \<noteq> -1" and "\<not> fork_fails E" and "\<not> dup2_fails E"
  shows "do_exec_redirect E outputfile args count = map_option (\<lambda>b. (b, [])) (do_exec E args count)"
  using assms by (simp add: do_exec_redirect_def do_exec_def redirect_child_def Let_def split: bind_splits)

theorem redirect_like_exec_witness:
  "do_exec_redirect (demo_env False) ''out'' [''/bin/true''] 1 = map_option (\<lambda>b. (b, [])) (do_exec (demo_env False) [''/bin/true''] 1)"
  by (rule redirect_like_exec) (simp_all add: demo_env_def)

text \<open>
  Redirecting, the exits that differ from the documentation: when \<open>fork\<close> fails the output
  file stays open in the caller, and with no argument, where \<open>do_exec\<close> returns false, the \<open>NULL\<close>
  command is dereferenced.
\<close>

theorem redirect_leaks:
  assumes "1 \<le> count" and "count \<le> int (length args)" and "args ! 0 \<noteq> []" and "hd (args ! 0) = CHR ''/''"
    and "open_fd E outputfile \<noteq> -1" and "fork_fails E"
  shows "do_exec_redirect E outputfile args count = Some (False, [open_fd E outputfile]) \<and>
    do_exec_redirect E outputfile args 0 = None \<and> do_exec E args 0 = Some False"
proof -
  obtain a as where "take (nat count) args = a # as" "a = args ! 0"
    using assms(1,2) by (cases args; cases "nat count") auto
  then show ?thesis using assms
    by (simp add: do_exec_redirect_def do_exec_def gather_args_def not_absolute_def Let_def)
qed

theorem redirect_leaks_witness:
  "do_exec_redirect (demo_env True) ''out'' [''/bin/true''] 1 = Some (False, [3])"
  using redirect_leaks [of 1 "[''/bin/true'']" "demo_env True" "''out''"] by (simp add: demo_env_def)

end
