(* ===== verification/Threading.thy ===== *)
theory Threading
  imports Prelude "HOL-Library.Signed_Division"
begin

text \<open>
  The threads of \<open>src/examples/threading/threading.c\<close>: each sleeps, takes the shared mutex,
  holds it for a while and releases it. \<open>step\<close> interleaves any number of them; a state is
  the program counter of each thread and the owner of the mutex. The threads are those that were started
  with the same mutex; others do not interact with them.
\<close>

section \<open>Data\<close>

record thread_data =
  mutex :: ptr
  wait_to_obtain_ms :: int
  wait_to_release_ms :: int
  threadID :: nat
  thread_complete_success :: bool

text \<open>The conversion of a \<open>int\<close> number of milliseconds to a \<open>timespec\<close>; C division truncates.\<close>

definition tv_sec :: "int \<Rightarrow> int" where
  "tv_sec ms = ms sdiv 1000"

definition tv_nsec :: "int \<Rightarrow> int" where
  "tv_nsec ms = (ms smod 1000) * 1000000"

section \<open>Starting a thread\<close>

text \<open>
  The structures handed to threads live in a store. \<open>p\<close> is the result of \<open>malloc\<close>, \<open>rc\<close> and
  \<open>tid\<close> those of \<open>pthread_create\<close>, \<open>m\<close> the address of the caller's mutex.
\<close>

definition start_thread_obtaining_mutex ::
  "ptr \<Rightarrow> int \<Rightarrow> nat \<Rightarrow> ptr \<Rightarrow> int \<Rightarrow> int \<Rightarrow> (ptr \<Rightarrow> thread_data option) \<Rightarrow> bool \<times> (ptr \<Rightarrow> thread_data option)" where
  "start_thread_obtaining_mutex p rc tid m obtain_ms release_ms store =
     (if p = NULL then (False, store)
      else
        (let td = \<lparr>mutex = m, wait_to_obtain_ms = obtain_ms, wait_to_release_ms = release_ms, threadID = 0,
                   thread_complete_success = False\<rparr>;
             store = store(p \<mapsto> td)
         in if rc \<noteq> 0 then (False, store(p := None))
            else (True, store(p \<mapsto> td\<lparr>threadID := tid\<rparr>))))"

section \<open>Running threads\<close>

text \<open>
  Where a thread is in \<open>threadfunc\<close>: in its first sleep, in \<open>pthread_mutex_lock\<close>, in its second
  sleep, in \<open>pthread_mutex_unlock\<close>, or returned, with its structure and the flag set, or with
  \<open>NULL\<close>.
\<close>

datatype pc = Sleeping | Locking | Holding | Unlocking | Succeeded | Failed

record threads =
  pcs :: "pc list"
  owner :: "nat option"

abbreviation at :: "threads \<Rightarrow> nat \<Rightarrow> pc \<Rightarrow> bool" where
  "at s i c \<equiv> i < length (pcs s) \<and> pcs s ! i = c"

definition goto :: "threads \<Rightarrow> nat \<Rightarrow> pc \<Rightarrow> threads" where
  "goto s i c = s\<lparr>pcs := (pcs s)[i := c]\<rparr>"

inductive step :: "threads \<Rightarrow> threads \<Rightarrow> bool" where
  wake: "at s i Sleeping \<Longrightarrow> step s (goto s i Locking)"
| lock: "at s i Locking \<Longrightarrow> owner s = None \<Longrightarrow> step s (goto (s\<lparr>owner := Some i\<rparr>) i Holding)"
| lock_error: "at s i Locking \<Longrightarrow> step s (goto s i Failed)"
| held: "at s i Holding \<Longrightarrow> step s (goto s i Unlocking)"
| unlock: "at s i Unlocking \<Longrightarrow> owner s = Some i \<Longrightarrow> step s (goto (s\<lparr>owner := None\<rparr>) i Succeeded)"
| unlock_error: "at s i Unlocking \<Longrightarrow> owner s \<noteq> Some i \<Longrightarrow> step s (goto s i Failed)"

inductive_cases step_cases: "step s s'"

definition started :: "nat \<Rightarrow> threads" where
  "started n = \<lparr>pcs = replicate n Sleeping, owner = None\<rparr>"

section \<open>The invariant\<close>

text \<open>The owner of the mutex is the thread that is between locking and unlocking.\<close>

definition mutex_inv :: "threads \<Rightarrow> bool" where
  "mutex_inv s \<longleftrightarrow> (\<forall>i. owner s = Some i \<longleftrightarrow> at s i Holding \<or> at s i Unlocking)"

lemma pcs_goto [simp]: "pcs (goto s i c) = (pcs s)[i := c]" "owner (goto s i c) = owner s"
  by (simp_all add: goto_def)

lemma started_inv: "mutex_inv (started n)"
  by (auto simp: mutex_inv_def started_def)

lemma goto_inv:
  assumes "mutex_inv s" and "at s i c" and "c \<noteq> Holding \<and> c \<noteq> Unlocking \<longleftrightarrow> d \<noteq> Holding \<and> d \<noteq> Unlocking"
  shows "mutex_inv (goto s i d)"
  unfolding mutex_inv_def
proof
  fix j
  have "owner s = Some j \<longleftrightarrow> at s j Holding \<or> at s j Unlocking" using assms(1) by (simp add: mutex_inv_def)
  with assms(2,3) show "owner (goto s i d) = Some j \<longleftrightarrow> at (goto s i d) j Holding \<or> at (goto s i d) j Unlocking"
    by (cases "i = j") auto
qed

lemma step_inv:
  assumes "step s s'" and "mutex_inv s"
  shows "mutex_inv s'"
  using assms
proof (cases rule: step.cases)
  case (lock i)
  then have no: "\<not> (at s j Holding \<or> at s j Unlocking)" for j using assms(2) by (simp add: mutex_inv_def)
  have "owner s' = Some j \<longleftrightarrow> at s' j Holding \<or> at s' j Unlocking" for j
    using lock no [of j] by (cases "i = j") auto
  then show ?thesis by (simp add: mutex_inv_def)
next
  case (unlock i)
  have eq: "owner s = Some j \<longleftrightarrow> at s j Holding \<or> at s j Unlocking" for j
    using assms(2) by (simp add: mutex_inv_def)
  have "owner s' = Some j \<longleftrightarrow> at s' j Holding \<or> at s' j Unlocking" for j
    using unlock eq [of j] by (cases "i = j") auto
  then show ?thesis by (simp add: mutex_inv_def)
next
  case (unlock_error i)
  then show ?thesis using assms(2) by (simp add: mutex_inv_def)
qed (use assms(2) goto_inv in auto)

lemma steps_inv: "step\<^sup>*\<^sup>* s s' \<Longrightarrow> mutex_inv s \<Longrightarrow> mutex_inv s'"
  by (induction rule: rtranclp_induct) (auto intro: step_inv)

text \<open>Every step brings its thread nearer to its return.\<close>

fun remaining :: "pc \<Rightarrow> nat" where
  "remaining Sleeping = 4"
| "remaining Locking = 3"
| "remaining Holding = 2"
| "remaining Unlocking = 1"
| "remaining Succeeded = 0"
| "remaining Failed = 0"

definition work :: "threads \<Rightarrow> nat" where
  "work s = sum_list (map remaining (pcs s))"

lemma work_goto:
  assumes "i < length (pcs s)" and "remaining c < remaining (pcs s ! i)"
  shows "work (goto s i c) < work s"
proof -
  let ?ws = "map remaining (pcs s)"
  have "?ws ! i \<le> sum_list ?ws" using assms(1) by (intro elem_le_sum_list) simp
  moreover have "work (goto s i c) = sum_list ?ws + remaining c - ?ws ! i"
    using assms(1) by (simp add: work_def map_update sum_list_update)
  ultimately show ?thesis using assms by (simp add: work_def)
qed

lemma work_owner: "work (goto (s\<lparr>owner := x\<rparr>) i c) = work (goto s i c)"
  by (simp add: work_def)

lemma step_work: "step s s' \<Longrightarrow> work s' < work s"
  by (induction rule: step.induct) (auto simp: work_owner intro!: work_goto)

lemma steps_work: "(step ^^ k) s s' \<Longrightarrow> work s' + k \<le> work s"
proof (induction k arbitrary: s')
  case 0
  then show ?case by simp
next
  case (Suc k)
  then obtain m where "(step ^^ k) s m" "step m s'" by auto
  then show ?case using Suc.IH step_work by fastforce
qed

lemma step_length: "step s s' \<Longrightarrow> length (pcs s') = length (pcs s)"
  by (induction rule: step.induct) simp_all

text \<open>A thread that has not returned can move, or some other thread can.\<close>

lemma progress:
  assumes inv: "mutex_inv s" and i: "i < length (pcs s)" "pcs s ! i \<noteq> Succeeded" "pcs s ! i \<noteq> Failed"
  shows "\<exists>s'. step s s'"
proof (cases "pcs s ! i")
  case Unlocking
  with inv i(1) have "owner s = Some i" by (simp add: mutex_inv_def)
  with Unlocking i(1) show ?thesis using step.unlock by blast
qed (use i step.wake step.lock_error step.held in blast)+

lemma no_failed_unlock:
  assumes "mutex_inv s" and "at s i Unlocking"
  shows "owner s = Some i"
  using assms by (simp add: mutex_inv_def)

section \<open>Properties\<close>

text \<open>
  (C23) Mutual exclusion: however the threads are interleaved, at most one of them is between its
  lock and its unlock, it is the owner of the mutex, and so an unlock never fails.
\<close>

theorem mutual_exclusion:
  assumes "step\<^sup>*\<^sup>* (started n) s"
  shows "(\<forall>i j. (at s i Holding \<or> at s i Unlocking) \<and> (at s j Holding \<or> at s j Unlocking) \<longrightarrow> i = j) \<and>
    (\<forall>i. at s i Unlocking \<longrightarrow> owner s = Some i)"
proof -
  have "mutex_inv s" using steps_inv [OF assms started_inv] .
  then have "owner s = Some i \<longleftrightarrow> at s i Holding \<or> at s i Unlocking" for i by (simp add: mutex_inv_def)
  then show ?thesis by (metis option.inject)
qed

lemma demo_run: "step\<^sup>*\<^sup>* (started 2) \<lparr>pcs = [Holding, Locking], owner = Some 0\<rparr>"
proof -
  have "step (started 2) \<lparr>pcs = [Locking, Sleeping], owner = None\<rparr>"
    using step.wake [of 0 "started 2"] by (simp add: started_def goto_def numeral_2_eq_2)
  moreover have "step \<lparr>pcs = [Locking, Sleeping], owner = None\<rparr> \<lparr>pcs = [Locking, Locking], owner = None\<rparr>"
    using step.wake [of 1 "\<lparr>pcs = [Locking, Sleeping], owner = None\<rparr>"] by (simp add: goto_def)
  moreover have "step \<lparr>pcs = [Locking, Locking], owner = None\<rparr> \<lparr>pcs = [Holding, Locking], owner = Some 0\<rparr>"
    using step.lock [of 0 "\<lparr>pcs = [Locking, Locking], owner = None\<rparr>"] by (simp add: goto_def)
  ultimately show ?thesis by (meson converse_rtranclp_into_rtranclp rtranclp.rtrancl_refl)
qed

theorem mutual_exclusion_witness:
  "\<exists>s. step\<^sup>*\<^sup>* (started 2) s \<and> at s 0 Holding \<and> \<not> at s 1 Holding"
proof -
  let ?s = "\<lparr>pcs = [Holding, Locking], owner = Some 0\<rparr>"
  have "at ?s 1 Holding \<Longrightarrow> (0 :: nat) = 1"
    using mutual_exclusion [OF demo_run, THEN conjunct1, rule_format, of 0 1] by simp
  then have "\<not> at ?s 1 Holding" by linarith
  then show ?thesis using demo_run by (intro exI [of _ ?s]) simp
qed

text \<open>
  No deadlock, and every run ends: no run of \<open>n\<close> threads has more than \<open>4 n\<close> steps, and a state
  in which no step is possible is one in which every thread has returned and the mutex is
  free.
\<close>

theorem threads_finish:
  assumes "(step ^^ k) (started n) s"
  shows "k \<le> 4 * n \<and> ((\<nexists>s'. step s s') \<longrightarrow>
    (\<forall>i < n. pcs s ! i = Succeeded \<or> pcs s ! i = Failed) \<and> owner s = None)"
proof -
  have k: "k \<le> 4 * n" using steps_work [OF assms] by (simp add: work_def started_def sum_list_replicate)
  have star: "step\<^sup>*\<^sup>* (started n) s" using assms by (auto simp: rtranclp_power)
  have inv: "mutex_inv s" using steps_inv [OF star started_inv] .
  have len: "length (pcs s) = n"
    using star by (induction rule: rtranclp_induct) (simp_all add: started_def step_length)
  { assume stop: "\<nexists>s'. step s s'"
    have all: "pcs s ! i = Succeeded \<or> pcs s ! i = Failed" if "i < n" for i
      using progress [OF inv, of i] stop that len by blast
    have "owner s = None"
    proof (cases "owner s")
      case (Some i)
      with inv have "at s i Holding \<or> at s i Unlocking" unfolding mutex_inv_def by blast
      with all [of i] len show ?thesis by auto
    qed simp
    with all have "(\<forall>i < n. pcs s ! i = Succeeded \<or> pcs s ! i = Failed) \<and> owner s = None" by blast }
  with k show ?thesis by blast
qed

lemma single_run: "(step ^^ Suc (Suc (Suc (Suc 0)))) (started 1) \<lparr>pcs = [Succeeded], owner = None\<rparr>"
proof -
  have "step (started 1) \<lparr>pcs = [Locking], owner = None\<rparr>"
    using step.wake [of 0 "started 1"] by (simp add: started_def goto_def)
  moreover have "step \<lparr>pcs = [Locking], owner = None\<rparr> \<lparr>pcs = [Holding], owner = Some 0\<rparr>"
    using step.lock [of 0 "\<lparr>pcs = [Locking], owner = None\<rparr>"] by (simp add: goto_def)
  moreover have "step \<lparr>pcs = [Holding], owner = Some 0\<rparr> \<lparr>pcs = [Unlocking], owner = Some 0\<rparr>"
    using step.held [of 0 "\<lparr>pcs = [Holding], owner = Some 0\<rparr>"] by (simp add: goto_def)
  moreover have "step \<lparr>pcs = [Unlocking], owner = Some 0\<rparr> \<lparr>pcs = [Succeeded], owner = None\<rparr>"
    using step.unlock [of 0 "\<lparr>pcs = [Unlocking], owner = Some 0\<rparr>"] by (simp add: goto_def)
  ultimately show ?thesis by (meson relpowp_0_I relpowp_Suc_I)
qed

theorem threads_finish_witness:
  "\<exists>s. (step ^^ Suc (Suc (Suc (Suc 0)))) (started 1) s \<and> (\<nexists>s'. step s s') \<and>
     (pcs s ! 0 = Succeeded \<or> pcs s ! 0 = Failed) \<and> owner s = None"
proof -
  have "\<nexists>s'. step \<lparr>pcs = [Succeeded], owner = None\<rparr> s'" by (auto elim!: step_cases)
  with threads_finish [OF single_run] single_run show ?thesis by blast
qed

text \<open>
  Milliseconds: a non-negative \<open>int\<close> number of milliseconds becomes a valid \<open>timespec\<close> for
  exactly that time, computed without overflow; a negative number that is no multiple
  of 1000 gives a negative nanosecond field, which \<open>nanosleep\<close> rejects.
\<close>

theorem timespec_correct:
  assumes "-(2 ^ 31) \<le> ms" and "ms < 2 ^ 31"
  shows "\<bar>tv_nsec ms\<bar> < 2 ^ 31 \<and> tv_sec ms * 1000000000 + tv_nsec ms = ms * 1000000 \<and>
    (0 \<le> ms \<longrightarrow> 0 \<le> tv_sec ms \<and> 0 \<le> tv_nsec ms \<and> tv_nsec ms < 1000000000) \<and>
    (ms < 0 \<and> ms mod 1000 \<noteq> 0 \<longrightarrow> tv_nsec ms < 0)"
proof (cases "0 \<le> ms")
  case True
  obtain q r where qr: "q = ms div 1000" "r = ms mod 1000" by blast
  have "tv_sec ms = q" "tv_nsec ms = r * 1000000"
    using True unfolding qr
    by (cases "ms = 0"; simp add: tv_sec_def tv_nsec_def signed_divide_int_def signed_modulo_int_def modulo_int_def)+
  moreover have "0 \<le> r" "r < 1000" "ms = q * 1000 + r" "0 \<le> q"
    using True unfolding qr by (simp_all add: pos_imp_zdiv_nonneg_iff)
  ultimately show ?thesis using True by simp
next
  case False
  obtain q r where qr: "q = (- ms) div 1000" "r = (- ms) mod 1000" by blast
  have "tv_sec ms = - q" "tv_nsec ms = - (r * 1000000)"
    using False unfolding qr
    by (simp_all add: tv_sec_def tv_nsec_def signed_divide_int_def signed_modulo_int_def modulo_int_def)
  moreover have "0 \<le> r" "r < 1000" "- ms = q * 1000 + r" unfolding qr by simp_all
  moreover have "ms mod 1000 \<noteq> 0 \<Longrightarrow> r \<noteq> 0" unfolding qr by presburger
  ultimately show ?thesis using False by auto
qed

theorem timespec_correct_witness: "tv_sec 2500 * 1000000000 + tv_nsec 2500 = 2500 * 1000000 \<and> tv_nsec (-1) < 0"
  using timespec_correct [of 2500] timespec_correct [of "-1"] by simp

text \<open>
  Starting: \<open>start_thread_obtaining_mutex\<close> returns true exactly when both the allocation and
  \<open>pthread_create\<close> succeed; then the new structure holds the arguments, the flag unset
  and the thread's identifier; on every failure the store is as it was.
\<close>

theorem start_thread_correct:
  assumes "store p = None"
  shows "start_thread_obtaining_mutex p rc tid m obtain_ms release_ms store =
    (if p \<noteq> NULL \<and> rc = 0
     then (True, store(p \<mapsto> \<lparr>mutex = m, wait_to_obtain_ms = obtain_ms, wait_to_release_ms = release_ms, threadID = tid,
                              thread_complete_success = False\<rparr>))
     else (False, store))"
  using assms by (auto simp: start_thread_obtaining_mutex_def Let_def)

theorem start_thread_correct_witness:
  "start_thread_obtaining_mutex 1 11 5 7 10 20 Map.empty = (False, Map.empty)"
  using start_thread_correct [of Map.empty 1 11 5 7 10 20] by simp

end
