(* ===== verification/Writer.thy ===== *)
theory Writer
  imports Device_File Server_Claims
begin

text \<open>
  The program \<open>src/finder-app/writer.c\<close>, which writes its second argument to the file named by
  its first one. Logging is left out.

  The length of the string is kept in an \<open>int\<close>, which is converted to the \<open>size_t\<close> argument of \<open>write\<close>: from 2 GiB
  on it is truncated to 32 bits. When that gives a negative number, \<open>write\<close> is asked for more bytes than
  the address space has, which POSIX leaves to the implementation; the model gives no result there.
\<close>

definition int_len :: "string \<Rightarrow> 32 word" where
  "int_len str = of_nat (length str)"

definition writer_main :: "'d file_ops \<Rightarrow> 'd \<Rightarrow> string list \<Rightarrow> ('d \<times> int) prog" where
  "writer_main fs d argv =
     (if length argv \<noteq> 3 then ret (d, 1)
      else
        (let writefile = argv ! 1; writestr = bytes_of (argv ! 2) in
         case fs_open fs d writefile [O_WRONLY, O_CREAT, O_TRUNC] of
           (d, fd) \<Rightarrow>
             if fd = -1 then ret (d, 1)
             else if sint (int_len (argv ! 2)) < 0 then Some Undefined
             else
               seq (Some (fs_write fs d fd (take (nat (sint (int_len (argv ! 2)))) writestr))) (\<lambda>(d, written).
                 if written = -1 then ret (fs_close fs d fd, 1)
                 else ret (fs_close fs d fd, 0))))"

lemma int_len_small:
  assumes "length str mod 2 ^ 32 < 2 ^ 31"
  shows "sint (int_len str) = int (length str mod 2 ^ 32)"
proof -
  have "uint (int_len str) = int (length str mod 2 ^ 32)"
    by (simp add: int_len_def unsigned_of_nat take_bit_eq_mod of_nat_mod zmod_int)
  then show ?thesis using assms by (simp add: sint_uint signed_take_bit_int_eq_self)
qed

text \<open>A client of the log file: it reports success exactly when the file took what it wrote.\<close>

context log_file
begin

lemma writer_on_log:
  assumes "good d" and "argv = [prog, path, str]" and "n = length str mod 2 ^ 32" and "n < 2 ^ 31" and "bs = take n (bytes_of str)"
  shows "\<exists>d' rc. writer_main fs d argv = ret (d', rc) \<and> good d' \<and>
    (if rc = 0 then accepts (content d) (part d) bs (content d') (part d')
     else rc = 1 \<and> refuses (content d) (part d) bs (content d') (part d'))"
proof -
  obtain d1 fd where op: "fs_open fs d path [O_WRONLY, O_CREAT, O_TRUNC] = (d1, fd)" by fastforce
  note d1 = open_law [OF assms(1) op]
  have len: "sint (int_len str) = int n" using int_len_small assms(3,4) by simp
  show ?thesis
  proof (cases "fd = -1")
    case True
    then show ?thesis using op d1 assms(2) by (simp add: writer_main_def refuses_def)
  next
    case False
    with d1 have "good d1" "fpos d1 fd = Some 0" by simp_all
    moreover have "length bs < 2 ^ 63" using assms(4,5) by simp
    ultimately obtain d2 r where w: "fs_write fs d1 fd bs = Returned (d2, r)" "good d2"
        "if r = -1 then refuses (content d1) (part d1) bs (content d2) (part d2)
         else r = int (length bs) \<and> accepts (content d1) (part d1) bs (content d2) (part d2)"
      using write_law [of d1 fd 0 bs] by blast
    with close_law [OF w(2), of fd] op False d1 assms(2,5) len show ?thesis
      by (cases "r = -1") (simp_all add: writer_main_def)
  qed
qed

end

section \<open>Properties\<close>

text \<open>
  (C33) The writer on the device: run on \<open>/dev/aesdchar\<close> with a string, it writes the bytes that its 32-bit length
  counts, which are all of them below 2 GiB. It exits with 0 exactly when the driver has taken these bytes, as its
  log specifies, and with 1 otherwise, and then the log is unchanged and the bytes were dropped or kept as an
  unfinished command. The kernel passes a write of up to \<open>0x7ffff000\<close> bytes on to the driver as it is; longer ones
  are not considered, nor strings whose length is negative as a 32-bit number.
\<close>

theorem writer_on_device:
  assumes "vfs_good K F d" and "n = length str mod 2 ^ 32" and "n \<le> 0x7ffff000" and "bs = take n (bytes_of str)"
  shows "(length str < 2 ^ 31 \<longrightarrow> bs = bytes_of str) \<and>
    (\<exists>d' rc. writer_main (vfs_ops K) d [prog, ''/dev/aesdchar'', str] = ret (d', rc) \<and> vfs_good K F d' \<and>
      (if rc = 0 then accepts (vfs_log d) (vfs_part d) bs (vfs_log d') (vfs_part d')
       else rc = 1 \<and> refuses (vfs_log d) (vfs_part d) bs (vfs_log d') (vfs_part d')))"
proof
  show "length str < 2 ^ 31 \<longrightarrow> bs = bytes_of str" using assms(2,4) by (simp add: bytes_of_def)
  have "n < 2 ^ 31" using assms(3) by simp
  from aesdchar.writer_on_log [OF assms(1) refl assms(2) this assms(4)]
  show "\<exists>d' rc. writer_main (vfs_ops K) d [prog, ''/dev/aesdchar'', str] = ret (d', rc) \<and> vfs_good K F d' \<and>
      (if rc = 0 then accepts (vfs_log d) (vfs_part d) bs (vfs_log d') (vfs_part d')
       else rc = 1 \<and> refuses (vfs_log d) (vfs_part d) bs (vfs_log d') (vfs_part d'))" .
qed

theorem writer_on_device_witness:
  "\<exists>d' rc. writer_main (vfs_ops srv_kernel) demo_vfs [''writer'', ''/dev/aesdchar'', ''hello''] = ret (d', rc) \<and>
     vfs_good srv_kernel Map.empty d'"
  using writer_on_device [OF demo_vfs_good, of 5 "''hello''" "bytes_of ''hello''" "''writer''"] by (auto simp: bytes_of_def)

text \<open>
  The exit code: with another number of arguments than two the writer exits with 1 and touches
  nothing; when the file cannot be opened it exits with 1; a short write, which stored only a
  part of the string, counts as success.
\<close>

theorem writer_exit_code:
  "(length argv \<noteq> 3 \<longrightarrow> writer_main fs d argv = ret (d, 1)) \<and>
   (fs_open fs d f [O_WRONLY, O_CREAT, O_TRUNC] = (d1, -1) \<longrightarrow> writer_main fs d [p, f, str] = ret (d1, 1)) \<and>
   (fs_open fs d f [O_WRONLY, O_CREAT, O_TRUNC] = (d1, fd) \<and> fd \<noteq> -1 \<and>
      length str < 2 ^ 31 \<and> fs_write fs d1 fd (bytes_of str) = Returned (d2, int k) \<and> k < length str \<longrightarrow>
    writer_main fs d [p, f, str] = ret (fs_close fs d2 fd, 0))"
  using int_len_small [of str] by (simp add: writer_main_def bytes_of_def)

text \<open>A file system whose only effect is to count the bytes stored, two per call.\<close>

definition short_fs :: "nat file_ops" where
  "short_fs = \<lparr>fs_open = (\<lambda>d p f. (d, 3)), fs_write = (\<lambda>d fd bs. Returned (d + min 2 (length bs), int (min 2 (length bs)))),
     fs_read = (\<lambda>d fd n. Returned (d, Some [])), fs_ioctl = (\<lambda>d fd sk. Returned (d, -1)), fs_fsync = (\<lambda>d fd. d), fs_close = (\<lambda>d fd. d)\<rparr>"

theorem writer_exit_code_witness:
  "writer_main short_fs 0 [''writer'', ''f'', ''abc''] = ret (2, 0) \<and> writer_main short_fs 0 [''writer''] = ret (0, 1)"
proof -
  have "bytes_of ''abc'' = [97, 98, 99]" by (simp add: bytes_of_def)
  then show ?thesis
    using writer_exit_code [of "[''writer'']" short_fs 0 "''f''" 0 "''writer''" "''abc''" 3 2 2]
    by (simp add: short_fs_def)
qed

end
