(* ===== verification/Autotest.thy ===== *)
theory Autotest
  imports Main
begin

text \<open>
  The programs that validate the test setup: \<open>src/examples/autotest-validate\<close> and the test of the user
  name in \<open>src/student-test/assignment1\<close>. The assertion of the Unity framework and the function that reads
  \<open>conf/username.txt\<close> are not part of the repository and are parameters of the test.
\<close>

definition this_function_returns_true :: bool where
  "this_function_returns_true = True"

definition this_function_returns_false :: bool where
  "this_function_returns_false = False"

definition my_username :: string where
  "my_username = ''AbhishekKoppaCU''"

definition git_username :: string where
  "git_username = ''akshita-bhasin''"

text \<open>What the program prints.\<close>

definition autotest_main :: string where
  "autotest_main =
     ''this_function_returns_true returned '' @ (if this_function_returns_true then ''true'' else ''false'') @ ''\<newline>'' @
     ''this_function_returns_false returned '' @ (if this_function_returns_false then ''true'' else ''false'') @ ''\<newline>''"

text \<open>The test, over the assertion of the framework and the name read from the configuration file.\<close>

definition test_validate_my_username :: "(string \<Rightarrow> string \<Rightarrow> 'r) \<Rightarrow> string \<Rightarrow> 'r" where
  "test_validate_my_username TEST_ASSERT_EQUAL_STRING malloc_username_from_conf_file =
     TEST_ASSERT_EQUAL_STRING my_username malloc_username_from_conf_file"

lemma autotest_main_prints:
  "autotest_main = ''this_function_returns_true returned true\<newline>this_function_returns_false returned false\<newline>''"
  by (simp add: autotest_main_def this_function_returns_true_def this_function_returns_false_def)

lemma test_validate_my_username_passes:
  assumes "\<And>s t. equal_string s t \<longleftrightarrow> s = t"
  shows "test_validate_my_username equal_string conf \<longleftrightarrow> conf = ''AbhishekKoppaCU''"
  using assms by (auto simp: test_validate_my_username_def my_username_def)

text \<open>The two user names of the program differ.\<close>

lemma git_username_differs: "git_username \<noteq> my_username"
  by (simp add: git_username_def my_username_def)

end
