(* ===== verification/Spec2Isabelle.thy ===== *)
theory Spec2Isabelle
  imports Ring_Claims Concurrent_Claims Server_Shutdown Timestamp Queue_Claims Aesdsocket_Old Systemcalls Threading Writer Autotest
begin

text \<open>
  Verification of the AESD programs: the character driver \<open>aesdchar\<close>, the socket server that uses
  it, and the smaller programs of the repository.

  \<^bold>\<open>The programs and how they interact.\<close> The driver (\<open>src/aesd-char-driver\<close>) keeps the newest ten
  commands written to \<open>/dev/aesdchar\<close> in a circular buffer and the bytes of an unfinished command
  in a pending buffer; a command is complete when a write leaves a newline in the pending
  bytes. Reading delivers the concatenation of the commands, and an ioctl seeks to a byte of a
  command. The server (\<open>src/server/aesdsocket.c\<close>) accepts connections and starts a thread for each;
  a thread receives a message, writes it to the device and sends the contents of the device
  back, or carries out a seek command. \<open>main\<close> keeps its threads in a singly-linked list of the
  macros in \<open>src/server/queue.h\<close>, a copy of the ones it includes from the system. \<open>finder-app/writer.c\<close>
  writes a string to a file, which may be the device.

  \<^bold>\<open>Theories.\<close>
  \<^item> \<open>Prelude\<close>: machine types, bounded logs (\<open>push\<close>, \<open>newest\<close>), positions in a concatenation
    (\<open>locate\<close>), lemmas on words.
  \<^item> \<open>Circular_Buffer\<close>, \<open>Ring_Claims\<close>: \<open>aesd-circular-buffer.c\<close> and its header, on arrays of entries with
    8-bit offsets. \<open>cb_wf\<close> is the invariant, \<open>cb_entries\<close> the list of entries; the locale
    \<open>bounded_log\<close> is the interface to the driver, interpreted on the ring.
  \<^item> \<open>Kernel_Api\<close>: the kernel functions the driver calls, a record of functions with their documented
    laws as predicates, and a kernel that satisfies them.
  \<^item> \<open>Aesd_Driver\<close>: \<open>main.c\<close> and \<open>aesdchar.h\<close>, one definition per handler, on a heap of blocks. \<open>None\<close> is
    undefined behaviour, \<open>Blocks\<close> sleeping on the mutex.
  \<^item> \<open>Driver_Memory\<close>, \<open>Driver_Write\<close>, \<open>Driver_Read\<close>, \<open>Driver_Properties\<close>, \<open>Driver_Claims\<close>: the memory
    invariant \<open>drv_inv\<close>, which says which blocks the driver owns; what each handler does to the
    abstract contents \<open>drv_cmds\<close> and \<open>drv_pend\<close>; the states reachable after a load; the locale \<open>write_log\<close> and
    its interpretation; the properties.
  \<^item> \<open>Simulation\<close>: the locale \<open>simulation\<close> of forward simulations with a way out where the code goes wrong, and its
    extension \<open>stuttering\<close> for termination. \<open>Driver_Steps\<close>: the handlers of the driver cut into the steps between which
    another process may run (\<open>dev_step\<close>). \<open>Driver_Interleave\<close>: any number of processes that call the
    driver at the same time (\<open>user_step\<close>), and the simulation by whole calls (\<open>atomic_step\<close>), an interpretation of
    \<open>simulation\<close>. A process is a plan that chooses the next call from the answers so far.
    \<open>Concurrent_Claims\<close>: the properties.
  \<^item> \<open>C_Strings\<close>, \<open>Posix\<close>: string functions, \<open>sscanf\<close>, files, memory and sockets of a user program. A
    program's result may be divergence, undefined behaviour, blocking or a value.
  \<^item> \<open>Aesdsocket\<close>, \<open>Server_Receive\<close>, \<open>Server_Session\<close>: the connection threads of \<open>aesdsocket.c\<close>. The locale
    \<open>log_file\<close> is the contract of the file the server works on; the sessions are proved from it.
  \<^item> \<open>Device_File\<close>: open files on top of the driver's handlers, where the kernel may refuse an \<open>open\<close>; the interpretation of \<open>log_file\<close> on the
    driver. \<open>Server_Claims\<close>: the properties of the server running on the driver.
  \<^item> \<open>Server_Threads\<close>: the two critical sections of a thread and the interleaving of the sections of any number
    of threads (\<open>srv_step\<close>).
  \<^item> \<open>Server_Steps\<close>: the thread function one call at a time (\<open>thread_step\<close>), and that these steps are those of
    \<open>threadfunc\<close>. \<open>Server_Interleave\<close>: any number of threads interleaved call by call, with a mutex that knows
    its owner (\<open>pool_step\<close>), and the simulation by whole sections, an interpretation of \<open>stuttering\<close>.
    \<open>Server_Content\<close>: the device while a thread is within a section. \<open>Interleave_Claims\<close>, \<open>Server_History\<close>: the properties
    of the interleavings.
  \<^item> \<open>Queue_Cells\<close>: what the list kinds of \<open>queue.h\<close> share: links as cells and the lists behind them
    (\<open>run\<close>, \<open>walk\<close>), the loops of the traversals, the operations with their meaning on lists (\<open>qop\<close>,
    \<open>spec_op\<close>), and the locales \<open>list_macros\<close> (one list) and \<open>shared_macros\<close> (any number of lists in one memory).
  \<^item> \<open>Slist\<close>, \<open>Queue_List\<close>, \<open>Queue_Stailq\<close>, \<open>Queue_Tailq\<close>, \<open>Queue_Circleq\<close>: the macros \<open>SLIST\<close>, \<open>LIST\<close>, \<open>STAILQ\<close>,
    \<open>TAILQ\<close> and \<open>CIRCLEQ\<close>, one definition per macro, each with the interpretation of its
    contract. \<open>Queue_Types\<close>: type soundness of \<open>TAILQ\<close>. \<open>Queue_Claims\<close>: the properties.
  \<^item> \<open>Server_Main\<close>, \<open>Server_Loop\<close>, \<open>Timestamp\<close>: start-up, shutdown and a round of the accept loop of \<open>main\<close>; the
    accept loop step by step, interleaved with the ends of the threads it starts (\<open>server_step\<close>); the
    timestamp thread. \<open>Whole_Server\<close>: the accept loop together with the calls of its threads (\<open>whole_step\<close>),
    which share the records of the list. \<open>Server_Shutdown\<close>: the signal handler interleaved with all of them
    (\<open>process_step\<close>).
  \<^item> \<open>Aesdsocket_Old\<close>, \<open>Systemcalls\<close>, \<open>Threading\<close>, \<open>Writer\<close>, \<open>Autotest\<close>: the earlier server, the exercises under
    \<open>src/examples\<close>, the writer, and the validation of the test setup.

  \<^bold>\<open>What is shown.\<close> The ring refines a bounded list, and its search and counting functions are exact.
  Every driver handler is free of undefined behaviour in every state reachable after a load, keeps
  the invariant, and changes the log as specified on every exit; a load followed by any calls and
  an unload gives back all memory and the device number. The driver is linearizable: with any number of processes
  calling it at the same time, every call takes effect at one moment between its entry and its return,
  nothing is undefined, and the calls finish unless a rejected seek has left the mutex locked. A server thread stores what it received
  and sends back the whole log, on the real driver; its receive loop is memory safe for every
  way the data can be cut into pieces. When every client sends something, allocations succeed and the device can be
  opened, then however the calls of any number of threads are interleaved, the
  server behaves as if their critical sections were executed one after the other, and its answers
  are those of a log that takes one message at a time; the interleavings end with every
  thread cleaned up, unless a client stays silent, which stops the server for all
  others, or a seek command is rejected. At every moment the device is at the end of a sequence of whole
  messages, so that the server may be killed at any time; but its signal handler destroys a mutex that a
  thread may hold, and always does so while a client is silent. The accept loop joins and frees exactly the finished
  threads, and whenever they end, none of their records is lost, freed too early or used after. The
  five kinds of lists refine HOL lists under every sequence of operations on any number of them,
  their traversals end and visit the list, and the tail queue macros are type sound on any
  well typed memory. The threads of the threading exercise exclude each other and finish. Where the code does
  not do what it means to (a mutex kept on an error exit, an unlock too many, a buffer size out of
  step with its block, a descriptor leaked), the theorem says what it does instead.

  \<^bold>\<open>Loops.\<close> Loops over the ring, over received data and over arguments are total functions. The loops
  whose end depends on something else (reading a file until it ends, searching a list, walking a
  list) are partial functions whose result \<open>None\<close> means that they do not end, and their
  theorems state that they do. No fuel is used. Sizes in the server are natural numbers with the
  wrap of \<open>size_t\<close> written out; an allocation above \<open>2^63\<close> bytes fails, so it never happens.

  \<^bold>\<open>What is not modelled.\<close> Logging and debug output; signals that interrupt a call; other users of the kernel's
  memory while the driver runs; two threads that share one open file of the device; what happens in an interleaving after an undefined call or after a
  connection without data, which leaves the mutex locked; \<open>CIRCLEQ_REPLACE\<close> and \<open>CIRCLEQ_FOREACH_REVERSE_SAFE\<close>, no use
  of which compiles; \<open>src/server/aesd_ioctl.h\<close>, an unused copy of the driver's header; shell scripts. A
  block of memory is an address with its bytes, so pointers into the middle of one are a pair of
  address and offset. A user address is only passed on to the kernel's copy functions.
\<close>

end
